(* ===== verification/Prelude.thy ===== *)
theory Prelude
  imports Main "HOL-Library.Word" "HOL-Library.Monad_Syntax"
begin

unbundle bit_operations_syntax

text \<open>
  Shared vocabulary of the development: the C integer types the sources use, the
  \<open>chunk_t\<close> byte buffer, the \<open>status_t\<close> result codes, network byte order
  (\<open>utils/byteorder.h\<close>) and the C memory primitives (\<open>memcpy\<close>, \<open>memcmp\<close>,
  \<open>memeq\<close>, \<open>memxor\<close>), with the generic lemmas the component theories rest on.

  A \<open>chunk_t\<close> (pointer and length) is the list of the bytes it spans. The host is
  little endian, as the Android targets are: \<open>htonl\<close> and \<open>htons\<close> swap bytes, and
  an integer kept in network order is that swapped integer.
\<close>

section \<open>Machine types and result codes\<close>

type_synonym u8 = "8 word"
type_synonym u16 = "16 word"
type_synonym u32 = "32 word"
type_synonym u64 = "64 word"
type_synonym chunk = "u8 list"

abbreviation (input) chunk_empty :: chunk where
  "chunk_empty \<equiv> []"

datatype status_t = SUCCESS | FAILED | OUT_OF_RES | ALREADY_DONE | NOT_SUPPORTED
  | INVALID_ARG | NOT_FOUND | PARSE_ERROR | VERIFY_ERROR | INVALID_STATE
  | DESTROY_ME | NEED_MORE

named_theorems wire_simps \<open>encoding and decoding of integers in network order\<close>
named_theorems mem_simps \<open>C memory primitives on byte lists\<close>

section \<open>Network byte order\<close>

text \<open>The value of a byte string read most significant byte first, and its inverse.\<close>

fun be_nat :: "chunk \<Rightarrow> nat" where
  "be_nat [] = 0"
| "be_nat (b # bs) = unat b * 256 ^ length bs + be_nat bs"

fun nat_be :: "nat \<Rightarrow> nat \<Rightarrow> chunk" where
  "nat_be 0 k = []"
| "nat_be (Suc n) k = of_nat (k div 256 ^ n) # nat_be n k"

text \<open>\<open>untoh16\<close>, \<open>untoh32\<close>, \<open>untoh64\<close>: read at the start of a buffer.\<close>

definition untoh16 :: "chunk \<Rightarrow> u16" where
  "untoh16 p = of_nat (be_nat (take 2 p))"

definition untoh32 :: "chunk \<Rightarrow> u32" where
  "untoh32 p = of_nat (be_nat (take 4 p))"

definition untoh64 :: "chunk \<Rightarrow> u64" where
  "untoh64 p = of_nat (be_nat (take 8 p))"

text \<open>\<open>htoun16\<close>, \<open>htoun32\<close>, \<open>htoun64\<close>: the bytes written.\<close>

definition htoun16 :: "u16 \<Rightarrow> chunk" where
  "htoun16 v = nat_be 2 (unat v)"

definition htoun32 :: "u32 \<Rightarrow> chunk" where
  "htoun32 v = nat_be 4 (unat v)"

definition htoun64 :: "u64 \<Rightarrow> chunk" where
  "htoun64 v = nat_be 8 (unat v)"

text \<open>Byte swapping of integer values on a little endian host.\<close>

definition htons :: "u16 \<Rightarrow> u16" where
  "htons v = of_nat (be_nat (rev (htoun16 v)))"

definition htonl :: "u32 \<Rightarrow> u32" where
  "htonl v = of_nat (be_nat (rev (htoun32 v)))"

abbreviation ntohs :: "u16 \<Rightarrow> u16" where "ntohs \<equiv> htons"
abbreviation ntohl :: "u32 \<Rightarrow> u32" where "ntohl \<equiv> htonl"

text \<open>The bytes of an integer as they lie in the memory of the little endian host.\<close>

definition mem16 :: "u16 \<Rightarrow> chunk" where
  "mem16 v = rev (htoun16 v)"

definition mem32 :: "u32 \<Rightarrow> chunk" where
  "mem32 v = rev (htoun32 v)"

lemma length_nat_be [simp]: "length (nat_be n k) = n"
  by (induction n) auto

lemma length_htoun [simp]:
  "length (htoun16 v) = 2" "length (htoun32 w) = 4" "length (htoun64 x) = 8"
  by (simp_all add: htoun16_def htoun32_def htoun64_def)

lemma be_nat_bound: "be_nat bs < 256 ^ length bs"
proof (induction bs)
  case Nil
  then show ?case by simp
next
  case (Cons b bs)
  have "unat b \<le> 255"
    using unsigned_less [of b, where ?'a = nat] by simp
  then have "unat b * 256 ^ length bs + be_nat bs < 255 * 256 ^ length bs + 256 ^ length bs"
    using Cons.IH by (meson add_le_less_mono mult_le_mono1)
  then show ?case by simp
qed

lemma be_nat_append:
  "be_nat (xs @ ys) = be_nat xs * 256 ^ length ys + be_nat ys"
  by (induction xs) (simp_all add: power_add algebra_simps)

lemma be_nat_nat_be [wire_simps]: "be_nat (nat_be n k) = k mod 256 ^ n"
proof (induction n)
  case 0
  then show ?case by simp
next
  case (Suc n)
  have b: "unat (of_nat (k div 256 ^ n) :: u8) = (k div 256 ^ n) mod 256"
    by (simp add: unat_of_nat)
  have "k mod 256 ^ Suc n = 256 ^ n * (k div 256 ^ n mod 256) + k mod 256 ^ n"
    using mod_mult2_eq [of k "256 ^ n" 256] by (simp add: mult.commute)
  then show ?case
    using Suc.IH b by simp
qed

lemma nat_be_mod: "n \<le> m \<Longrightarrow> nat_be n (k mod 256 ^ m) = nat_be n k"
proof (induction n)
  case 0
  then show ?case by simp
next
  case (Suc n)
  have m: "(256::nat) ^ m = 256 ^ n * 256 ^ (m - n)"
    using Suc.prems by (simp flip: power_add)
  have "k mod 256 ^ m div 256 ^ n = (k div 256 ^ n) mod 256 ^ (m - n)"
    unfolding m by (metis add.right_neutral div_mult_self4 mod_div_trivial mod_mult2_eq
      power_not_zero zero_neq_numeral)
  moreover have "((k div 256 ^ n) mod 256 ^ (m - n)) mod 256 = (k div 256 ^ n) mod 256"
    using Suc.prems by (intro mod_mod_cancel) (simp add: dvd_power)
  ultimately have "(of_nat (k mod 256 ^ m div 256 ^ n) :: u8) = of_nat (k div 256 ^ n)"
    by (intro word_unat_eq_iff [THEN iffD2]) (simp add: unat_of_nat)
  then show ?case
    using Suc by simp
qed

lemma nat_be_be_nat [wire_simps]: "nat_be (length bs) (be_nat bs) = bs"
proof (induction bs)
  case Nil
  then show ?case by simp
next
  case (Cons b bs)
  let ?n = "length bs"
  have lt: "be_nat bs < 256 ^ ?n" by (rule be_nat_bound)
  then have "(unat b * 256 ^ ?n + be_nat bs) div 256 ^ ?n = unat b"
    by simp
  moreover have "nat_be ?n (unat b * 256 ^ ?n + be_nat bs) = bs"
    using nat_be_mod [of ?n ?n "unat b * 256 ^ ?n + be_nat bs"] lt Cons.IH by simp
  ultimately show ?case by simp
qed

lemma be_nat_inject: "length xs = length ys \<Longrightarrow> be_nat xs = be_nat ys \<longleftrightarrow> xs = ys"
  by (metis nat_be_be_nat)

lemma unat_of_nat_be_nat:
  assumes "8 * length bs \<le> LENGTH('a::len)"
  shows "unat (of_nat (be_nat bs) :: 'a word) = be_nat bs"
proof -
  have "be_nat bs < 256 ^ length bs" by (rule be_nat_bound)
  also have "(256::nat) ^ length bs = 2 ^ (8 * length bs)"
    by (simp add: power_mult)
  also have "\<dots> \<le> 2 ^ LENGTH('a)"
    using assms by (intro power_increasing) auto
  finally show ?thesis by (simp add: unat_of_nat)
qed

lemma unat_lt_pow256 [simp]:
  "unat (a :: u8) < 256" "unat (v :: u16) < 65536" "unat (w :: u32) < 4294967296"
  "unat (x :: u64) < 18446744073709551616"
  using unsigned_less [of a, where ?'a = nat] unsigned_less [of v, where ?'a = nat]
    unsigned_less [of w, where ?'a = nat] unsigned_less [of x, where ?'a = nat]
  by simp_all

lemma be_nat_htoun [wire_simps]:
  "be_nat (htoun16 v) = unat v" "be_nat (htoun32 w) = unat w" "be_nat (htoun64 x) = unat x"
  by (simp_all add: htoun16_def htoun32_def htoun64_def be_nat_nat_be)

lemma untoh_htoun [wire_simps, simp]:
  "untoh16 (htoun16 v @ r) = v" "untoh32 (htoun32 w @ r) = w" "untoh64 (htoun64 x @ r) = x"
  by (simp_all add: untoh16_def untoh32_def untoh64_def be_nat_htoun)

lemma untoh_htoun_exact [wire_simps, simp]:
  "untoh16 (htoun16 v) = v" "untoh32 (htoun32 w) = w" "untoh64 (htoun64 x) = x"
  using untoh_htoun [where r = "[]"] by simp_all

lemma htoun_untoh [wire_simps]:
  "length p = 2 \<Longrightarrow> htoun16 (untoh16 p) = p"
  "length p = 4 \<Longrightarrow> htoun32 (untoh32 p) = p"
  "length p = 8 \<Longrightarrow> htoun64 (untoh64 p) = p"
  using nat_be_be_nat [of p]
  by (simp_all add: untoh16_def htoun16_def untoh32_def htoun32_def untoh64_def htoun64_def
      unat_of_nat_be_nat)

lemma htoun_rev:
  "htoun16 (htons v) = rev (htoun16 v)" "htoun32 (htonl w) = rev (htoun32 w)"
proof -
  have "htoun16 (untoh16 (rev (htoun16 v))) = rev (htoun16 v)"
    by (rule htoun_untoh) simp
  then show "htoun16 (htons v) = rev (htoun16 v)"
    by (simp add: htons_def untoh16_def)
  have "htoun32 (untoh32 (rev (htoun32 w))) = rev (htoun32 w)"
    by (rule htoun_untoh) simp
  then show "htoun32 (htonl w) = rev (htoun32 w)"
    by (simp add: htonl_def untoh32_def)
qed

text \<open>Swapping twice is the identity, and a swapped integer lies in memory in network order.\<close>

lemma htons_htons [wire_simps, simp]: "htons (htons v) = v"
  by (metis htoun_rev(1) rev_rev_ident untoh_htoun_exact(1))

lemma htonl_htonl [wire_simps, simp]: "htonl (htonl v) = v"
  by (metis htoun_rev(2) rev_rev_ident untoh_htoun_exact(2))

lemma mem_hton [wire_simps, simp]: "mem16 (htons v) = htoun16 v" "mem32 (htonl w) = htoun32 w"
  by (simp_all add: mem16_def mem32_def htoun_rev)

lemma htonl_eq_iff [simp]: "htonl a = htonl b \<longleftrightarrow> a = b"
  by (metis htonl_htonl)

section \<open>Little endian byte order\<close>

fun le_nat :: "chunk \<Rightarrow> nat" where
  "le_nat [] = 0"
| "le_nat (b # bs) = unat b + 256 * le_nat bs"

fun nat_le :: "nat \<Rightarrow> nat \<Rightarrow> chunk" where
  "nat_le 0 k = []"
| "nat_le (Suc n) k = of_nat k # nat_le n (k div 256)"

definition uletoh32 :: "chunk \<Rightarrow> u32" where
  "uletoh32 p = of_nat (le_nat (take 4 p))"

definition htoule32 :: "u32 \<Rightarrow> chunk" where
  "htoule32 v = nat_le 4 (unat v)"

text \<open>The bytes of a 64-bit integer after \<open>htole64\<close>.\<close>

definition htole64 :: "u64 \<Rightarrow> chunk" where
  "htole64 v = nat_le 8 (unat v)"

lemma length_nat_le [simp]: "length (nat_le n k) = n"
  by (induction n arbitrary: k) auto

lemma length_htole [simp]: "length (htoule32 v) = 4" "length (htole64 w) = 8"
  by (simp_all add: htoule32_def htole64_def)

lemma le_nat_bound: "le_nat bs < 256 ^ length bs"
proof (induction bs)
  case (Cons b bs)
  have "unat b \<le> 255" using unat_lt_pow256(1) [of b] by linarith
  then show ?case using Cons.IH by simp
qed simp

lemma le_nat_append: "le_nat (xs @ ys) = le_nat xs + 256 ^ length xs * le_nat ys"
  by (induction xs) (simp_all add: algebra_simps)

lemma le_nat_nat_le [wire_simps]: "le_nat (nat_le n k) = k mod 256 ^ n"
proof (induction n arbitrary: k)
  case (Suc n)
  have "k mod (256 * 256 ^ n) = 256 * (k div 256 mod 256 ^ n) + k mod 256"
    by (rule mod_mult2_eq)
  then show ?case using Suc.IH by (simp add: unat_of_nat)
qed simp

lemma nat_le_le_nat [wire_simps]: "nat_le (length bs) (le_nat bs) = bs"
proof (induction bs)
  case (Cons b bs)
  have "(unat b + 256 * le_nat bs) div 256 = le_nat bs" by simp
  moreover have "(of_nat (unat b + 256 * le_nat bs) :: u8) = b"
    by (simp only: word_unat_eq_iff unat_of_nat) simp
  ultimately show ?case using Cons.IH by simp
qed simp

lemma nat_le_mod: "nat_le n (k mod 256 ^ n) = nat_le n k"
  using nat_le_le_nat [of "nat_le n k"] by (simp add: le_nat_nat_le)

lemma unat_uletoh32 [wire_simps]: "unat (uletoh32 p) = le_nat (take 4 p)"
proof -
  have "(256::nat) ^ length (take 4 p) \<le> 256 ^ 4" by (intro power_increasing) simp_all
  then have "le_nat (take 4 p) < 2 ^ 32" using le_nat_bound [of "take 4 p"] by simp
  then show ?thesis by (simp add: uletoh32_def unat_of_nat)
qed

lemma le_nat_htoule [wire_simps]: "le_nat (htoule32 v) = unat v" "le_nat (htole64 w) = unat w"
  by (simp_all add: htoule32_def htole64_def le_nat_nat_le)

lemma uletoh_htoule [wire_simps, simp]: "uletoh32 (htoule32 v @ rest) = v"
  by (simp add: uletoh32_def le_nat_htoule)

lemma htoule_uletoh [wire_simps]: "length p = 4 \<Longrightarrow> htoule32 (uletoh32 p) = p"
  using nat_le_le_nat [of p] by (simp add: htoule32_def unat_uletoh32)

text \<open>Bytewise view of a word, for exclusive or.\<close>

lemma nat_le_unat: "nat_le n (unat (w :: 'a::len word)) = map (\<lambda>i. ucast (drop_bit (8 * i) w)) [0..<n]"
proof (induction n arbitrary: w)
  case (Suc n)
  have "unat w div 256 = unat (drop_bit 8 w)"
    by (simp add: unsigned_drop_bit_eq take_bit_nat_eq_self) (simp add: drop_bit_eq_div)
  moreover have "map (\<lambda>i. ucast (drop_bit (8 * i) w) :: u8) [0..<Suc n]
      = ucast w # map (\<lambda>i. ucast (drop_bit (8 * i) (drop_bit 8 w))) [0..<n]"
    by (simp only: upt_conv_Cons [OF zero_less_Suc] list.map map_Suc_upt [symmetric])
      (simp add: comp_def algebra_simps)
  moreover have "(of_nat (unat w) :: u8) = ucast w" by simp
  ultimately show ?case using Suc.IH [of "drop_bit 8 w"] by (simp only: nat_le.simps)
qed simp

lemma htoule32_xor: "htoule32 (a XOR b) = map2 (XOR) (htoule32 a) (htoule32 b)"
  by (rule nth_equalityI)
    (auto simp: htoule32_def nat_le_unat bit_eq_iff bit_unsigned_iff bit_xor_iff bit_drop_bit_eq)

section \<open>C memory primitives\<close>

text \<open>\<open>memcpy(m + off, d, len)\<close>: overwrite a range of a buffer.\<close>

definition memcpy_at :: "'a list \<Rightarrow> nat \<Rightarrow> 'a list \<Rightarrow> 'a list" where
  "memcpy_at m off d = take off m @ d @ drop (off + length d) m"

text \<open>\<open>memcmp(a, b, n)\<close>: the sign of the first difference of unsigned bytes.\<close>

fun memcmp :: "chunk \<Rightarrow> chunk \<Rightarrow> nat \<Rightarrow> int" where
  "memcmp a b 0 = 0"
| "memcmp (x # a) (y # b) (Suc n) =
     (if x < y then - 1 else if y < x then 1 else memcmp a b n)"
| "memcmp a b (Suc n) = 0"

definition memeq :: "chunk \<Rightarrow> chunk \<Rightarrow> nat \<Rightarrow> bool" where
  "memeq a b n \<longleftrightarrow> take n a = take n b"

text \<open>\<open>memxor(dst, src, n)\<close> on the first \<open>n\<close> bytes of \<open>dst\<close>.\<close>

definition memxor :: "chunk \<Rightarrow> chunk \<Rightarrow> nat \<Rightarrow> chunk" where
  "memxor dst src n = map2 (XOR) (take n dst) (take n src) @ drop n dst"

lemma length_memcpy_at [simp, mem_simps]:
  "off + length d \<le> length m \<Longrightarrow> length (memcpy_at m off d) = length m"
  by (simp add: memcpy_at_def)

lemma take_memcpy_at [mem_simps]:
  "off \<le> length m \<Longrightarrow> take (off + length d) (memcpy_at m off d) = take off m @ d"
  by (simp add: memcpy_at_def)

lemma memcmp_compare:
  assumes "length a = n" and "length b = n"
  shows "(memcmp a b n < 0 \<longleftrightarrow> be_nat a < be_nat b) \<and> (memcmp a b n = 0 \<longleftrightarrow> a = b)"
  using assms
proof (induction n arbitrary: a b)
  case 0
  then show ?case by simp
next
  case (Suc n)
  then obtain x a' y b' where ab: "a = x # a'" "b = y # b'" "length a' = n" "length b' = n"
    by (metis length_Suc_conv)
  have ba: "be_nat a' < 256 ^ n" and bb: "be_nat b' < 256 ^ n"
    using be_nat_bound [of a'] be_nat_bound [of b'] ab by simp_all
  have lt: "unat u * 256 ^ n + be_nat p < unat v * 256 ^ n + be_nat q"
    if "u < v" "be_nat p < 256 ^ n" for u v :: u8 and p q
  proof -
    have "Suc (unat u) \<le> unat v" using that(1) by (simp add: word_less_nat_alt)
    then have "Suc (unat u) * 256 ^ n \<le> unat v * 256 ^ n" by (rule mult_le_mono1)
    then show ?thesis using that(2) by simp
  qed
  consider "x < y" | "y < x" | "x = y" by fastforce
  then show ?case
  proof cases
    case 1
    then show ?thesis using ab lt [OF 1 ba, of b'] by auto
  next
    case 2
    then show ?thesis using ab lt [OF 2 bb, of a'] by auto
  next
    case 3
    then show ?thesis using ab Suc.IH [of a' b'] by simp
  qed
qed

lemma memcmp_signs:
  assumes "length a = n" and "length b = n"
  shows "memcmp a b n < 0 \<longleftrightarrow> be_nat a < be_nat b"
    and "memcmp a b n > 0 \<longleftrightarrow> be_nat a > be_nat b"
    and "memcmp a b n = 0 \<longleftrightarrow> a = b"
    and "memcmp a b n \<le> 0 \<longleftrightarrow> be_nat a \<le> be_nat b"
    and "memcmp a b n \<ge> 0 \<longleftrightarrow> be_nat a \<ge> be_nat b"
proof -
  note c = memcmp_compare [OF assms]
  show "memcmp a b n < 0 \<longleftrightarrow> be_nat a < be_nat b" and "memcmp a b n = 0 \<longleftrightarrow> a = b"
    using c by blast+
  moreover have "be_nat a = be_nat b \<longleftrightarrow> a = b"
    using assms by (simp add: be_nat_inject)
  ultimately show "memcmp a b n > 0 \<longleftrightarrow> be_nat a > be_nat b"
    and "memcmp a b n \<le> 0 \<longleftrightarrow> be_nat a \<le> be_nat b"
    and "memcmp a b n \<ge> 0 \<longleftrightarrow> be_nat a \<ge> be_nat b"
    by linarith+
qed

lemma length_memxor [simp, mem_simps]: "n \<le> length src \<Longrightarrow> length (memxor dst src n) = length dst"
  by (simp add: memxor_def)

lemma memxor_twice [mem_simps]:
  assumes "n \<le> length dst" and "n \<le> length src"
  shows "memxor (memxor dst src n) src n = dst"
proof -
  have "map2 (XOR) (map2 (XOR) xs ys) ys = xs" if "length xs = length ys" for xs ys :: chunk
    using that by (induction xs ys rule: list_induct2) (simp_all add: xor.assoc)
  then have "map2 (XOR) (map2 (XOR) (take n dst) (take n src)) (take n src) = take n dst"
    using assms by simp
  then show ?thesis
    using assms by (simp add: memxor_def)
qed

text \<open>\<open>pad_len\<close> of \<open>utils/align.h\<close>: bytes missing to the next multiple of the alignment.\<close>

definition pad_len :: "nat \<Rightarrow> nat \<Rightarrow> nat" where
  "pad_len sz alignment =
     (let remainder = sz mod alignment in if remainder \<noteq> 0 then alignment - remainder else 0)"

lemma pad_len_dvd: "0 < alignment \<Longrightarrow> alignment dvd sz + pad_len sz alignment"
proof -
  assume a: "0 < alignment"
  show ?thesis
  proof (cases "sz mod alignment = 0")
    case True
    then show ?thesis by (simp add: pad_len_def mod_0_imp_dvd)
  next
    case False
    have r: "sz mod alignment < alignment" using a by simp
    have "sz + (alignment - sz mod alignment) = alignment * (sz div alignment) + alignment"
      using r mult_div_mod_eq [of alignment sz] by linarith
    then show ?thesis using False by (simp add: pad_len_def)
  qed
qed

lemma pad_len_less: "0 < alignment \<Longrightarrow> pad_len sz alignment < alignment"
  by (simp add: pad_len_def Let_def)

end
