(* ===== verification/Bio.thy ===== *)
theory Bio
  imports Prelude
begin

text \<open>
  The binary I/O component, \<open>libstrongswan/bio\<close>: \<open>bio_reader_t\<close> consumes a buffer
  from the front or from the end, \<open>bio_writer_t\<close> appends to a buffer it grows. Every
  method is one definition. A reader method returns the value read, if any, and the
  reader afterwards (a failed length-prefixed read has already consumed the prefix).
  The writer's abstract value is the byte string \<open>get_buf\<close>; the lemmas show that each
  method appends to it whatever the allocation state, and the locale
  \<open>field_codec\<close> lifts single fields to whole records.
\<close>

section \<open>The reader\<close>

record bio_reader =
  r_buf :: chunk
  r_cleanup :: chunk

definition bio_reader_create :: "chunk \<Rightarrow> bio_reader" where
  "bio_reader_create data = \<lparr>r_buf = data, r_cleanup = chunk_empty\<rparr>"

definition bio_reader_create_own :: "chunk \<Rightarrow> bio_reader" where
  "bio_reader_create_own data = (bio_reader_create data)\<lparr>r_cleanup := data\<rparr>"

definition remaining :: "bio_reader \<Rightarrow> u32" where
  "remaining this = of_nat (length (r_buf this))"

definition peek :: "bio_reader \<Rightarrow> chunk" where
  "peek this = r_buf this"

definition chunk_skip_end :: "chunk \<Rightarrow> nat \<Rightarrow> bool \<Rightarrow> chunk" where
  "chunk_skip_end c bytes from_end =
     (if length c > bytes
      then if \<not> from_end then drop bytes c else take (length c - bytes) c
      else chunk_empty)"

text \<open>The bytes from the returned pointer to the end of the buffer.\<close>

definition get_ptr_end :: "bio_reader \<Rightarrow> nat \<Rightarrow> bool \<Rightarrow> chunk" where
  "get_ptr_end this len from_end =
     (if from_end then drop (length (r_buf this) - len) (r_buf this) else r_buf this)"

definition read_uint8_internal :: "bio_reader \<Rightarrow> bool \<Rightarrow> u8 option \<times> bio_reader" where
  "read_uint8_internal this from_end =
     (if length (r_buf this) < 1 then (None, this)
      else (Some (hd (get_ptr_end this 1 from_end)),
            this\<lparr>r_buf := chunk_skip_end (r_buf this) 1 from_end\<rparr>))"

definition read_uint16_internal :: "bio_reader \<Rightarrow> bool \<Rightarrow> u16 option \<times> bio_reader" where
  "read_uint16_internal this from_end =
     (if length (r_buf this) < 2 then (None, this)
      else (Some (untoh16 (get_ptr_end this 2 from_end)),
            this\<lparr>r_buf := chunk_skip_end (r_buf this) 2 from_end\<rparr>))"

text \<open>
  \<open>read_uint24_internal\<close> loads four bytes and shifts the last one out. When the reader
  holds exactly three bytes, and always when it reads from the end, the fourth byte lies
  behind the buffer: it is the parameter \<open>beyond\<close>.
\<close>

definition read_uint24_internal :: "u8 \<Rightarrow> bio_reader \<Rightarrow> bool \<Rightarrow> u32 option \<times> bio_reader" where
  "read_uint24_internal beyond this from_end =
     (if length (r_buf this) < 3 then (None, this)
      else (Some (drop_bit 8 (untoh32 (get_ptr_end this 3 from_end @ [beyond]))),
            this\<lparr>r_buf := chunk_skip_end (r_buf this) 3 from_end\<rparr>))"

definition read_uint32_internal :: "bio_reader \<Rightarrow> bool \<Rightarrow> u32 option \<times> bio_reader" where
  "read_uint32_internal this from_end =
     (if length (r_buf this) < 4 then (None, this)
      else (Some (untoh32 (get_ptr_end this 4 from_end)),
            this\<lparr>r_buf := chunk_skip_end (r_buf this) 4 from_end\<rparr>))"

definition read_uint64_internal :: "bio_reader \<Rightarrow> bool \<Rightarrow> u64 option \<times> bio_reader" where
  "read_uint64_internal this from_end =
     (if length (r_buf this) < 8 then (None, this)
      else (Some (untoh64 (get_ptr_end this 8 from_end)),
            this\<lparr>r_buf := chunk_skip_end (r_buf this) 8 from_end\<rparr>))"

definition read_data_internal :: "bio_reader \<Rightarrow> u32 \<Rightarrow> bool \<Rightarrow> chunk option \<times> bio_reader" where
  "read_data_internal this len from_end =
     (if length (r_buf this) < unat len then (None, this)
      else (Some (take (unat len) (get_ptr_end this (unat len) from_end)),
            this\<lparr>r_buf := chunk_skip_end (r_buf this) (unat len) from_end\<rparr>))"

definition read_uint8 where "read_uint8 this = read_uint8_internal this False"
definition read_uint16 where "read_uint16 this = read_uint16_internal this False"
definition read_uint24 where "read_uint24 beyond this = read_uint24_internal beyond this False"
definition read_uint32 where "read_uint32 this = read_uint32_internal this False"
definition read_uint64 where "read_uint64 this = read_uint64_internal this False"
definition read_data where "read_data this len = read_data_internal this len False"
definition read_uint8_end where "read_uint8_end this = read_uint8_internal this True"
definition read_uint16_end where "read_uint16_end this = read_uint16_internal this True"
definition read_uint24_end where "read_uint24_end beyond this = read_uint24_internal beyond this True"
definition read_uint32_end where "read_uint32_end this = read_uint32_internal this True"
definition read_uint64_end where "read_uint64_end this = read_uint64_internal this True"
definition read_data_end where "read_data_end this len = read_data_internal this len True"

definition read_data8 :: "bio_reader \<Rightarrow> chunk option \<times> bio_reader" where
  "read_data8 this =
     (case read_uint8 this of
        (None, this) \<Rightarrow> (None, this)
      | (Some len, this) \<Rightarrow> read_data this (ucast len))"

definition read_data16 :: "bio_reader \<Rightarrow> chunk option \<times> bio_reader" where
  "read_data16 this =
     (case read_uint16 this of
        (None, this) \<Rightarrow> (None, this)
      | (Some len, this) \<Rightarrow> read_data this (ucast len))"

definition read_data24 :: "u8 \<Rightarrow> bio_reader \<Rightarrow> chunk option \<times> bio_reader" where
  "read_data24 beyond this =
     (case read_uint24 beyond this of
        (None, this) \<Rightarrow> (None, this)
      | (Some len, this) \<Rightarrow> read_data this len)"

definition read_data32 :: "bio_reader \<Rightarrow> chunk option \<times> bio_reader" where
  "read_data32 this =
     (case read_uint32 this of
        (None, this) \<Rightarrow> (None, this)
      | (Some len, this) \<Rightarrow> read_data this len)"

section \<open>The writer\<close>

text \<open>
  \<open>w_buf\<close> is the whole allocation, \<open>w_used\<close> the bytes in use. Memory that
  \<open>realloc\<close> adds holds arbitrary bytes: \<open>w_uninit\<close> gives them by position.
\<close>

record bio_writer =
  w_buf :: chunk
  w_used :: nat
  w_increase :: nat
  w_uninit :: "nat \<Rightarrow> u8"

text \<open>
  The growth loop of \<open>increase\<close>. The constructor makes the step at least 4
  (\<open>wf_bio_writer\<close>), so the test for a positive step, which the termination argument
  needs, never fails.
\<close>

function increase_len :: "nat \<Rightarrow> nat \<Rightarrow> nat \<Rightarrow> nat" where
  "increase_len needed len step =
     (if needed > len \<and> step > 0 then increase_len needed (len + step) step else len)"
  by pat_completeness auto
termination
  by (relation "measure (\<lambda>(needed, len, step). needed - len)") auto

declare increase_len.simps [simp del]

definition increase :: "bio_writer \<Rightarrow> nat \<Rightarrow> bio_writer" where
  "increase this required =
     (let len = length (w_buf this);
          len' = increase_len (w_used this + required) len (w_increase this)
      in this\<lparr>w_buf := w_buf this @ map (w_uninit this) [len..<len']\<rparr>)"

definition write_uint8 :: "bio_writer \<Rightarrow> u8 \<Rightarrow> bio_writer" where
  "write_uint8 this v =
     (let this = increase this 1
      in this\<lparr>w_buf := memcpy_at (w_buf this) (w_used this) [v], w_used := w_used this + 1\<rparr>)"

definition write_uint16 :: "bio_writer \<Rightarrow> u16 \<Rightarrow> bio_writer" where
  "write_uint16 this v =
     (let this = increase this 2
      in this\<lparr>w_buf := memcpy_at (w_buf this) (w_used this) (htoun16 v),
              w_used := w_used this + 2\<rparr>)"

definition write_uint24 :: "bio_writer \<Rightarrow> u32 \<Rightarrow> bio_writer" where
  "write_uint24 this v =
     (let this = increase this 3
      in this\<lparr>w_buf := memcpy_at (w_buf this) (w_used this) (take 3 (drop 1 (mem32 (htonl v)))),
              w_used := w_used this + 3\<rparr>)"

definition write_uint32 :: "bio_writer \<Rightarrow> u32 \<Rightarrow> bio_writer" where
  "write_uint32 this v =
     (let this = increase this 4
      in this\<lparr>w_buf := memcpy_at (w_buf this) (w_used this) (htoun32 v),
              w_used := w_used this + 4\<rparr>)"

definition write_uint64 :: "bio_writer \<Rightarrow> u64 \<Rightarrow> bio_writer" where
  "write_uint64 this v =
     (let this = increase this 8
      in this\<lparr>w_buf := memcpy_at (w_buf this) (w_used this) (htoun64 v),
              w_used := w_used this + 8\<rparr>)"

definition write_data :: "bio_writer \<Rightarrow> chunk \<Rightarrow> bio_writer" where
  "write_data this v =
     (let this = increase this (length v)
      in this\<lparr>w_buf := memcpy_at (w_buf this) (w_used this) v,
              w_used := w_used this + length v\<rparr>)"

definition write_data8 :: "bio_writer \<Rightarrow> chunk \<Rightarrow> bio_writer" where
  "write_data8 this v =
     (let this = increase this (1 + length v);
          this = write_uint8 this (of_nat (length v))
      in write_data this v)"

definition write_data16 :: "bio_writer \<Rightarrow> chunk \<Rightarrow> bio_writer" where
  "write_data16 this v =
     (let this = increase this (2 + length v);
          this = write_uint16 this (of_nat (length v))
      in write_data this v)"

definition write_data24 :: "bio_writer \<Rightarrow> chunk \<Rightarrow> bio_writer" where
  "write_data24 this v =
     (let this = increase this (3 + length v);
          this = write_uint24 this (of_nat (length v))
      in write_data this v)"

definition write_data32 :: "bio_writer \<Rightarrow> chunk \<Rightarrow> bio_writer" where
  "write_data32 this v =
     (let this = increase this (4 + length v);
          this = write_uint32 this (of_nat (length v))
      in write_data this v)"

text \<open>
  \<open>wrap8\<close> to \<open>wrap32\<close> move the content up (\<open>memmove\<close>) and put its length in
  front of it.
\<close>

definition wrap8 :: "bio_writer \<Rightarrow> bio_writer" where
  "wrap8 this =
     (let this = increase this 1;
          buf = memcpy_at (w_buf this) 1 (take (w_used this) (w_buf this))
      in this\<lparr>w_buf := memcpy_at buf 0 [of_nat (w_used this)], w_used := w_used this + 1\<rparr>)"

definition wrap16 :: "bio_writer \<Rightarrow> bio_writer" where
  "wrap16 this =
     (let this = increase this 2;
          buf = memcpy_at (w_buf this) 2 (take (w_used this) (w_buf this))
      in this\<lparr>w_buf := memcpy_at buf 0 (htoun16 (of_nat (w_used this))),
              w_used := w_used this + 2\<rparr>)"

definition wrap24 :: "bio_writer \<Rightarrow> bio_writer" where
  "wrap24 this =
     (let this = increase this 3;
          buf = memcpy_at (w_buf this) 3 (take (w_used this) (w_buf this));
          len = htonl (of_nat (w_used this))
      in this\<lparr>w_buf := memcpy_at buf 0 (take 3 (drop 1 (mem32 len))),
              w_used := w_used this + 3\<rparr>)"

definition wrap32 :: "bio_writer \<Rightarrow> bio_writer" where
  "wrap32 this =
     (let this = increase this 4;
          buf = memcpy_at (w_buf this) 4 (take (w_used this) (w_buf this))
      in this\<lparr>w_buf := memcpy_at buf 0 (htoun32 (of_nat (w_used this))),
              w_used := w_used this + 4\<rparr>)"

text \<open>\<open>skip\<close> returns the skipped region, which the caller fills in; here its position.\<close>

definition skip :: "bio_writer \<Rightarrow> nat \<Rightarrow> (nat \<times> nat) \<times> bio_writer" where
  "skip this len =
     (let this = increase this len
      in ((w_used this, len), this\<lparr>w_used := w_used this + len\<rparr>))"

definition get_buf :: "bio_writer \<Rightarrow> chunk" where
  "get_buf this = take (w_used this) (w_buf this)"

definition extract_buf :: "bio_writer \<Rightarrow> chunk \<times> bio_writer" where
  "extract_buf this = (get_buf this, this\<lparr>w_buf := chunk_empty, w_used := 0\<rparr>)"

definition bio_writer_create :: "(nat \<Rightarrow> u8) \<Rightarrow> u32 \<Rightarrow> bio_writer" where
  "bio_writer_create uninit bufsize =
     \<lparr>w_buf = (if bufsize \<noteq> 0 then map uninit [0..<unat bufsize] else chunk_empty),
      w_used = 0,
      w_increase = (if bufsize \<noteq> 0 then max (unat bufsize) 4 else 32),
      w_uninit = uninit\<rparr>"

section \<open>Writing appends\<close>

definition wf_bio_writer :: "bio_writer \<Rightarrow> bool" where
  "wf_bio_writer this \<longleftrightarrow> w_used this \<le> length (w_buf this) \<and> 4 \<le> w_increase this"

named_theorems writer_simps \<open>effect of writer methods on the written bytes\<close>

lemma increase_len_ge: "0 < step \<Longrightarrow> needed \<le> increase_len needed len step"
proof (induction needed len step rule: increase_len.induct)
  case (1 needed len step)
  then show ?case
    by (cases "needed > len") (simp_all add: increase_len.simps [of needed len step])
qed

lemma increase_spec:
  assumes "wf_bio_writer this"
  shows "wf_bio_writer (increase this n)" and "get_buf (increase this n) = get_buf this"
    and "w_used (increase this n) + n \<le> length (w_buf (increase this n))"
    and "w_used (increase this n) = w_used this"
proof -
  let ?needed = "w_used this + n"
  have "?needed \<le> increase_len ?needed (length (w_buf this)) (w_increase this)"
    using assms by (intro increase_len_ge) (simp add: wf_bio_writer_def)
  then show "w_used (increase this n) + n \<le> length (w_buf (increase this n))"
    by (simp add: increase_def Let_def)
  show "wf_bio_writer (increase this n)" "get_buf (increase this n) = get_buf this"
    "w_used (increase this n) = w_used this"
    using assms by (simp_all add: wf_bio_writer_def get_buf_def increase_def Let_def)
qed

text \<open>All fixed-size writes are one operation: grow, copy, advance.\<close>

definition put_bytes :: "bio_writer \<Rightarrow> chunk \<Rightarrow> bio_writer" where
  "put_bytes this d =
     (let this = increase this (length d)
      in this\<lparr>w_buf := memcpy_at (w_buf this) (w_used this) d, w_used := w_used this + length d\<rparr>)"

lemma put_bytes_spec [writer_simps]:
  assumes "wf_bio_writer this"
  shows "wf_bio_writer (put_bytes this d)" and "get_buf (put_bytes this d) = get_buf this @ d"
proof -
  note i = increase_spec [OF assms, of "length d"]
  show "wf_bio_writer (put_bytes this d)"
    using i by (simp add: put_bytes_def wf_bio_writer_def Let_def)
  show "get_buf (put_bytes this d) = get_buf this @ d"
    using i take_memcpy_at [of "w_used (increase this (length d))" _ d]
    by (simp add: put_bytes_def get_buf_def Let_def)
qed

lemma write_uint_put_bytes:
  "write_uint8 this a = put_bytes this [a]"
  "write_uint16 this b = put_bytes this (htoun16 b)"
  "write_uint24 this c = put_bytes this (drop 1 (htoun32 c))"
  "write_uint32 this c = put_bytes this (htoun32 c)"
  "write_uint64 this e = put_bytes this (htoun64 e)"
  "write_data this d = put_bytes this d"
  by (simp_all add: put_bytes_def write_uint8_def write_uint16_def write_uint24_def
      write_uint32_def write_uint64_def write_data_def)

lemma write_spec [writer_simps]:
  assumes "wf_bio_writer this"
  shows "get_buf (write_uint8 this a) = get_buf this @ [a]"
    and "get_buf (write_uint16 this b) = get_buf this @ htoun16 b"
    and "get_buf (write_uint24 this c) = get_buf this @ drop 1 (htoun32 c)"
    and "get_buf (write_uint32 this c) = get_buf this @ htoun32 c"
    and "get_buf (write_uint64 this e) = get_buf this @ htoun64 e"
    and "get_buf (write_data this d) = get_buf this @ d"
  using assms by (simp_all add: write_uint_put_bytes put_bytes_spec)

lemma write_wf [writer_simps]:
  assumes "wf_bio_writer this"
  shows "wf_bio_writer (write_uint8 this a)" "wf_bio_writer (write_uint16 this b)"
    "wf_bio_writer (write_uint24 this c)" "wf_bio_writer (write_uint32 this c)"
    "wf_bio_writer (write_uint64 this e)" "wf_bio_writer (write_data this d)"
  using assms by (simp_all add: write_uint_put_bytes put_bytes_spec)

lemma write_data_spec [writer_simps]:
  assumes "wf_bio_writer this"
  shows "get_buf (write_data8 this d) = get_buf this @ [of_nat (length d)] @ d"
    and "get_buf (write_data16 this d) = get_buf this @ htoun16 (of_nat (length d)) @ d"
    and "get_buf (write_data24 this d) = get_buf this @ drop 1 (htoun32 (of_nat (length d))) @ d"
    and "get_buf (write_data32 this d) = get_buf this @ htoun32 (of_nat (length d)) @ d"
    and "wf_bio_writer (write_data8 this d)" "wf_bio_writer (write_data16 this d)"
    and "wf_bio_writer (write_data24 this d)" "wf_bio_writer (write_data32 this d)"
  using assms
  by (simp_all add: write_data8_def write_data16_def write_data24_def write_data32_def Let_def
      increase_spec write_spec write_wf)

text \<open>All wraps are one operation too: shift the content up and put a prefix in front.\<close>

lemma wrap_memory:
  assumes "wf_bio_writer this" and "length p = n"
  shows "take (w_used this + n)
      (memcpy_at (memcpy_at (w_buf (increase this n)) n (take (w_used this) (w_buf (increase this n)))) 0 p)
    = p @ get_buf this" (is "take _ ?m = _")
proof -
  note i = increase_spec [OF assms(1), of n]
  let ?b = "w_buf (increase this n)"
  have g: "get_buf this = take (w_used this) ?b"
    using i(2,4) by (simp add: get_buf_def)
  have len: "w_used this + n \<le> length ?b" using i(3,4) by simp
  have "?m = p @ take (w_used this) ?b @ drop (n + w_used this) ?b"
    using len assms(2) by (simp add: memcpy_at_def)
  then show ?thesis
    using len assms(2) g by (simp add: min_def add.commute)
qed

lemma wrap_spec [writer_simps]:
  assumes "wf_bio_writer this"
  shows "get_buf (wrap8 this) = of_nat (w_used this) # get_buf this"
    and "get_buf (wrap16 this) = htoun16 (of_nat (w_used this)) @ get_buf this"
    and "get_buf (wrap24 this) = drop 1 (htoun32 (of_nat (w_used this))) @ get_buf this"
    and "get_buf (wrap32 this) = htoun32 (of_nat (w_used this)) @ get_buf this"
proof -
  note u = increase_spec(4) [OF assms]
  note w = wrap_memory [OF assms]
  show "get_buf (wrap8 this) = of_nat (w_used this) # get_buf this"
    using w [of "[of_nat (w_used this)]" 1] u [of 1] by (simp add: get_buf_def wrap8_def Let_def)
  show "get_buf (wrap16 this) = htoun16 (of_nat (w_used this)) @ get_buf this"
    using w [of "htoun16 (of_nat (w_used this))" 2] u [of 2]
    by (simp add: get_buf_def wrap16_def Let_def)
  show "get_buf (wrap24 this) = drop 1 (htoun32 (of_nat (w_used this))) @ get_buf this"
    using w [of "drop 1 (htoun32 (of_nat (w_used this)))" 3] u [of 3]
    by (simp add: get_buf_def wrap24_def Let_def)
  show "get_buf (wrap32 this) = htoun32 (of_nat (w_used this)) @ get_buf this"
    using w [of "htoun32 (of_nat (w_used this))" 4] u [of 4]
    by (simp add: get_buf_def wrap32_def Let_def)
qed

lemma bio_writer_create_spec [simp]:
  "wf_bio_writer (bio_writer_create u n)" "get_buf (bio_writer_create u n) = []"
  by (auto simp: wf_bio_writer_def get_buf_def bio_writer_create_def)

section \<open>Reading what was written\<close>

lemma read_uint24_value:
  assumes "length p = 3"
  shows "drop_bit 8 (untoh32 (p @ b # r)) = (of_nat (be_nat p) :: u32)"
proof -
  have lt: "be_nat p < 256 ^ 3" using be_nat_bound [of p] assms by simp
  have b4: "be_nat (p @ [b]) = be_nat p * 256 + unat b" by (simp add: be_nat_append)
  have u: "unat (untoh32 (p @ b # r)) = be_nat (p @ [b])"
    unfolding untoh32_def using assms unat_of_nat_be_nat [where 'a = 32, of "p @ [b]"] by simp
  have "unat (drop_bit 8 (untoh32 (p @ b # r))) = be_nat (p @ [b]) div 256"
    using u by (simp add: drop_bit_eq_div unat_div_distrib)
  also have "\<dots> = be_nat p"
    using unat_lt_pow256(1) [of b] by (simp add: b4)
  finally show ?thesis
    using lt by (intro word_unat_eq_iff [THEN iffD2]) (simp add: unat_of_nat)
qed

text \<open>The byte behind the buffer never shows in the value read.\<close>

lemma read_uint24_beyond:
  "read_uint24_internal beyond this from_end = read_uint24_internal beyond' this from_end"
proof (cases "length (r_buf this) < 3")
  case True
  then show ?thesis by (simp add: read_uint24_internal_def)
next
  case False
  let ?p = "get_ptr_end this 3 from_end"
  have l: "length (take 3 ?p) = 3"
    using False by (simp add: get_ptr_end_def)
  have "drop_bit 8 (untoh32 (?p @ [b])) = (of_nat (be_nat (take 3 ?p)) :: u32)" for b
  proof -
    obtain c r where "drop 3 ?p @ [b] = c # r" by (cases "drop 3 ?p") auto
    then have "?p @ [b] = take 3 ?p @ c # r"
      by (metis append_assoc append_take_drop_id)
    then show ?thesis using read_uint24_value [OF l] by simp
  qed
  then show ?thesis using False by (simp add: read_uint24_internal_def)
qed

datatype field = F8 u8 | F16 u16 | F24 u32 | F32 u32 | F64 u64 | FData chunk
  | FData8 chunk | FData16 chunk | FData24 chunk | FData32 chunk

datatype field_kind = K8 | K16 | K24 | K32 | K64 | KData u32 | KData8 | KData16 | KData24 | KData32

fun kind_of :: "field \<Rightarrow> field_kind" where
  "kind_of (F8 _) = K8" | "kind_of (F16 _) = K16" | "kind_of (F24 _) = K24"
| "kind_of (F32 _) = K32" | "kind_of (F64 _) = K64"
| "kind_of (FData d) = KData (of_nat (length d))"
| "kind_of (FData8 _) = KData8" | "kind_of (FData16 _) = KData16"
| "kind_of (FData24 _) = KData24" | "kind_of (FData32 _) = KData32"

text \<open>A value fits when its length or magnitude is representable in the field.\<close>

fun field_fits :: "field \<Rightarrow> bool" where
  "field_fits (F24 v) = (unat v < 2 ^ 24)"
| "field_fits (FData d) = (length d < 2 ^ 32)"
| "field_fits (FData8 d) = (length d < 2 ^ 8)"
| "field_fits (FData16 d) = (length d < 2 ^ 16)"
| "field_fits (FData24 d) = (length d < 2 ^ 24)"
| "field_fits (FData32 d) = (length d < 2 ^ 32)"
| "field_fits _ = True"

fun write_field :: "field \<Rightarrow> bio_writer \<Rightarrow> bio_writer" where
  "write_field (F8 v) w = write_uint8 w v" | "write_field (F16 v) w = write_uint16 w v"
| "write_field (F24 v) w = write_uint24 w v" | "write_field (F32 v) w = write_uint32 w v"
| "write_field (F64 v) w = write_uint64 w v" | "write_field (FData d) w = write_data w d"
| "write_field (FData8 d) w = write_data8 w d" | "write_field (FData16 d) w = write_data16 w d"
| "write_field (FData24 d) w = write_data24 w d" | "write_field (FData32 d) w = write_data32 w d"

fun read_field :: "u8 \<Rightarrow> field_kind \<Rightarrow> bio_reader \<Rightarrow> field option \<times> bio_reader" where
  "read_field b K8 r = apfst (map_option F8) (read_uint8 r)"
| "read_field b K16 r = apfst (map_option F16) (read_uint16 r)"
| "read_field b K24 r = apfst (map_option F24) (read_uint24 b r)"
| "read_field b K32 r = apfst (map_option F32) (read_uint32 r)"
| "read_field b K64 r = apfst (map_option F64) (read_uint64 r)"
| "read_field b (KData n) r = apfst (map_option FData) (read_data r n)"
| "read_field b KData8 r = apfst (map_option FData8) (read_data8 r)"
| "read_field b KData16 r = apfst (map_option FData16) (read_data16 r)"
| "read_field b KData24 r = apfst (map_option FData24) (read_data24 b r)"
| "read_field b KData32 r = apfst (map_option FData32) (read_data32 r)"

text \<open>The bytes of a field on the wire.\<close>

fun field_bytes :: "field \<Rightarrow> chunk" where
  "field_bytes (F8 v) = [v]" | "field_bytes (F16 v) = htoun16 v"
| "field_bytes (F24 v) = drop 1 (htoun32 v)" | "field_bytes (F32 v) = htoun32 v"
| "field_bytes (F64 v) = htoun64 v" | "field_bytes (FData d) = d"
| "field_bytes (FData8 d) = of_nat (length d) # d"
| "field_bytes (FData16 d) = htoun16 (of_nat (length d)) @ d"
| "field_bytes (FData24 d) = drop 1 (htoun32 (of_nat (length d))) @ d"
| "field_bytes (FData32 d) = htoun32 (of_nat (length d)) @ d"

lemma write_field_spec:
  assumes "wf_bio_writer w"
  shows "get_buf (write_field f w) = get_buf w @ field_bytes f" and "wf_bio_writer (write_field f w)"
  using assms by (cases f; simp add: write_spec write_wf write_data_spec)+

text \<open>Taking a prefix off the front of a reader.\<close>

lemma chunk_skip_end_front [simp]: "length p = n \<Longrightarrow> chunk_skip_end (p @ r) n False = r"
  by (auto simp: chunk_skip_end_def)

lemma be_nat_drop1_htoun32: "unat v < 2 ^ 24 \<Longrightarrow> be_nat (drop 1 (htoun32 v)) = unat v"
  using nat_be.simps(2) [of 3 "unat v"] by (simp add: htoun32_def be_nat_nat_be)

lemma read_uint_front:
  "r_buf r = a # rest \<Longrightarrow> read_uint8 r = (Some a, r\<lparr>r_buf := rest\<rparr>)"
  "r_buf r = htoun16 b @ rest \<Longrightarrow> read_uint16 r = (Some b, r\<lparr>r_buf := rest\<rparr>)"
  "r_buf r = drop 1 (htoun32 c) @ rest \<Longrightarrow> unat c < 2 ^ 24 \<Longrightarrow>
     read_uint24 beyond r = (Some c, r\<lparr>r_buf := rest\<rparr>)"
  "r_buf r = htoun32 c @ rest \<Longrightarrow> read_uint32 r = (Some c, r\<lparr>r_buf := rest\<rparr>)"
  "r_buf r = htoun64 e @ rest \<Longrightarrow> read_uint64 r = (Some e, r\<lparr>r_buf := rest\<rparr>)"
  "r_buf r = d @ rest \<Longrightarrow> unat n = length d \<Longrightarrow> read_data r n = (Some d, r\<lparr>r_buf := rest\<rparr>)"
proof -
  show "r_buf r = a # rest \<Longrightarrow> read_uint8 r = (Some a, r\<lparr>r_buf := rest\<rparr>)"
    using chunk_skip_end_front [of "[a]" 1 rest]
    by (simp add: read_uint8_def read_uint8_internal_def get_ptr_end_def)
  assume b: "r_buf r = drop 1 (htoun32 c) @ rest" and c: "unat c < 2 ^ 24"
  let ?p = "drop 1 (htoun32 c)"
  obtain b' r' where "rest @ [beyond] = b' # r'" by (cases rest) auto
  then have "drop_bit 8 (untoh32 (?p @ rest @ [beyond])) = (of_nat (be_nat ?p) :: u32)"
    using read_uint24_value [of ?p b' r'] by simp
  then have "drop_bit 8 (untoh32 (?p @ rest @ [beyond])) = c"
    using c be_nat_drop1_htoun32 [of c] by simp
  then show "read_uint24 beyond r = (Some c, r\<lparr>r_buf := rest\<rparr>)"
    using b by (simp add: read_uint24_def read_uint24_internal_def get_ptr_end_def)
qed (simp_all add: read_uint16_def read_uint16_internal_def read_uint32_def read_uint32_internal_def
    read_uint64_def read_uint64_internal_def read_data_def read_data_internal_def get_ptr_end_def)

lemma unat_prefix:
  "n < 2 ^ 8 \<Longrightarrow> unat (ucast (of_nat n :: u8) :: u32) = n"
  "n < 2 ^ 16 \<Longrightarrow> unat (ucast (of_nat n :: u16) :: u32) = n"
  "n < 2 ^ 32 \<Longrightarrow> unat (of_nat n :: u32) = n"
  by (simp_all add: unsigned_ucast_eq unsigned_of_nat take_bit_nat_eq_self)

lemma read_prefix_front:
  "r_buf r = of_nat (length d) # d @ rest \<Longrightarrow> length d < 2 ^ 8 \<Longrightarrow>
     read_data8 r = (Some d, r\<lparr>r_buf := rest\<rparr>)"
  "r_buf r = htoun16 (of_nat (length d)) @ d @ rest \<Longrightarrow> length d < 2 ^ 16 \<Longrightarrow>
     read_data16 r = (Some d, r\<lparr>r_buf := rest\<rparr>)"
  "r_buf r = drop 1 (htoun32 (of_nat (length d))) @ d @ rest \<Longrightarrow> length d < 2 ^ 24 \<Longrightarrow>
     read_data24 beyond r = (Some d, r\<lparr>r_buf := rest\<rparr>)"
  "r_buf r = htoun32 (of_nat (length d)) @ d @ rest \<Longrightarrow> length d < 2 ^ 32 \<Longrightarrow>
     read_data32 r = (Some d, r\<lparr>r_buf := rest\<rparr>)"
proof -
  assume "r_buf r = drop 1 (htoun32 (of_nat (length d))) @ d @ rest" and l: "length d < 2 ^ 24"
  then have "read_uint24 beyond r = (Some (of_nat (length d)), r\<lparr>r_buf := d @ rest\<rparr>)"
    by (intro read_uint_front) (simp_all add: unat_prefix)
  then show "read_data24 beyond r = (Some d, r\<lparr>r_buf := rest\<rparr>)"
    using l by (simp add: read_data24_def read_uint_front unat_prefix)
qed (simp_all add: read_data8_def read_data16_def read_data32_def read_uint_front unat_prefix)

lemma read_field_front:
  assumes "field_fits f" and "r_buf r = field_bytes f @ rest"
  shows "read_field b (kind_of f) r = (Some f, r\<lparr>r_buf := rest\<rparr>)"
  using assms
  by (cases f) (simp_all add: read_uint_front read_uint_front(3) [simplified] read_prefix_front
      read_prefix_front(3) [simplified] unat_prefix)

section \<open>Records of fields\<close>

text \<open>Reading a sequence of fields, stopping at the first one that fails.\<close>

fun read_seq :: "('k \<Rightarrow> 'r \<Rightarrow> 'f option \<times> 'r) \<Rightarrow> 'k list \<Rightarrow> 'r \<Rightarrow> 'f list option \<times> 'r" where
  "read_seq get [] r = (Some [], r)"
| "read_seq get (k # ks) r =
     (case get k r of
        (None, r) \<Rightarrow> (None, r)
      | (Some f, r) \<Rightarrow> apfst (map_option ((#) f)) (read_seq get ks r))"

text \<open>
  The contract between an encoder and a decoder: writing appends an encoding of the field,
  reading a field of that kind from the front of its encoding gives it back. Any record
  (sequence of fields) then round trips.
\<close>

locale field_codec =
  fixes wf :: "'w \<Rightarrow> bool" and written :: "'w \<Rightarrow> chunk" and put :: "'f \<Rightarrow> 'w \<Rightarrow> 'w"
    and input :: "'r \<Rightarrow> chunk" and get :: "'k \<Rightarrow> 'r \<Rightarrow> 'f option \<times> 'r"
    and kind :: "'f \<Rightarrow> 'k" and fits :: "'f \<Rightarrow> bool" and bytes :: "'f \<Rightarrow> chunk"
  assumes put_appends: "wf w \<Longrightarrow> written (put f w) = written w @ bytes f"
    and put_keeps_wf: "wf w \<Longrightarrow> wf (put f w)"
    and get_bytes: "fits f \<Longrightarrow> input r = bytes f @ rest \<Longrightarrow>
      fst (get (kind f) r) = Some f \<and> input (snd (get (kind f) r)) = rest"
begin

lemma written_fold: "wf w \<Longrightarrow> written (fold put fs w) = written w @ concat (map bytes fs)"
  by (induction fs arbitrary: w) (simp_all add: put_appends put_keeps_wf)

lemma read_seq_bytes:
  "list_all fits fs \<Longrightarrow> input r = concat (map bytes fs) @ rest \<Longrightarrow>
   fst (read_seq get (map kind fs) r) = Some fs \<and> input (snd (read_seq get (map kind fs) r)) = rest"
proof (induction fs arbitrary: r)
  case Nil
  then show ?case by simp
next
  case (Cons f fs)
  then obtain r' where r': "get (kind f) r = (Some f, r')"
    and "input r' = concat (map bytes fs) @ rest"
    using get_bytes [of f r "concat (map bytes fs) @ rest"] by (cases "get (kind f) r") auto
  then show ?case
    using Cons by simp
qed

theorem record_roundtrip:
  assumes "wf w" and "written w = []" and "list_all fits fs"
    and "input r = written (fold put fs w) @ rest"
  shows "fst (read_seq get (map kind fs) r) = Some fs \<and> input (snd (read_seq get (map kind fs) r)) = rest"
  using assms by (intro read_seq_bytes) (simp_all add: written_fold)

end

interpretation bio: field_codec wf_bio_writer get_buf write_field r_buf "read_field b" kind_of
    field_fits field_bytes for b
proof unfold_locales
  show "fst (read_field b (kind_of f) r) = Some f \<and> r_buf (snd (read_field b (kind_of f) r)) = rest"
    if "field_fits f" and "r_buf r = field_bytes f @ rest" for f r rest
    using read_field_front [OF that, of b] by simp
qed (simp_all add: write_field_spec)

text \<open>
  C31: Any record of fields written through a fresh \<open>bio_writer_t\<close>, whatever its initial
  size and whatever the allocator leaves in memory, is read back unchanged, field by field
  and in order, by a \<open>bio_reader_t\<close> over the written buffer, which is then empty.
  Fields are all integer widths and all length-prefixed data; a value has to fit its field.
\<close>

theorem bio_roundtrip:
  assumes "list_all field_fits fs"
  shows "fst (read_seq (read_field b) (map kind_of fs)
           (bio_reader_create (get_buf (fold write_field fs (bio_writer_create u n))))) = Some fs
    \<and> peek (snd (read_seq (read_field b) (map kind_of fs)
           (bio_reader_create (get_buf (fold write_field fs (bio_writer_create u n)))))) = []"
  using bio.record_roundtrip [of "bio_writer_create u n" fs
      "bio_reader_create (get_buf (fold write_field fs (bio_writer_create u n)))" "[]" b] assms
  by (simp add: bio_reader_create_def peek_def)

theorem bio_roundtrip_witness:
  "fst (read_seq (read_field 0) (map kind_of [F8 7, F24 66000, FData8 [1, 2, 3]])
     (bio_reader_create (get_buf (fold write_field [F8 7, F24 66000, FData8 [1, 2, 3]]
       (bio_writer_create (\<lambda>_. 170) 4))))) = Some [F8 7, F24 66000, FData8 [1, 2, 3]]"
  using bio_roundtrip [of "[F8 7, F24 66000, FData8 [1, 2, 3]]" 0 "\<lambda>_. 170" 4] by simp

end
