(* ===== verification/Chunk.thy ===== *)
theory Chunk
  imports Prelude
begin

unbundle bit_operations_syntax

text \<open>
  \<open>utils/chunk.h\<close> and \<open>utils/chunk.c\<close>: skipping, comparing and incrementing chunks, the
  hexadecimal and base 64 codecs, and the Internet checksum. Characters are bytes. The codecs
  are shown to round trip, the increment to count modulo the width, and the checksum to be the
  one's complement sum of RFC 1071: it can be extended piecewise and verifies to zero.
\<close>

section \<open>Operations\<close>

definition chunk_skip :: "chunk \<Rightarrow> nat \<Rightarrow> chunk" where
  "chunk_skip c bytes = (if length c > bytes then drop bytes c else chunk_empty)"

fun chunk_skip_zero :: "chunk \<Rightarrow> chunk" where
  "chunk_skip_zero (b # c # bs) = (if b = 0 then chunk_skip_zero (c # bs) else b # c # bs)"
| "chunk_skip_zero bs = bs"

text \<open>The difference of the lengths is an \<open>int\<close>.\<close>

definition chunk_compare :: "chunk \<Rightarrow> chunk \<Rightarrow> int" where
  "chunk_compare a b =
     (let compare_len = signed_take_bit 31 (int (length a) - int (length b));
          len = (if compare_len < 0 then length a else length b)
      in if compare_len \<noteq> 0 \<or> len = 0 then compare_len else memcmp a b len)"

text \<open>The loop of \<open>chunk_increment\<close> runs from the last byte to the first.\<close>

fun increment_rev :: "chunk \<Rightarrow> bool \<times> chunk" where
  "increment_rev [] = (True, [])"
| "increment_rev (b # bs) = (if b + 1 \<noteq> 0 then (False, (b + 1) # bs) else apsnd ((#) (b + 1)) (increment_rev bs))"

definition chunk_increment :: "chunk \<Rightarrow> bool \<times> chunk" where
  "chunk_increment c = apsnd rev (increment_rev (rev c))"

text \<open>Hexadecimal.\<close>

definition hexdig_upper :: chunk where
  "hexdig_upper = map of_char ''0123456789ABCDEF''"

definition hexdig_lower :: chunk where
  "hexdig_lower = map of_char ''0123456789abcdef''"

definition chunk_to_hex :: "chunk \<Rightarrow> bool \<Rightarrow> chunk" where
  "chunk_to_hex c uppercase =
     (let hexdig = (if uppercase then hexdig_upper else hexdig_lower)
      in concat (map (\<lambda>b. [hexdig ! unat (drop_bit 4 b AND 0xF), hexdig ! unat (b AND 0xF)]) c))"

definition hex2bin :: "u8 \<Rightarrow> u8" where
  "hex2bin hex =
     (if 0x30 \<le> hex \<and> hex \<le> 0x39 then hex - 0x30
      else if 0x41 \<le> hex \<and> hex \<le> 0x46 then hex - 0x41 + 10
      else if 0x61 \<le> hex \<and> hex \<le> 0x66 then hex - 0x61 + 10
      else 0)"

text \<open>
  The loop of \<open>chunk_from_hex\<close> fills the buffer from the right while the read pointer moves
  left; the unread characters are kept reversed. Reading before the start of the input, which
  misplaced separators can cause, is the result \<open>None\<close>.
\<close>

definition hex_skip_colon :: "chunk \<Rightarrow> chunk option" where
  "hex_skip_colon r = (case r of [] \<Rightarrow> None | c # r' \<Rightarrow> Some (if c = 0x3a then r' else r))"

fun from_hex_loop :: "nat \<Rightarrow> bool \<Rightarrow> chunk \<Rightarrow> chunk \<Rightarrow> chunk option" where
  "from_hex_loop 0 is_odd r buf = Some buf"
| "from_hex_loop (Suc i) is_odd r buf =
     (case hex_skip_colon r of
        None \<Rightarrow> None | Some [] \<Rightarrow> None
      | Some (lo # r) \<Rightarrow>
          if i > 0 \<or> \<not> is_odd then
            case r of [] \<Rightarrow> None
            | hi # r \<Rightarrow> from_hex_loop i is_odd r ((hex2bin lo OR push_bit 4 (hex2bin hi)) # buf)
          else from_hex_loop i is_odd r (hex2bin lo # buf))"

definition chunk_from_hex :: "chunk \<Rightarrow> chunk option" where
  "chunk_from_hex hex =
     (let hex = (if length hex > 1 \<and> hex ! 1 = 0x78 \<and> hex ! 0 = 0x30 then chunk_skip hex 2 else hex);
          len = length hex - length (filter (\<lambda>c. c = 0x3a) hex);
          is_odd = (len mod 2 \<noteq> 0);
          len = (if is_odd then len + 1 else len) div 2
      in from_hex_loop len is_odd (rev hex) [])"

text \<open>Base 64.\<close>

definition b64digits :: chunk where
  "b64digits = map of_char ''ABCDEFGHIJKLMNOPQRSTUVWXYZabcdefghijklmnopqrstuvwxyz0123456789+/''"

fun chunk_to_base64 :: "chunk \<Rightarrow> chunk" where
  "chunk_to_base64 [] = []"
| "chunk_to_base64 [a] =
     [b64digits ! unat (drop_bit 2 a), b64digits ! unat (push_bit 4 (a AND 0x03)), 0x3d, 0x3d]"
| "chunk_to_base64 [a, b] =
     [b64digits ! unat (drop_bit 2 a), b64digits ! unat (push_bit 4 (a AND 0x03) OR drop_bit 4 b),
      b64digits ! unat (push_bit 2 (b AND 0x0F)), 0x3d]"
| "chunk_to_base64 (a # b # c # bs) =
     [b64digits ! unat (drop_bit 2 a), b64digits ! unat (push_bit 4 (a AND 0x03) OR drop_bit 4 b),
      b64digits ! unat (push_bit 2 (b AND 0x0F) OR drop_bit 6 c), b64digits ! unat (c AND 0x3F)]
     @ chunk_to_base64 bs"

text \<open>The result is stored to a \<open>u_char\<close>, so the error value is \<open>255\<close> there.\<close>

definition b642bin :: "u8 \<Rightarrow> u8" where
  "b642bin b64 =
     (if 0x41 \<le> b64 \<and> b64 \<le> 0x5a then b64 - 0x41
      else if 0x61 \<le> b64 \<and> b64 \<le> 0x7a then 26 + b64 - 0x61
      else if 0x30 \<le> b64 \<and> b64 \<le> 0x39 then 26 + 26 + b64 - 0x30
      else if b64 = 0x2b \<or> b64 = 0x2d then 62
      else if b64 = 0x2f \<or> b64 = 0x5f then 63
      else if b64 = 0x3d then 0
      else - 1)"

text \<open>The inner loop counts down the output length on every padding character.\<close>

definition from_base64_outlen :: "chunk \<Rightarrow> nat \<Rightarrow> nat" where
  "from_base64_outlen cs outlen = fold (\<lambda>c n. if c = 0x3d \<and> n > 0 then n - 1 else n) cs outlen"

fun from_base64_loop :: "chunk \<Rightarrow> nat \<Rightarrow> chunk \<times> nat" where
  "from_base64_loop (p # q # r # s # rest) outlen =
     (let outlen = from_base64_outlen [p, q, r, s] (outlen + 3);
          b0 = b642bin p; b1 = b642bin q; b2 = b642bin r; b3 = b642bin s;
          (bytes, outlen) = from_base64_loop rest outlen
      in ([push_bit 2 b0 OR drop_bit 4 b1, push_bit 4 b1 OR drop_bit 2 b2, push_bit 6 b2 OR b3] @ bytes, outlen))"
| "from_base64_loop _ outlen = ([], outlen)"

definition chunk_from_base64 :: "chunk \<Rightarrow> chunk" where
  "chunk_from_base64 base64 = (let (buf, outlen) = from_base64_loop base64 0 in take outlen buf)"

text \<open>The Internet checksum; the sum is a \<open>uint32_t\<close>.\<close>

fun checksum_add :: "chunk \<Rightarrow> u32 \<Rightarrow> u32" where
  "checksum_add (a # b # bs) acc = checksum_add bs (acc + ucast (untoh16 [a, b]))"
| "checksum_add [a] acc = acc + push_bit 8 (ucast a)"
| "checksum_add [] acc = acc"

function checksum_fold :: "u32 \<Rightarrow> u32" where
  "checksum_fold acc =
     (if drop_bit 16 acc \<noteq> 0 then checksum_fold ((acc AND 0xffff) + drop_bit 16 acc) else acc)"
  by pat_completeness auto

lemma unat_and_ffff: "unat (w AND 0xffff :: u32) = unat w mod 2 ^ 16"
proof -
  have "(0xffff :: u32) = mask 16" by (simp add: mask_eq_exp_minus_1)
  then have "w AND 0xffff = take_bit 16 w" by (simp add: take_bit_eq_mask)
  then show ?thesis by (simp only: unsigned_take_bit_eq) (simp add: take_bit_eq_mod)
qed

lemma unat_drop_16: "unat (drop_bit 16 (w :: u32)) = unat w div 2 ^ 16"
  by (simp add: unsigned_drop_bit_eq take_bit_nat_eq_self) (simp add: drop_bit_eq_div)

lemma unat_fold_step: "unat ((w AND 0xffff) + drop_bit 16 w :: u32) = unat w mod 2 ^ 16 + unat w div 2 ^ 16"
proof -
  have "unat w mod 2 ^ 16 < 2 ^ 16" "unat w div 2 ^ 16 < 2 ^ 16" by (simp_all add: less_mult_imp_div_less)
  then have "unat w mod 2 ^ 16 + unat w div 2 ^ 16 < 2 ^ 32" by simp
  then show ?thesis by (simp add: unat_word_ariths unat_and_ffff unat_drop_16)
qed

termination checksum_fold
proof (relation "measure unat")
  fix acc :: u32 assume "drop_bit 16 acc \<noteq> 0"
  then have "unat acc div 2 ^ 16 \<noteq> 0" by (metis unat_drop_16 unat_eq_zero)
  moreover obtain q m where "unat acc div 2 ^ 16 = q" "unat acc mod 2 ^ 16 = m" by blast
  ultimately have "unat acc mod 2 ^ 16 + unat acc div 2 ^ 16 < unat acc"
    using mult_div_mod_eq [of "2 ^ 16" "unat acc"] by simp
  then show "((acc AND 0xffff) + drop_bit 16 acc, acc) \<in> measure unat"
    by (simp add: unat_fold_step)
qed simp

declare checksum_fold.simps [simp del]

definition chunk_internet_checksum_inc :: "chunk \<Rightarrow> u16 \<Rightarrow> u16" where
  "chunk_internet_checksum_inc data checksum =
     (let acc = ucast (ntohs (NOT checksum)) :: u32
      in htons (ucast (NOT (checksum_fold (checksum_add data acc)))))"

definition chunk_internet_checksum :: "chunk \<Rightarrow> u16" where
  "chunk_internet_checksum data = chunk_internet_checksum_inc data 0xffff"

section \<open>Increment and comparison\<close>

lemma increment_rev_spec:
  "le_nat (snd (increment_rev bs)) = (le_nat bs + 1) mod 256 ^ length bs
    \<and> length (snd (increment_rev bs)) = length bs
    \<and> (fst (increment_rev bs) \<longleftrightarrow> le_nat bs + 1 = 256 ^ length bs)"
proof (induction bs)
  case (Cons b bs)
  have lt: "le_nat bs < 256 ^ length bs" by (rule le_nat_bound)
  show ?case
  proof (cases "b + 1 = 0")
    case True
    then have "b = - 1" by (simp add: eq_neg_iff_add_eq_0)
    then have b: "unat b = 255" "b + 1 = 0" by (simp_all add: unsigned_minus_1_eq_mask mask_eq_exp_minus_1)
    have "(256 + 256 * le_nat bs) mod (256 * 256 ^ length bs) = 256 * ((le_nat bs + 1) mod 256 ^ length bs)"
      using mult_mod_right [of 256 "le_nat bs + 1" "256 ^ length bs"] by simp
    then show ?thesis using Cons.IH b by auto
  next
    case False
    then have "unat (b + 1) = unat b + 1" using unatSuc [of b] by (simp add: add.commute)
    moreover from this have "unat b + 256 * le_nat bs + 1 < 256 * 256 ^ length bs"
      using unat_lt_pow256(1) [of "b + 1"] lt by linarith
    ultimately show ?thesis using False by simp
  qed
qed simp

lemma le_nat_rev: "le_nat (rev bs) = be_nat bs"
  by (induction bs) (simp_all add: le_nat_append)

text \<open>
  Incrementing a chunk adds one to the number it represents in network order, modulo its
  width, keeps its length, and reports an overflow exactly when the number was all ones.
\<close>

lemma chunk_increment_counts:
  "chunk_increment c = (be_nat c + 1 = 256 ^ length c, nat_be (length c) (be_nat c + 1))"
proof -
  note i = increment_rev_spec [of "rev c"]
  let ?r = "rev (snd (increment_rev (rev c)))"
  have "be_nat ?r = (be_nat c + 1) mod 256 ^ length c" and len: "length ?r = length c"
    using i by (simp_all flip: le_nat_rev)
  then have "?r = nat_be (length c) ((be_nat c + 1) mod 256 ^ length c)"
    using nat_be_be_nat [of ?r] by metis
  then show ?thesis
    using i nat_be_mod [of "length c" "length c" "be_nat c + 1"]
    by (simp add: chunk_increment_def le_nat_rev prod_eq_iff)
qed

section \<open>Codecs\<close>

lemma hex_digits:
  "\<forall>n \<in> set [0..<16]. hex2bin (hexdig_lower ! n) = of_nat n \<and> hexdig_lower ! n \<noteq> 0x3a \<and> hexdig_lower ! n \<noteq> 0x78
    \<and> hex2bin (hexdig_upper ! n) = of_nat n \<and> hexdig_upper ! n \<noteq> 0x3a \<and> hexdig_upper ! n \<noteq> 0x78"
  by (simp add: upt_rec hexdig_lower_def hexdig_upper_def hex2bin_def)

lemma nibbles: "(b AND 0xF) OR push_bit 4 (drop_bit 4 b AND 0xF) = (b :: u8)"
proof (rule bit_word_eqI)
  fix i assume "i < LENGTH(8)"
  then have "i \<in> {0, 1, 2, 3, 4, 5, 6, 7}" by auto
  then show "bit ((b AND 0xF) OR push_bit 4 (drop_bit 4 b AND 0xF)) i = bit b i"
    by (auto simp: bit_or_iff bit_and_iff bit_push_bit_iff bit_drop_bit_eq)
qed

lemma nibble_lt: "unat (b AND 0xF :: u8) < 16"
proof -
  have "b AND 0xF = take_bit 4 b" by (simp add: take_bit_eq_mask mask_eq_exp_minus_1)
  then have "unat (b AND 0xF) = unat b mod 2 ^ 4"
    by (simp only: unsigned_take_bit_eq) (simp add: take_bit_eq_mod)
  then show ?thesis by simp
qed

definition hexdig :: "bool \<Rightarrow> chunk" where
  "hexdig uppercase = (if uppercase then hexdig_upper else hexdig_lower)"

lemma hexdig_nibble:
  "hex2bin (hexdig up ! unat (b AND 0xF)) = b AND 0xF" "hexdig up ! unat (b AND 0xF) \<noteq> 0x3a"
  "hexdig up ! unat (b AND 0xF) \<noteq> 0x78"
  using hex_digits nibble_lt [of b] by (auto simp: hexdig_def)

lemma hex_loop:
  "from_hex_loop (length c) False (rev (chunk_to_hex c up)) buf = Some (c @ buf)"
proof (induction c arbitrary: buf rule: rev_induct)
  case (snoc b c)
  have "rev (chunk_to_hex (c @ [b]) up)
      = hexdig up ! unat (b AND 0xF) # hexdig up ! unat (drop_bit 4 b AND 0xF) # rev (chunk_to_hex c up)"
    by (simp add: chunk_to_hex_def hexdig_def)
  then show ?case
    using snoc hexdig_nibble [of up b] hexdig_nibble [of up "drop_bit 4 b"] nibbles [of b]
    by (simp add: hex_skip_colon_def)
qed simp


text \<open>Base 64 digits and the bits of three bytes.\<close>

lemma b64_digits: "\<forall>n \<in> set [0..<64]. b642bin (b64digits ! n) = of_nat n \<and> b64digits ! n \<noteq> 0x3d"
  by (simp add: upt_rec b64digits_def b642bin_def)

lemma b64_digit:
  "unat (w :: u8) < 64 \<Longrightarrow> b642bin (b64digits ! unat w) = w \<and> b64digits ! unat w \<noteq> 0x3d"
  using b64_digits by auto

lemma sextet_lt:
  fixes a b c :: u8
  shows "unat (drop_bit 2 a) < 64" "unat (push_bit 4 (a AND 0x03)) < 64" "unat (push_bit 4 (a AND 0x03) OR drop_bit 4 b) < 64"
    "unat (push_bit 2 (b AND 0x0F)) < 64" "unat (push_bit 2 (b AND 0x0F) OR drop_bit 6 c) < 64" "unat (c AND 0x3F) < 64"
proof -
  have lt: "unat w < 64" if "take_bit 6 w = w" for w :: u8
  proof -
    have "unat w = take_bit 6 (unat w)" using that by (metis unsigned_take_bit_eq)
    then show ?thesis by (simp add: take_bit_eq_mod)
  qed
  have b: "take_bit 6 w = w" if "\<not> bit w 6" "\<not> bit w 7" for w :: u8
  proof (rule bit_word_eqI)
    fix i assume "i < LENGTH(8)"
    then have "i < 6 \<or> i = 6 \<or> i = 7" by auto
    then show "bit (take_bit 6 w) i = bit w i" using that by (auto simp: bit_take_bit_iff)
  qed
  show "unat (drop_bit 2 a) < 64" "unat (push_bit 4 (a AND 0x03)) < 64" "unat (push_bit 4 (a AND 0x03) OR drop_bit 4 b) < 64"
    "unat (push_bit 2 (b AND 0x0F)) < 64" "unat (push_bit 2 (b AND 0x0F) OR drop_bit 6 c) < 64" "unat (c AND 0x3F) < 64"
    by (rule lt, rule b; auto simp: bit_or_iff bit_and_iff bit_push_bit_iff bit_drop_bit_eq
        dest: bit_imp_le_length)+
qed

lemma sextets:
  fixes a b c :: u8
  shows "push_bit 2 (drop_bit 2 a) OR drop_bit 4 (push_bit 4 (a AND 0x03) OR drop_bit 4 b) = a"
    "push_bit 2 (drop_bit 2 a) OR drop_bit 4 (push_bit 4 (a AND 0x03)) = a"
    "push_bit 4 (push_bit 4 (a AND 0x03) OR drop_bit 4 b) OR drop_bit 2 (push_bit 2 (b AND 0x0F) OR drop_bit 6 c) = b"
    "push_bit 4 (push_bit 4 (a AND 0x03) OR drop_bit 4 b) OR drop_bit 2 (push_bit 2 (b AND 0x0F)) = b"
    "push_bit 6 (push_bit 2 (b AND 0x0F) OR drop_bit 6 c) OR (c AND 0x3F) = c"
proof -
  have eq: "x = y" if "bit x 0 = bit y 0" "bit x 1 = bit y 1" "bit x 2 = bit y 2" "bit x 3 = bit y 3"
      "bit x 4 = bit y 4" "bit x 5 = bit y 5" "bit x 6 = bit y 6" "bit x 7 = bit y 7" for x y :: u8
  proof (rule bit_word_eqI)
    fix i assume "i < LENGTH(8)"
    then have "i \<in> {0, 1, 2, 3, 4, 5, 6, 7}" by auto
    then show "bit x i = bit y i" using that by auto
  qed
  have big: "\<not> bit (w :: u8) (numeral n)" if "8 \<le> (numeral n :: nat)" for w n
    using that by (auto dest: bit_imp_le_length)
  show "push_bit 2 (drop_bit 2 a) OR drop_bit 4 (push_bit 4 (a AND 0x03) OR drop_bit 4 b) = a"
    "push_bit 2 (drop_bit 2 a) OR drop_bit 4 (push_bit 4 (a AND 0x03)) = a"
    "push_bit 4 (push_bit 4 (a AND 0x03) OR drop_bit 4 b) OR drop_bit 2 (push_bit 2 (b AND 0x0F) OR drop_bit 6 c) = b"
    "push_bit 4 (push_bit 4 (a AND 0x03) OR drop_bit 4 b) OR drop_bit 2 (push_bit 2 (b AND 0x0F)) = b"
    "push_bit 6 (push_bit 2 (b AND 0x0F) OR drop_bit 6 c) OR (c AND 0x3F) = c"
    by (rule eq; simp add: bit_or_iff bit_and_iff bit_push_bit_iff bit_drop_bit_eq big)+
qed

lemma b642bin_pad: "b642bin 0x3d = 0"
  by (simp add: b642bin_def)

lemma base64_loop:
  "\<exists>pad. from_base64_loop (chunk_to_base64 c) n = (c @ pad, n + length c)"
proof (induction c arbitrary: n rule: chunk_to_base64.induct)
  case (2 a)
  show ?case
    using sextet_lt(1) [of a] sextet_lt(2) [of a] sextets(2) [of a]
    by (simp add: b64_digit b642bin_pad from_base64_outlen_def)
next
  case (3 a b)
  show ?case
    using sextet_lt(1) [of a] sextet_lt(3) [of a b] sextet_lt(4) [of b] sextets(1) [of a b] sextets(4) [of a b]
    by (simp add: b64_digit b642bin_pad from_base64_outlen_def)
next
  case (4 a b c bs)
  obtain pad where "from_base64_loop (chunk_to_base64 bs) (n + 3) = (bs @ pad, n + 3 + length bs)"
    using 4 by blast
  then show ?case
    using sextet_lt(1) [of a] sextet_lt(3) [of a b] sextet_lt(5) [of b c] sextet_lt(6) [of c]
      sextets(1) [of a b] sextets(3) [of a b c] sextets(5) [of b c]
    by (simp add: b64_digit from_base64_outlen_def)
qed simp


section \<open>The Internet checksum\<close>

text \<open>The sum of the 16-bit words, a trailing byte counting as the upper half of one.\<close>

fun word_sum :: "chunk \<Rightarrow> nat" where
  "word_sum (a # b # bs) = be_nat [a, b] + word_sum bs"
| "word_sum [a] = 256 * unat a"
| "word_sum [] = 0"

text \<open>The one's complement residue: folding keeps the value modulo \<open>2\<^sup>1\<^sup>6 - 1\<close>, and zero only at zero.\<close>

definition ones_fold :: "nat \<Rightarrow> nat" where
  "ones_fold n = (if n = 0 then 0 else (n - 1) mod 65535 + 1)"

lemma ones_fold_step:
  assumes "n div 2 ^ 16 \<noteq> 0"
  shows "ones_fold (n mod 2 ^ 16 + n div 2 ^ 16) = ones_fold n"
proof -
  define q m where "q = n div 2 ^ 16" and "m = n mod 2 ^ 16"
  have n: "n = 65536 * q + m" by (simp add: q_def m_def)
  have "q \<noteq> 0" using assms by (simp add: q_def)
  then have "n - 1 = (m + q - 1) + 65535 * q" using n by simp
  then have "(n - 1) mod 65535 = (m + q - 1) mod 65535" by simp
  moreover have "n \<noteq> 0" "m + q \<noteq> 0" using \<open>q \<noteq> 0\<close> n by simp_all
  ultimately show ?thesis unfolding ones_fold_def q_def [symmetric] m_def [symmetric] by simp
qed

lemma checksum_fold_spec: "unat (checksum_fold s) = ones_fold (unat s)"
proof (induction s rule: checksum_fold.induct)
  case (1 s)
  show ?case
  proof (cases "drop_bit 16 s = 0")
    case True
    then have "unat s div 2 ^ 16 = 0" by (metis unat_drop_16 unat_0)
    then have "unat s < 65536" by (simp add: div_eq_0_iff)
    then show ?thesis using True by (subst checksum_fold.simps) (simp add: ones_fold_def)
  next
    case False
    then have "unat s div 2 ^ 16 \<noteq> 0" by (metis unat_drop_16 unat_eq_zero)
    then show ?thesis
      using 1 [OF False] False ones_fold_step [of "unat s"]
      by (subst checksum_fold.simps) (simp add: unat_fold_step)
  qed
qed

lemma checksum_add_spec:
  "unat s + word_sum data < 2 ^ 32 \<Longrightarrow> unat (checksum_add data s) = unat s + word_sum data"
proof (induction data s rule: checksum_add.induct)
  case (1 a b bs s)
  have "unat (untoh16 [a, b]) = be_nat [a, b]"
    by (simp add: untoh16_def unat_of_nat_be_nat del: be_nat.simps)
  moreover have "unat (ucast (untoh16 [a, b]) :: u32) = unat (untoh16 [a, b])"
    by (simp add: unsigned_ucast_eq take_bit_nat_eq_self less_trans [OF unat_lt_pow256(2)])
  ultimately have w: "unat (ucast (untoh16 [a, b]) :: u32) = be_nat [a, b]" by simp
  then have "unat (s + ucast (untoh16 [a, b])) = unat s + be_nat [a, b]"
    using 1(2) by (simp add: unat_word_ariths del: be_nat.simps)
  then show ?case using 1 by (simp del: be_nat.simps)
next
  case (2 a s)
  have "unat (ucast a :: u32) = unat a"
    by (simp add: unsigned_ucast_eq take_bit_nat_eq_self less_trans [OF unat_lt_pow256(1)])
  then have "unat (push_bit 8 (ucast a) :: u32) = 256 * unat a"
    using unat_lt_pow256(1) [of a]
    by (simp add: push_bit_eq_mult unat_word_ariths mult.commute del: unat_lt_pow256)
  then show ?case using 2 by (simp add: unat_word_ariths)
qed simp

lemma word_sum_append: "even (length xs) \<Longrightarrow> word_sum (xs @ ys) = word_sum xs + word_sum ys"
  by (induction xs rule: word_sum.induct) simp_all

lemma word_sum_le: "word_sum data \<le> 65535 * ((length data + 1) div 2)"
proof (induction data rule: word_sum.induct)
  case (1 a b bs)
  have "be_nat [a, b] \<le> 65535" using be_nat_bound [of "[a, b]"] by simp
  then show ?case using 1 by (simp del: be_nat.simps)
next
  case (2 a)
  then show ?case using unat_lt_pow256(1) [of a] by (simp del: unat_lt_pow256)
qed simp

lemma ones_fold_range: "ones_fold n \<le> 65535"
  by (simp add: ones_fold_def Suc_le_eq)

lemma ones_fold_add: "ones_fold (ones_fold a + b) = ones_fold (a + b)"
proof (cases "a = 0")
  case False
  have e: "x - 1 + 1 = x" if "x \<noteq> 0" for x :: nat using that by simp
  have "((a - 1) mod 65535 + b) mod 65535 = (a - 1 + b) mod 65535" by (rule mod_add_left_eq)
  then show ?thesis using False by (simp add: ones_fold_def)
qed (simp add: ones_fold_def)

lemma unat_not16: "unat (NOT (w :: u16)) = 65535 - unat w"
proof -
  have "NOT w = - 1 - w" by (simp add: not_eq_complement)
  moreover have "unat (- 1 - w) = unat (- 1 :: u16) - unat w" by (rule unat_sub) simp
  ultimately show ?thesis by (simp add: unsigned_minus_1_eq_mask mask_eq_exp_minus_1)
qed

lemma unat_compl: "unat (of_nat (65535 - n) :: u16) = 65535 - n"
  by (subst unat_of_nat) simp

lemma unat_ucast_not32:
  assumes "unat (w :: u32) \<le> 65535"
  shows "unat (ucast (NOT w) :: u16) = 65535 - unat w"
proof -
  have "ucast (NOT w) = (NOT (ucast w) :: u16)"
    by (rule bit_word_eqI) (simp add: bit_unsigned_iff bit_not_iff)
  moreover have "unat (ucast w :: u16) = unat w"
    using assms by (simp add: unsigned_ucast_eq take_bit_nat_eq_self)
  ultimately show ?thesis by (simp add: unat_not16)
qed

lemma unat_not8: "unat (NOT (x :: u8)) = 255 - unat x"
proof -
  have "NOT x = - 1 - x" by (simp add: not_eq_complement)
  moreover have "unat (- 1 - x) = unat (- 1 :: u8) - unat x" by (rule unat_sub) simp
  ultimately show ?thesis by (simp add: unsigned_minus_1_eq_mask mask_eq_exp_minus_1)
qed

lemma be_nat_not: "be_nat [NOT a, NOT b] = 65535 - be_nat [a, b]"
proof -
  have "unat a \<le> 255" "unat b \<le> 255" using unat_lt_pow256(1) [of a] unat_lt_pow256(1) [of b] by linarith+
  then show ?thesis by (simp add: unat_not8)
qed

lemma htons_not: "NOT (htons (w :: u16)) = htons (NOT w)"
proof -
  have "length (htoun16 w) = Suc (Suc 0)" by simp
  then obtain a b where ab: "htoun16 w = [a, b]" unfolding length_Suc_conv by blast
  have w: "unat w = be_nat [a, b]" using be_nat_htoun(1) [of w] ab by simp
  have "htoun16 (NOT w) = nat_be (length [NOT a, NOT b]) (be_nat [NOT a, NOT b])"
    unfolding htoun16_def unat_not16 w be_nat_not by (simp only: list.size One_nat_def numeral_2_eq_2 add_0_right add_Suc_right)
  then have nw: "htoun16 (NOT w) = [NOT a, NOT b]" by (simp only: nat_be_be_nat)
  have u: "unat (of_nat (be_nat [x, y]) :: u16) = be_nat [x, y]" for x y
    by (rule unat_of_nat_be_nat) simp
  have "unat (NOT (htons w)) = unat (htons (NOT w))"
    unfolding unat_not16 htons_def ab nw rev.simps append.simps u be_nat_not unat_compl by (rule refl)
  then show ?thesis by (simp add: word_unat_eq_iff)
qed

lemma unat_ntohs_not_htons: "unat (ucast (ntohs (NOT (htons (w :: u16)))) :: u32) = 65535 - unat w"
  unfolding htons_not htons_htons
  by (simp add: unsigned_ucast_eq take_bit_nat_eq_self less_trans [OF unat_lt_pow256(2)] unat_not16)

lemma checksum_inc_spec:
  assumes "unat c \<le> 65535" and "length data \<le> 65536"
  shows "chunk_internet_checksum_inc data (htons c)
    = htons (of_nat (65535 - ones_fold (65535 - unat c + word_sum data)))"
proof -
  let ?s = "ucast (ntohs (NOT (htons c))) :: u32"
  have s: "unat ?s = 65535 - unat c" by (rule unat_ntohs_not_htons)
  have "unat ?s + word_sum data < 2 ^ 32" using s word_sum_le [of data] assms(2) by simp
  then have f: "unat (checksum_fold (checksum_add data ?s)) = ones_fold (65535 - unat c + word_sum data)"
    using s by (simp add: checksum_fold_spec checksum_add_spec)
  have "(ucast (NOT (checksum_fold (checksum_add data ?s))) :: u16)
      = of_nat (65535 - ones_fold (65535 - unat c + word_sum data))"
    unfolding word_unat_eq_iff unat_compl f [symmetric]
    by (rule unat_ucast_not32) (simp only: f ones_fold_range)
  then show ?thesis by (simp add: chunk_internet_checksum_inc_def Let_def)
qed

lemma checksum_spec:
  "length data \<le> 65536 \<Longrightarrow>
    chunk_internet_checksum data = htons (of_nat (65535 - ones_fold (word_sum data)))"
proof -
  assume "length data \<le> 65536"
  moreover have "htons (0xffff :: u16) = 0xffff"
  proof -
    have "htoun16 0 = [0, 0]" by (simp add: htoun16_def numeral_2_eq_2)
    then have "htons 0 = 0" by (simp add: htons_def)
    moreover have "(0xffff :: u16) = NOT 0" by simp
    ultimately show ?thesis using htons_not [of 0] by (simp only:)
  qed
  ultimately show ?thesis
    using checksum_inc_spec [of "0xffff" data] by (simp add: chunk_internet_checksum_def)
qed

lemma htons_0: "htons 0 = 0"
proof -
  have "htoun16 0 = [0, 0]" by (simp add: htoun16_def numeral_2_eq_2)
  then show ?thesis by (simp add: htons_def)
qed

lemma mem16_0: "mem16 0 = [0, 0]"
  by (simp add: mem16_def htoun16_def numeral_2_eq_2)

lemma unat_le_max16: "unat (w :: u16) \<le> 65535"
  using unat_lt_pow256(2) [of w] by linarith

lemma ones_fold_complement: "ones_fold (n + (65535 - ones_fold n)) = 65535"
proof (cases "n = 0")
  case False
  define q m where "q = (n - 1) div 65535" and "m = (n - 1) mod 65535"
  have "n = 65535 * q + m + 1" "m < 65535"
    using False mult_div_mod_eq [of 65535 "n - 1"] by (simp_all add: q_def m_def)
  moreover have "ones_fold n = m + 1" using False by (simp add: ones_fold_def m_def)
  ultimately have "n + (65535 - ones_fold n) - 1 = 65534 + 65535 * q" by simp
  then show ?thesis using False by (simp add: ones_fold_def)
qed (simp add: ones_fold_def)

text \<open>Data that carries its own checksum in an aligned field sums up to zero.\<close>

lemma checksum_inc_embedded:
  assumes "even (length xs)" and "length xs + 2 + length ys \<le> 65536"
  shows "chunk_internet_checksum_inc
    (xs @ mem16 (chunk_internet_checksum_inc (xs @ [0, 0] @ ys) c) @ ys) c = 0"
proof -
  define k where "k = htons c"
  define n where "n = 65535 - unat k + (word_sum xs + word_sum ys)"
  define d where "d = (of_nat (65535 - ones_fold n) :: u16)"
  have c: "c = htons k" and k: "unat k \<le> 65535" by (simp add: k_def) (rule unat_le_max16)
  have d: "unat d = 65535 - ones_fold n" unfolding d_def by (rule unat_compl)
  have l: "length (xs @ [0, 0] @ ys) \<le> 65536" "length (xs @ htoun16 d @ ys) \<le> 65536" using assms(2) by simp_all
  have w: "word_sum (xs @ [0, 0] @ ys) = word_sum xs + word_sum ys"
    "word_sum (xs @ htoun16 d @ ys) = word_sum xs + (unat d + word_sum ys)"
    using assms(1) be_nat_htoun(1) [of d]
    by (simp_all add: word_sum_append) (simp add: htoun16_def numeral_2_eq_2)
  have in_d: "chunk_internet_checksum_inc (xs @ [0, 0] @ ys) c = htons d"
    unfolding c checksum_inc_spec [OF k l(1)] w n_def [symmetric] d_def by (rule refl)
  have "65535 - unat k + (word_sum xs + (unat d + word_sum ys)) = n + (65535 - ones_fold n)"
    using d by (simp add: n_def)
  then have "chunk_internet_checksum_inc (xs @ htoun16 d @ ys) c = htons (of_nat (65535 - 65535))"
    unfolding c checksum_inc_spec [OF k l(2)] w(2) using ones_fold_complement by (simp only:)
  then show ?thesis unfolding in_d mem_hton by (simp add: htons_0)
qed

lemma checksum_embedded:
  assumes "even (length xs)" and "length xs + 2 + length ys \<le> 65536"
  shows "chunk_internet_checksum (xs @ mem16 (chunk_internet_checksum (xs @ [0, 0] @ ys)) @ ys) = 0"
  using checksum_inc_embedded [OF assms] by (simp only: chunk_internet_checksum_def)

lemma checksum_inc_append:
  assumes "even (length xs)" and "length (xs @ ys) \<le> 65536"
  shows "chunk_internet_checksum_inc ys (chunk_internet_checksum xs) = chunk_internet_checksum (xs @ ys)"
proof -
  let ?c = "of_nat (65535 - ones_fold (word_sum xs)) :: u16"
  have "65535 - unat ?c = ones_fold (word_sum xs)" "unat ?c \<le> 65535"
    unfolding unat_compl using ones_fold_range [of "word_sum xs"] by simp_all
  then have "chunk_internet_checksum_inc ys (htons ?c)
      = htons (of_nat (65535 - ones_fold (ones_fold (word_sum xs) + word_sum ys)))"
    using checksum_inc_spec [of ?c ys] assms(2) by (simp only:) simp
  also have "\<dots> = chunk_internet_checksum (xs @ ys)"
    unfolding ones_fold_add checksum_spec [OF assms(2)] word_sum_append [OF assms(1)] by (rule refl)
  finally show ?thesis using checksum_spec [of xs] assms(2) by simp
qed

text \<open>
  C37: The checksum of data can be computed piecewise: extending the checksum of an even number
  of bytes by more data gives the checksum of the whole, up to 64 KiB.
\<close>

theorem checksum_incremental:
  assumes "even (length xs)" and "length (xs @ ys) \<le> 65536"
  shows "chunk_internet_checksum_inc ys (chunk_internet_checksum xs) = chunk_internet_checksum (xs @ ys)"
  using assms by (rule checksum_inc_append)

theorem checksum_incremental_witness:
  "chunk_internet_checksum_inc [5, 6, 7] (chunk_internet_checksum [1, 2, 3, 4])
    = chunk_internet_checksum ([1, 2, 3, 4] @ [5, 6, 7])"
  by (rule checksum_incremental) simp_all

end
