(* ===== verification/Host.thy ===== *)
theory Host
  imports Chunk
begin

unbundle bit_operations_syntax

text \<open>
  \<open>networking/host.c\<close>: an IP address with a port. The \<open>sockaddr\<close> of the C structure is its
  family, the address bytes of that family and the port in network order. Parsing and printing
  of address strings and name resolution belong to the C library and the resolver.
\<close>

datatype family = AF_UNSPEC | AF_INET | AF_INET6 | AF_OTHER

record host =
  sa_family :: family
  sin_addr :: chunk
  sin_port :: u16

abbreviation (input) IPV4_LEN :: nat where "IPV4_LEN \<equiv> 4"
abbreviation (input) IPV6_LEN :: nat where "IPV6_LEN \<equiv> 16"

definition is_anyaddr :: "host \<Rightarrow> bool" where
  "is_anyaddr this =
     (case sa_family this of
        AF_INET \<Rightarrow> memeq (replicate IPV6_LEN 0) (sin_addr this) IPV4_LEN
      | AF_INET6 \<Rightarrow> memeq (replicate IPV6_LEN 0) (sin_addr this) IPV6_LEN
      | _ \<Rightarrow> False)"

definition get_address :: "host \<Rightarrow> chunk" where
  "get_address this =
     (case sa_family this of
        AF_INET \<Rightarrow> take IPV4_LEN (sin_addr this)
      | AF_INET6 \<Rightarrow> take IPV6_LEN (sin_addr this)
      | _ \<Rightarrow> chunk_empty)"

definition get_family :: "host \<Rightarrow> family" where
  "get_family this = sa_family this"

definition get_port :: "host \<Rightarrow> u16" where
  "get_port this = (case sa_family this of AF_INET \<Rightarrow> ntohs (sin_port this) | AF_INET6 \<Rightarrow> ntohs (sin_port this) | _ \<Rightarrow> 0)"

definition set_port :: "host \<Rightarrow> u16 \<Rightarrow> host" where
  "set_port this port =
     (case sa_family this of
        AF_INET \<Rightarrow> this\<lparr>sin_port := htons port\<rparr> | AF_INET6 \<Rightarrow> this\<lparr>sin_port := htons port\<rparr> | _ \<Rightarrow> this)"

definition ip_equals :: "host \<Rightarrow> host \<Rightarrow> bool" where
  "ip_equals this other =
     (if sa_family this \<noteq> sa_family other then is_anyaddr this \<and> is_anyaddr other
      else case sa_family this of
        AF_INET \<Rightarrow> memeq (sin_addr this) (sin_addr other) IPV4_LEN
      | AF_INET6 \<Rightarrow> memeq (sin_addr this) (sin_addr other) IPV6_LEN
      | _ \<Rightarrow> False)"

definition host_equals :: "host \<Rightarrow> host \<Rightarrow> bool" where
  "host_equals this other =
     (if \<not> ip_equals this other then False
      else case sa_family this of
        AF_INET \<Rightarrow> sin_port this = sin_port other
      | AF_INET6 \<Rightarrow> sin_port this = sin_port other
      | _ \<Rightarrow> False)"

definition host_create_from_chunk :: "family \<Rightarrow> chunk \<Rightarrow> u16 \<Rightarrow> host option" where
  "host_create_from_chunk fam address port =
     (case fam of
        AF_INET \<Rightarrow> if length address < IPV4_LEN then None
          else Some \<lparr>sa_family = AF_INET, sin_addr = take IPV4_LEN address, sin_port = htons port\<rparr>
      | AF_INET6 \<Rightarrow> if length address < IPV6_LEN then None
          else Some \<lparr>sa_family = AF_INET6, sin_addr = take IPV6_LEN address, sin_port = htons port\<rparr>
      | AF_UNSPEC \<Rightarrow>
          if length address = IPV4_LEN
          then Some \<lparr>sa_family = AF_INET, sin_addr = address, sin_port = htons port\<rparr>
          else if length address = IPV6_LEN
          then Some \<lparr>sa_family = AF_INET6, sin_addr = address, sin_port = htons port\<rparr>
          else None
      | AF_OTHER \<Rightarrow> None)"

text \<open>The target bytes of \<open>host_create_netmask\<close>; \<open>bits\<close> is between 1 and 8.\<close>

definition netmask_bytes :: "nat \<Rightarrow> int \<Rightarrow> chunk" where
  "netmask_bytes len netbits =
     (let bytes = nat (netbits div 8); bits = 8 - nat (netbits AND 0x07)
      in replicate bytes 0xff
         @ (if bytes < len then (ucast (push_bit bits 0xff :: u32) :: u8) # replicate (len - bytes - 1) 0x00 else []))"

definition host_create_netmask :: "family \<Rightarrow> int \<Rightarrow> host option" where
  "host_create_netmask fam netbits =
     (case fam of
        AF_INET \<Rightarrow> if netbits < 0 \<or> netbits > 32 then None
          else Some \<lparr>sa_family = AF_INET, sin_addr = netmask_bytes 4 netbits, sin_port = 0\<rparr>
      | AF_INET6 \<Rightarrow> if netbits < 0 \<or> netbits > 128 then None
          else Some \<lparr>sa_family = AF_INET6, sin_addr = netmask_bytes 16 netbits, sin_port = 0\<rparr>
      | _ \<Rightarrow> None)"

definition host_create_any :: "family \<Rightarrow> host option" where
  "host_create_any fam =
     (case fam of
        AF_INET \<Rightarrow> Some \<lparr>sa_family = AF_INET, sin_addr = replicate IPV4_LEN 0, sin_port = 0\<rparr>
      | AF_INET6 \<Rightarrow> Some \<lparr>sa_family = AF_INET6, sin_addr = replicate IPV6_LEN 0, sin_port = 0\<rparr>
      | _ \<Rightarrow> None)"

section \<open>Well-formed hosts\<close>

definition wf_host :: "host \<Rightarrow> bool" where
  "wf_host h \<longleftrightarrow> (sa_family h = AF_INET \<and> length (sin_addr h) = 4)
     \<or> (sa_family h = AF_INET6 \<and> length (sin_addr h) = 16)"

lemma host_create_wf:
  "host_create_from_chunk fam address port = Some h \<Longrightarrow> wf_host h"
  "host_create_any fam = Some h \<Longrightarrow> wf_host h"
  by (auto simp: host_create_from_chunk_def host_create_any_def wf_host_def split: family.splits if_splits)

lemma wf_set_port: "wf_host h \<Longrightarrow> wf_host (set_port h p)"
  by (auto simp: wf_host_def set_port_def split: family.splits)

lemma get_set_port: "wf_host h \<Longrightarrow> get_port (set_port h p) = p"
  by (auto simp: wf_host_def get_port_def set_port_def)

lemma length_get_address:
  "wf_host h \<Longrightarrow> length (get_address h) = (if sa_family h = AF_INET then 4 else 16)"
  by (auto simp: wf_host_def get_address_def)

lemma host_from_parts:
  "wf_host h \<Longrightarrow> host_create_from_chunk (get_family h) (get_address h) (get_port h) = Some h"
  by (auto simp: wf_host_def get_family_def get_address_def get_port_def host_create_from_chunk_def)

lemma ip_equals_iff:
  assumes "wf_host a" and "wf_host b" and "sa_family a = sa_family b"
  shows "ip_equals a b \<longleftrightarrow> get_address a = get_address b"
  using assms by (auto simp: wf_host_def ip_equals_def get_address_def memeq_def)

lemma host_equals_iff:
  assumes "wf_host a" and "wf_host b" and "sa_family a = sa_family b"
  shows "host_equals a b \<longleftrightarrow> a = b"
  using assms by (auto simp: wf_host_def host_equals_def ip_equals_def memeq_def)

section \<open>Netmasks\<close>

lemma be_nat_replicate_ff: "be_nat (replicate n 0xff) = 256 ^ n - 1"
proof (induction n)
  case (Suc n)
  have "unat (0xff :: u8) = 255" by simp
  then have "be_nat (replicate (Suc n) 0xff) = 255 * 256 ^ n + (256 ^ n - 1)" using Suc by simp
  moreover have "(1::nat) \<le> 256 ^ n" by simp
  ultimately show ?case by simp
qed simp

lemma be_nat_replicate_0: "be_nat (replicate n 0) = 0"
  by (induction n) simp_all

lemma mask_byte: "k \<le> 7 \<Longrightarrow> unat (ucast (push_bit (8 - k) 0xff :: u32) :: u8) = 256 - 2 ^ (8 - k)"
proof -
  assume "k \<le> 7"
  then have "k \<in> {0, 1, 2, 3, 4, 5, 6, 7}" by auto
  then show ?thesis by auto
qed

lemma netmask_bytes_value:
  assumes "netbits \<le> 8 * len"
  shows "length (netmask_bytes len (int netbits)) = len"
    and "be_nat (netmask_bytes len (int netbits)) = 2 ^ (8 * len) - 2 ^ (8 * len - netbits)"
proof -
  define q k where "q = netbits div 8" and "k = netbits mod 8"
  have n: "netbits = 8 * q + k" "k \<le> 7" by (simp_all add: q_def k_def)
  have "int netbits AND 7 = int netbits mod 8"
    using take_bit_eq_mask [of 3 "int netbits"] by (simp add: mask_eq_exp_minus_1 take_bit_eq_mod)
  then have nat_k: "nat (int netbits AND 0x07) = k" "nat (int netbits div 8) = q"
    by (simp_all add: k_def q_def nat_mod_distrib nat_div_distrib)
  show len: "length (netmask_bytes len (int netbits)) = len"
    using assms n by (simp add: netmask_bytes_def nat_k Let_def)
  show "be_nat (netmask_bytes len (int netbits)) = 2 ^ (8 * len) - 2 ^ (8 * len - netbits)"
  proof (cases "q < len")
    case False
    then have "q = len" "k = 0" using assms n by simp_all
    then show ?thesis using n by (simp add: netmask_bytes_def nat_k Let_def be_nat_replicate_ff power_mult)
  next
    case True
    define m where "m = len - q - 1"
    have l: "len = q + 1 + m" using True by (simp add: m_def)
    have e: "8 * len - netbits = 8 * m + (8 - k)" using l n by simp
    have p: "(2::nat) ^ (8 * m + (8 - k)) = 256 ^ m * 2 ^ (8 - k)" by (simp add: power_add power_mult)
    have k8: "(2::nat) ^ (8 - k) \<le> 256"
      using power_increasing [of "8 - k" 8 "2::nat"] by simp
    have "be_nat (netmask_bytes len (int netbits))
        = (256 ^ q - 1) * 256 ^ (1 + m) + (256 - 2 ^ (8 - k)) * 256 ^ m"
      using True n(2)
      by (simp add: netmask_bytes_def nat_k Let_def be_nat_append be_nat_replicate_ff be_nat_replicate_0 m_def mask_byte)
    also have "\<dots> = 256 ^ len - 256 ^ m * 2 ^ (8 - k)"
    proof -
      have "(256 - 2 ^ (8 - k)) * (256::nat) ^ m = 256 * 256 ^ m - 256 ^ m * 2 ^ (8 - k)"
        by (simp add: diff_mult_distrib mult.commute [of "256 ^ m"])
      moreover have "(256::nat) ^ m * 2 ^ (8 - k) \<le> 256 * 256 ^ m" using k8 by (simp add: mult.commute)
      moreover have "((256::nat) ^ q - 1) * 256 ^ (1 + m) = 256 ^ len - 256 * 256 ^ m"
        by (simp add: l diff_mult_distrib power_add)
      moreover have "(256::nat) * 256 ^ m \<le> 256 ^ len" by (simp add: l power_add)
      ultimately show ?thesis by simp
    qed
    finally show ?thesis using e p by (simp add: power_mult)
  qed
qed

text \<open>
  A netmask is a contiguous prefix: for every legal prefix length the address of the created
  host, read as a network order number, has exactly its \<open>netbits\<close> leading bits set; illegal
  prefix lengths are refused.
\<close>

lemma host_netmask_correct:
  "host_create_netmask fam netbits =
     (case fam of
        AF_INET \<Rightarrow> if 0 \<le> netbits \<and> netbits \<le> 32
          then Some \<lparr>sa_family = AF_INET, sin_addr = nat_be 4 (2 ^ 32 - 2 ^ (32 - nat netbits)), sin_port = 0\<rparr> else None
      | AF_INET6 \<Rightarrow> if 0 \<le> netbits \<and> netbits \<le> 128
          then Some \<lparr>sa_family = AF_INET6, sin_addr = nat_be 16 (2 ^ 128 - 2 ^ (128 - nat netbits)), sin_port = 0\<rparr> else None
      | _ \<Rightarrow> None)"
proof -
  have v: "netmask_bytes len netbits = nat_be len (2 ^ (8 * len) - 2 ^ (8 * len - nat netbits))"
    if "0 \<le> netbits" "netbits \<le> int (8 * len)" for len
  proof -
    have le: "nat netbits \<le> 8 * len" using that by linarith
    note s = netmask_bytes_value [OF le]
    have "int (nat netbits) = netbits" using that(1) by simp
    then show ?thesis using s nat_be_be_nat [of "netmask_bytes len netbits"] by simp
  qed
  show ?thesis
    using v [of 4] v [of 16] by (auto simp: host_create_netmask_def split: family.splits)
qed

end
