(* ===== verification/Packet.thy ===== *)
theory Packet
  imports Host
begin

text \<open>
  \<open>networking/packet.c\<close>: a datagram with its endpoints. \<open>adjusted_data\<close> is the part of the data
  \<open>get_data\<close> returns; \<open>skip_bytes\<close> moves its start.
\<close>

record packet =
  pkt_source :: "host option"
  pkt_destination :: "host option"
  pkt_dscp :: u8
  pkt_data :: chunk
  adjusted_data :: chunk

definition set_source :: "packet \<Rightarrow> host option \<Rightarrow> packet" where
  "set_source this src = this\<lparr>pkt_source := src\<rparr>"

definition set_destination :: "packet \<Rightarrow> host option \<Rightarrow> packet" where
  "set_destination this dst = this\<lparr>pkt_destination := dst\<rparr>"

definition get_data :: "packet \<Rightarrow> chunk" where
  "get_data this = adjusted_data this"

definition set_data :: "packet \<Rightarrow> chunk \<Rightarrow> packet" where
  "set_data this data = this\<lparr>adjusted_data := data, pkt_data := data\<rparr>"

definition set_dscp :: "packet \<Rightarrow> u8 \<Rightarrow> packet" where
  "set_dscp this v = this\<lparr>pkt_dscp := v\<rparr>"

definition skip_bytes :: "packet \<Rightarrow> nat \<Rightarrow> packet" where
  "skip_bytes this bytes = this\<lparr>adjusted_data := chunk_skip (adjusted_data this) bytes\<rparr>"

definition packet_create_from_data :: "host option \<Rightarrow> host option \<Rightarrow> chunk \<Rightarrow> packet" where
  "packet_create_from_data src dst data =
     \<lparr>pkt_source = src, pkt_destination = dst, pkt_dscp = 0, pkt_data = data, adjusted_data = data\<rparr>"

definition packet_create :: packet where
  "packet_create = packet_create_from_data None None chunk_empty"

text \<open>A packet without data has nothing to copy; a cloned address is an equal address.\<close>

definition packet_clone :: "packet \<Rightarrow> packet" where
  "packet_clone this =
     (let other = packet_create;
          other = (if pkt_destination this \<noteq> None then set_destination other (pkt_destination this) else other);
          other = (if pkt_source this \<noteq> None then set_source other (pkt_source this) else other);
          other = (if pkt_data this \<noteq> [] then set_data other (adjusted_data this) else other)
      in set_dscp other (pkt_dscp this))"

section \<open>Adjusted data\<close>

text \<open>The data handed out is always a suffix of the data owned.\<close>

definition wf_packet :: "packet \<Rightarrow> bool" where
  "wf_packet this \<longleftrightarrow> (\<exists>n. adjusted_data this = drop n (pkt_data this))"

lemma wf_packet_ops:
  "wf_packet (packet_create_from_data src dst data)" "wf_packet (set_data this data)"
  "wf_packet this \<Longrightarrow> wf_packet (skip_bytes this n)"
  "wf_packet this \<Longrightarrow> wf_packet (set_source this src)" "wf_packet this \<Longrightarrow> wf_packet (set_destination this dst)"
  "wf_packet this \<Longrightarrow> wf_packet (set_dscp this d)"
proof -
  show "wf_packet (packet_create_from_data src dst data)" "wf_packet (set_data this data)"
    by (auto simp: wf_packet_def packet_create_from_data_def set_data_def intro: exI [of _ 0])
  assume "wf_packet this"
  then obtain k where k: "adjusted_data this = drop k (pkt_data this)" by (auto simp: wf_packet_def)
  show "wf_packet (set_source this src)" "wf_packet (set_destination this dst)" "wf_packet (set_dscp this d)"
    using k by (auto simp: wf_packet_def set_source_def set_destination_def set_dscp_def)
  have "chunk_skip (adjusted_data this) n = drop (k + n) (pkt_data this)"
    using k by (simp add: chunk_skip_def add.commute)
  then show "wf_packet (skip_bytes this n)" by (auto simp: wf_packet_def skip_bytes_def)
qed

text \<open>A clone shows the same endpoints, marking and data; bytes skipped before are gone.\<close>

lemma packet_clone_view:
  assumes "wf_packet this"
  shows "packet_clone this = this\<lparr>pkt_data := adjusted_data this\<rparr>"
  using assms
  by (cases this)
    (auto simp: wf_packet_def packet_clone_def packet_create_def packet_create_from_data_def Let_def
      set_source_def set_destination_def set_data_def set_dscp_def)

end
