(* ===== verification/Ip_Packet.thy ===== *)
theory Ip_Packet
  imports Host
begin

unbundle bit_operations_syntax

text \<open>
  \<open>libipsec/ip_packet.c\<close>: parsing of IPv4 and IPv6 packets with their transport headers, and
  creation of packets from data. Packet memory is a byte list; header fields are read at their
  offsets, in network order. \<open>next_header\<close> values are the protocol numbers.
\<close>

record ip_packet =
  ip_src :: host
  ip_dst :: host
  ip_packet :: chunk
  ip_payload :: chunk
  ip_version :: u8
  ip_next_header :: u8

abbreviation (input) IPPROTO_TCP :: u8 where "IPPROTO_TCP \<equiv> 6"
abbreviation (input) IPPROTO_UDP :: u8 where "IPPROTO_UDP \<equiv> 17"
abbreviation (input) IP_OFFMASK :: u16 where "IP_OFFMASK \<equiv> 0x1fff"

section \<open>Parsing\<close>

definition parse_transport_header :: "chunk \<Rightarrow> u8 \<Rightarrow> u16 \<times> u16 \<Rightarrow> (u16 \<times> u16) option" where
  "parse_transport_header packet proto ports =
     (if proto = IPPROTO_UDP then
        if length packet < 8 then None else Some (untoh16 packet, untoh16 (drop 2 packet))
      else if proto = IPPROTO_TCP then
        if length packet < 20 then None else Some (untoh16 packet, untoh16 (drop 2 packet))
      else Some ports)"

text \<open>The loop over the extension headers; each round drops at least eight bytes.\<close>

function parse_ext_headers :: "bool \<Rightarrow> chunk \<Rightarrow> u8 \<Rightarrow> u16 \<times> u16 \<Rightarrow> (chunk \<times> u8 \<times> u16 \<times> u16) option" where
  "parse_ext_headers fragment payload proto ports =
     (if length payload \<ge> 2 then
        if proto \<in> {44, 0, 43, 60, 135, 139, 140}
        then parse_ext_headers (fragment \<or> proto = 44)
               (chunk_skip payload (8 * (unat (payload ! 1) + 1))) (payload ! 0) ports
        else if fragment then Some (payload, proto, ports)
        else (case parse_transport_header payload proto ports of
            None \<Rightarrow> None
          | Some ports' \<Rightarrow> Some (payload, proto, ports'))
      else Some (payload, proto, ports))"
  by pat_completeness auto
termination by (relation "measure (\<lambda>(f, payload, p, s). length payload)") (auto simp: chunk_skip_def)

declare parse_ext_headers.simps [simp del]

definition parse_transport_header_v6 :: "u8 \<Rightarrow> chunk \<Rightarrow> u16 \<times> u16 \<Rightarrow> (chunk \<times> u8 \<times> u16 \<times> u16) option" where
  "parse_transport_header_v6 ip6_nxt packet ports = parse_ext_headers False (chunk_skip packet 40) ip6_nxt ports"

text \<open>
  \<open>ip\<close> is the received memory the header fields are read from, \<open>packet\<close> the chunk after any TFC
  padding has been removed.
\<close>

definition ip_packet_create_v4 :: "chunk \<Rightarrow> ip_packet option" where
  "ip_packet_create_v4 ip =
     (if length ip < 20 then None
      else let packet = take (min (length ip) (unat (untoh16 (drop 2 ip)))) ip;
               payload = chunk_skip packet (unat (ip ! 0 AND 0x0f) * 4);
               proto = ip ! 9
           in case (if untoh16 (drop 6 ip) AND IP_OFFMASK = 0
                    then parse_transport_header payload proto (0, 0) else Some (0, 0)) of
                None \<Rightarrow> None
              | Some (sport, dport) \<Rightarrow>
                  (case (host_create_from_chunk AF_INET (take 4 (drop 12 ip)) sport,
                         host_create_from_chunk AF_INET (take 4 (drop 16 ip)) dport) of
                     (Some src, Some dst) \<Rightarrow>
                       Some \<lparr>ip_src = src, ip_dst = dst, ip_packet = packet, ip_payload = payload,
                             ip_version = 4, ip_next_header = proto\<rparr>
                   | _ \<Rightarrow> None))"

definition ip_packet_create_v6 :: "chunk \<Rightarrow> ip_packet option" where
  "ip_packet_create_v6 ip =
     (if length ip < 40 then None
      else let packet = take (min (length ip) (40 + unat (untoh16 (drop 4 ip)))) ip
           in case parse_transport_header_v6 (ip ! 6) packet (0, 0) of
                None \<Rightarrow> None
              | Some (payload, proto, sport, dport) \<Rightarrow>
                  (case (host_create_from_chunk AF_INET6 (take 16 (drop 8 ip)) sport,
                         host_create_from_chunk AF_INET6 (take 16 (drop 24 ip)) dport) of
                     (Some src, Some dst) \<Rightarrow>
                       Some \<lparr>ip_src = src, ip_dst = dst, ip_packet = packet, ip_payload = payload,
                             ip_version = 6, ip_next_header = proto\<rparr>
                   | _ \<Rightarrow> None))"

definition ip_packet_create :: "chunk \<Rightarrow> ip_packet option" where
  "ip_packet_create packet =
     (if length packet < 1 then None
      else let version = drop_bit 4 (packet ! 0 AND 0xf0)
           in if version = 4 then ip_packet_create_v4 packet
              else if version = 6 then ip_packet_create_v6 packet
              else None)"

definition ip_packet_clone :: "ip_packet \<Rightarrow> ip_packet option" where
  "ip_packet_clone this = ip_packet_create (ip_packet this)"

section \<open>Creation\<close>

definition pseudo_header :: "host \<Rightarrow> host \<Rightarrow> u8 \<Rightarrow> chunk \<Rightarrow> chunk option" where
  "pseudo_header src dst proto payload =
     (case get_family src of
        AF_INET \<Rightarrow> Some (take 4 (get_address src) @ take 4 (get_address dst)
                         @ [0, proto] @ mem16 (htons (of_nat (length payload))))
      | AF_INET6 \<Rightarrow> Some (take 16 (get_address src) @ take 16 (get_address dst)
                          @ mem32 (ucast (htons (of_nat (length payload)))) @ [0, 0, 0, proto])
      | _ \<Rightarrow> None)"

definition pseudo_header_checksum :: "host \<Rightarrow> host \<Rightarrow> u8 \<Rightarrow> chunk \<Rightarrow> u16" where
  "pseudo_header_checksum src dst proto payload =
     (case pseudo_header src dst proto payload of
        Some pseudo \<Rightarrow> chunk_internet_checksum pseudo
      | None \<Rightarrow> 0xffff)"

definition set_ports :: "host \<Rightarrow> host \<Rightarrow> chunk \<Rightarrow> chunk" where
  "set_ports src dst payload =
     (let p1 = (if get_port src \<noteq> 0 then memcpy_at payload 0 (mem16 (htons (get_port src))) else payload)
      in if get_port dst \<noteq> 0 then memcpy_at p1 2 (mem16 (htons (get_port dst))) else p1)"

text \<open>The checksum field lies at offset 6 of a UDP and at offset 16 of a TCP header.\<close>

definition set_check :: "host \<Rightarrow> host \<Rightarrow> u8 \<Rightarrow> nat \<Rightarrow> chunk \<Rightarrow> chunk" where
  "set_check src dst proto off payload =
     (let p0 = memcpy_at payload off (mem16 0);
          acc = pseudo_header_checksum src dst proto p0
      in memcpy_at p0 off (mem16 (chunk_internet_checksum_inc p0 acc)))"

definition fix_transport_header :: "host \<Rightarrow> host \<Rightarrow> u8 \<Rightarrow> chunk \<Rightarrow> chunk" where
  "fix_transport_header src dst proto payload =
     (if proto = IPPROTO_UDP then
        if length payload < 8 then payload else set_check src dst proto 6 (set_ports src dst payload)
      else if proto = IPPROTO_TCP then
        if length payload < 20 then payload else set_check src dst proto 16 (set_ports src dst payload)
      else payload)"

definition ipv4_header :: "host \<Rightarrow> host \<Rightarrow> u8 \<Rightarrow> nat \<Rightarrow> u16 \<Rightarrow> chunk" where
  "ipv4_header src dst nh len ip_sum =
     [0x45, 0] @ mem16 (htons (of_nat (20 + len))) @ [0, 0] @ [0, 0] @ [0x80, nh] @ mem16 ip_sum
     @ take 4 (get_address src) @ take 4 (get_address dst)"

definition ipv6_header :: "host \<Rightarrow> host \<Rightarrow> u8 \<Rightarrow> nat \<Rightarrow> chunk" where
  "ipv6_header src dst nh len =
     mem32 (htonl 6) @ mem16 (htons (of_nat len)) @ [nh, 0x80]
     @ take 16 (get_address src) @ take 16 (get_address dst)"

definition ip_packet_create_from_data :: "host \<Rightarrow> host \<Rightarrow> u8 \<Rightarrow> chunk \<Rightarrow> ip_packet option" where
  "ip_packet_create_from_data src dst nh data =
     (if get_family src \<noteq> get_family dst then None
      else case get_family src of
        AF_INET \<Rightarrow>
          (let ip_sum = chunk_internet_checksum (ipv4_header src dst nh (length data) 0);
               packet = ipv4_header src dst nh (length data) ip_sum @ data
           in ip_packet_create (take 20 packet @ fix_transport_header src dst nh (chunk_skip packet 20)))
      | AF_INET6 \<Rightarrow>
          (let packet = ipv6_header src dst nh (length data) @ data
           in ip_packet_create (take 40 packet @ fix_transport_header src dst nh (chunk_skip packet 40)))
      | _ \<Rightarrow> None)"

definition ip_packet_create_udp_from_data :: "host \<Rightarrow> host \<Rightarrow> chunk \<Rightarrow> ip_packet option" where
  "ip_packet_create_udp_from_data src dst data =
     (let udp = [0, 0] @ [0, 0] @ mem16 (htons (of_nat (8 + length data))) @ mem16 0
      in ip_packet_create_from_data src dst IPPROTO_UDP (udp @ data))"

section \<open>Parsed packets\<close>

definition wf_ip_packet :: "ip_packet \<Rightarrow> bool" where
  "wf_ip_packet p \<longleftrightarrow>
     wf_host (ip_src p) \<and> wf_host (ip_dst p)
     \<and> (ip_version p = 4 \<and> get_family (ip_src p) = AF_INET \<and> get_family (ip_dst p) = AF_INET
        \<or> ip_version p = 6 \<and> get_family (ip_src p) = AF_INET6 \<and> get_family (ip_dst p) = AF_INET6)
     \<and> (\<exists>hdr. ip_packet p = hdr @ ip_payload p)
     \<and> (get_port (ip_src p) = 0 \<and> get_port (ip_dst p) = 0
        \<or> ip_next_header p \<in> {IPPROTO_UDP, IPPROTO_TCP} \<and> 8 \<le> length (ip_payload p)
          \<and> get_port (ip_src p) = untoh16 (ip_payload p)
          \<and> get_port (ip_dst p) = untoh16 (drop 2 (ip_payload p)))"

lemma chunk_skip_suffix: "\<exists>hdr. c = hdr @ chunk_skip c n"
  unfolding chunk_skip_def by (metis append_Nil2 append_take_drop_id)

lemma parse_transport_header_ports:
  assumes "parse_transport_header payload proto (0, 0) = Some (sport, dport)"
  shows "sport = 0 \<and> dport = 0
    \<or> proto \<in> {IPPROTO_UDP, IPPROTO_TCP} \<and> 8 \<le> length payload
      \<and> sport = untoh16 payload \<and> dport = untoh16 (drop 2 payload)"
  using assms by (auto simp: parse_transport_header_def split: if_splits)

lemma parse_ext_headers_result:
  assumes "parse_ext_headers fragment payload proto (0, 0) = Some (payload', proto', sport, dport)"
  shows "(\<exists>hdr. payload = hdr @ payload')
    \<and> (sport = 0 \<and> dport = 0
       \<or> proto' \<in> {IPPROTO_UDP, IPPROTO_TCP} \<and> 8 \<le> length payload'
         \<and> sport = untoh16 payload' \<and> dport = untoh16 (drop 2 payload'))"
  using assms
proof (induction fragment payload proto "(0, 0) :: u16 \<times> u16" rule: parse_ext_headers.induct)
  case (1 fragment payload proto)
  show ?case
  proof (cases "2 \<le> length payload \<and> proto \<in> {44, 0, 43, 60, 135, 139, 140}")
    case True
    let ?next = "chunk_skip payload (8 * (unat (payload ! 1) + 1))"
    have "parse_ext_headers (fragment \<or> proto = 44) ?next (payload ! 0) (0, 0) = Some (payload', proto', sport, dport)"
      using 1(2) True by (subst (asm) parse_ext_headers.simps) (simp split: if_splits)
    from 1(1) [OF _ _ this] have IH: "(\<exists>hdr. ?next = hdr @ payload')
      \<and> (sport = 0 \<and> dport = 0
         \<or> proto' \<in> {IPPROTO_UDP, IPPROTO_TCP} \<and> 8 \<le> length payload'
           \<and> sport = untoh16 payload' \<and> dport = untoh16 (drop 2 payload'))"
      using True by blast
    moreover obtain hdr where "payload = hdr @ ?next" using chunk_skip_suffix by blast
    ultimately show ?thesis by (metis append.assoc)
  next
    case False
    then have "Some (payload', proto', sport, dport) =
        (if length payload \<ge> 2 \<and> \<not> fragment
         then case parse_transport_header payload proto (0, 0) of
             None \<Rightarrow> None | Some ports' \<Rightarrow> Some (payload, proto, ports')
         else Some (payload, proto, 0, 0))"
      using 1(2) by (subst (asm) parse_ext_headers.simps) (auto split: if_splits)
    then show ?thesis
      using parse_transport_header_ports [of payload proto sport dport]
      by (auto split: if_splits option.splits)
  qed
qed

lemma wf_created_host:
  "host_create_from_chunk AF_INET a port = Some h \<Longrightarrow> wf_host h \<and> get_family h = AF_INET \<and> get_port h = port"
  "host_create_from_chunk AF_INET6 a port = Some h \<Longrightarrow> wf_host h \<and> get_family h = AF_INET6 \<and> get_port h = port"
  by (auto simp: host_create_from_chunk_def wf_host_def get_family_def get_port_def split: if_splits)

lemma ip_packet_create_v4_wf: "ip_packet_create_v4 ip = Some p \<Longrightarrow> wf_ip_packet p \<and> (\<exists>pad. ip = ip_packet p @ pad)"
proof -
  assume "ip_packet_create_v4 ip = Some p"
  then obtain sport dport src dst where
    ports: "(if untoh16 (drop 6 ip) AND IP_OFFMASK = 0
       then parse_transport_header (ip_payload p) (ip_next_header p) (0, 0) else Some (0, 0)) = Some (sport, dport)"
    and hosts: "host_create_from_chunk AF_INET (take 4 (drop 12 ip)) sport = Some src"
      "host_create_from_chunk AF_INET (take 4 (drop 16 ip)) dport = Some dst"
    and p: "ip_src p = src" "ip_dst p = dst" "ip_version p = 4"
      "ip_packet p = take (min (length ip) (unat (untoh16 (drop 2 ip)))) ip"
      "ip_payload p = chunk_skip (ip_packet p) (unat (ip ! 0 AND 0x0f) * 4)"
    by (auto simp: ip_packet_create_v4_def Let_def split: if_splits option.splits prod.splits)
  have "sport = 0 \<and> dport = 0
    \<or> ip_next_header p \<in> {IPPROTO_UDP, IPPROTO_TCP} \<and> 8 \<le> length (ip_payload p)
      \<and> sport = untoh16 (ip_payload p) \<and> dport = untoh16 (drop 2 (ip_payload p))"
    using ports parse_transport_header_ports by (auto split: if_splits)
  moreover have "\<exists>hdr. ip_packet p = hdr @ ip_payload p" unfolding p(5) by (rule chunk_skip_suffix)
  moreover have "\<exists>pad. ip = ip_packet p @ pad" unfolding p(4) by (metis append_take_drop_id)
  ultimately show ?thesis
    using wf_created_host(1) [OF hosts(1)] wf_created_host(1) [OF hosts(2)] p(1-3) by (simp add: wf_ip_packet_def)
qed

lemma ip_packet_create_v6_wf: "ip_packet_create_v6 ip = Some p \<Longrightarrow> wf_ip_packet p \<and> (\<exists>pad. ip = ip_packet p @ pad)"
proof -
  assume "ip_packet_create_v6 ip = Some p"
  then obtain sport dport src dst where
    ports: "parse_ext_headers False (chunk_skip (ip_packet p) 40) (ip ! 6) (0, 0)
       = Some (ip_payload p, ip_next_header p, sport, dport)"
    and hosts: "host_create_from_chunk AF_INET6 (take 16 (drop 8 ip)) sport = Some src"
      "host_create_from_chunk AF_INET6 (take 16 (drop 24 ip)) dport = Some dst"
    and p: "ip_src p = src" "ip_dst p = dst" "ip_version p = 6"
      "ip_packet p = take (min (length ip) (40 + unat (untoh16 (drop 4 ip)))) ip"
    by (auto simp: ip_packet_create_v6_def parse_transport_header_v6_def Let_def
        split: if_splits option.splits prod.splits)
  note r = parse_ext_headers_result [OF ports]
  have "\<exists>hdr. ip_packet p = hdr @ ip_payload p"
    using r chunk_skip_suffix [of "ip_packet p" 40] by (metis append.assoc)
  moreover have "\<exists>pad. ip = ip_packet p @ pad" unfolding p(4) by (metis append_take_drop_id)
  ultimately show ?thesis
    using r wf_created_host(2) [OF hosts(1)] wf_created_host(2) [OF hosts(2)] p(1-3)
    by (simp add: wf_ip_packet_def)
qed

lemma ip_packet_create_cases:
  assumes "ip_packet_create packet = Some p"
  shows "ip_packet_create_v4 packet = Some p \<and> ip_version p = 4 \<and> drop_bit 4 (packet ! 0 AND 0xf0) = 4
    \<or> ip_packet_create_v6 packet = Some p \<and> ip_version p = 6 \<and> drop_bit 4 (packet ! 0 AND 0xf0) = 6"
  using assms
  by (auto simp: ip_packet_create_def ip_packet_create_v4_def ip_packet_create_v6_def Let_def
      split: if_splits option.splits prod.splits)


definition demo_udp :: chunk where
  "demo_udp = [0x45, 0, 0, 29, 0, 0, 0, 0, 0x80, 17, 0, 0, 10, 0, 0, 1, 10, 0, 0, 2,
     0, 53, 0, 99, 0, 9, 0, 0, 0xAA]"

lemma demo_udp_parsed:
  "ip_packet_create (demo_udp @ [0, 0]) = Some
     \<lparr>ip_src = \<lparr>sa_family = AF_INET, sin_addr = [10, 0, 0, 1], sin_port = htons 53\<rparr>,
      ip_dst = \<lparr>sa_family = AF_INET, sin_addr = [10, 0, 0, 2], sin_port = htons 99\<rparr>,
      ip_packet = demo_udp, ip_payload = drop 20 demo_udp, ip_version = 4, ip_next_header = 17\<rparr>"
  by (simp add: ip_packet_create_def ip_packet_create_v4_def demo_udp_def Let_def untoh16_def
      parse_transport_header_def chunk_skip_def host_create_from_chunk_def)


section \<open>Cloning\<close>

lemma untoh16_take: "n + 2 \<le> m \<Longrightarrow> untoh16 (drop n (take m xs)) = untoh16 (drop n xs)"
  by (simp add: untoh16_def drop_take min_absorb1)

lemma take_drop_take: "n + k \<le> m \<Longrightarrow> take k (drop n (take m xs)) = take k (drop n xs)"
  by (simp add: drop_take min_absorb1)

lemma ip_packet_create_v4_trim:
  assumes "ip_packet_create_v4 ip = Some p" and "20 \<le> length (ip_packet p)"
  shows "ip_packet_create_v4 (ip_packet p) = Some p"
proof -
  define n where "n = min (length ip) (unat (untoh16 (drop 2 ip)))"
  have p: "ip_packet p = take n ip"
    using assms(1) by (auto simp: ip_packet_create_v4_def Let_def n_def split: if_splits option.splits prod.splits)
  then have "20 \<le> n" "n \<le> length ip" using assms(2) by (simp_all add: n_def)
  then have f: "untoh16 (drop 2 (take n ip)) = untoh16 (drop 2 ip)" "untoh16 (drop 6 (take n ip)) = untoh16 (drop 6 ip)"
    "take 4 (drop 12 (take n ip)) = take 4 (drop 12 ip)" "take 4 (drop 16 (take n ip)) = take 4 (drop 16 ip)"
    "take n ip ! 0 = ip ! 0" "take n ip ! 9 = ip ! 9" "length (take n ip) = n"
    by (simp_all add: untoh16_take take_drop_take)
  have m: "take (min n (unat (untoh16 (drop 2 ip)))) (take n ip) = take n ip"
    by (simp add: n_def)
  have "ip_packet_create_v4 (take n ip) = ip_packet_create_v4 ip"
    unfolding ip_packet_create_v4_def f m using \<open>20 \<le> n\<close> \<open>n \<le> length ip\<close> by (simp add: n_def [symmetric])
  then show ?thesis using p assms(1) by simp
qed

lemma ip_packet_create_v6_trim:
  assumes "ip_packet_create_v6 ip = Some p"
  shows "ip_packet_create_v6 (ip_packet p) = Some p \<and> 40 \<le> length (ip_packet p)"
proof -
  define n where "n = min (length ip) (40 + unat (untoh16 (drop 4 ip)))"
  have p: "ip_packet p = take n ip" and "40 \<le> length ip"
    using assms by (auto simp: ip_packet_create_v6_def Let_def n_def split: if_splits option.splits prod.splits)
  then have "40 \<le> n" "n \<le> length ip" by (simp_all add: n_def)
  then have f: "untoh16 (drop 4 (take n ip)) = untoh16 (drop 4 ip)"
    "take 16 (drop 8 (take n ip)) = take 16 (drop 8 ip)" "take 16 (drop 24 (take n ip)) = take 16 (drop 24 ip)"
    "take n ip ! 6 = ip ! 6" "length (take n ip) = n"
    by (simp_all add: untoh16_take take_drop_take)
  have m: "take (min n (40 + unat (untoh16 (drop 4 ip)))) (take n ip) = take n ip"
    by (simp add: n_def)
  have "ip_packet_create_v6 (take n ip) = ip_packet_create_v6 ip"
    unfolding ip_packet_create_v6_def f m using \<open>40 \<le> n\<close> \<open>n \<le> length ip\<close> by (simp add: n_def [symmetric])
  then show ?thesis using p assms \<open>40 \<le> n\<close> \<open>n \<le> length ip\<close> by simp
qed

text \<open>
  Cloning a parsed packet, which parses its trimmed encoding again, gives an equal packet
  whenever the encoding covers the fixed IPv4 header; it always does for IPv6.
\<close>

lemma ip_packet_clone_equal:
  assumes "ip_packet_create packet = Some p" and "ip_version p = 4 \<Longrightarrow> 20 \<le> length (ip_packet p)"
  shows "ip_packet_clone p = Some p"
proof -
  obtain pad where pad: "packet = ip_packet p @ pad"
    using ip_packet_create_cases [OF assms(1)] ip_packet_create_v4_wf ip_packet_create_v6_wf by blast
  from ip_packet_create_cases [OF assms(1)] show ?thesis
  proof
    assume 4: "ip_packet_create_v4 packet = Some p \<and> ip_version p = 4 \<and> drop_bit 4 (packet ! 0 AND 0xf0) = 4"
    then have "ip_packet_create_v4 (ip_packet p) = Some p" "20 \<le> length (ip_packet p)"
      using ip_packet_create_v4_trim assms(2) by blast+
    then show ?thesis using 4 pad by (auto simp: ip_packet_clone_def ip_packet_create_def nth_append)
  next
    assume 6: "ip_packet_create_v6 packet = Some p \<and> ip_version p = 6 \<and> drop_bit 4 (packet ! 0 AND 0xf0) = 6"
    then have "ip_packet_create_v6 (ip_packet p) = Some p" "40 \<le> length (ip_packet p)"
      using ip_packet_create_v6_trim by blast+
    then show ?thesis using 6 pad by (auto simp: ip_packet_clone_def ip_packet_create_def nth_append)
  qed
qed

theorem ip_packet_clone_equal_witness:
  "\<exists>p. ip_packet_create (demo_udp @ [0, 0]) = Some p \<and> ip_packet_clone p = Some p"
proof (intro exI conjI)
  show "ip_packet_clone (the (ip_packet_create (demo_udp @ [0, 0]))) = Some (the (ip_packet_create (demo_udp @ [0, 0])))"
    by (rule ip_packet_clone_equal [of "demo_udp @ [0, 0]"]) (simp_all add: demo_udp_parsed, simp add: demo_udp_def)
qed (simp add: demo_udp_parsed)

text \<open>
  A total length below the size of the header is not refused: the packet is accepted with an
  encoding that has no complete header, and its clone is \<open>NULL\<close>.
\<close>

lemma ip_packet_short_total_length:
  "\<exists>p. ip_packet_create [0x45, 0, 0, 0, 0, 0, 0, 0, 0x80, 50, 0, 0, 10, 0, 0, 1, 10, 0, 0, 2] = Some p
    \<and> ip_packet p = [] \<and> ip_packet_clone p = None"
  by (simp add: ip_packet_create_def ip_packet_create_v4_def Let_def untoh16_def ip_packet_clone_def
      parse_transport_header_def chunk_skip_def host_create_from_chunk_def)

section \<open>Created packets\<close>

lemma memcpy_at_low: "off \<le> length m \<Longrightarrow> n + k \<le> off \<Longrightarrow> take k (drop n (memcpy_at m off d)) = take k (drop n m)"
  by (simp add: memcpy_at_def drop_take min_absorb1 drop_append take_append)

lemma length_mem16 [simp]: "length (mem16 v) = 2"
  by (simp add: mem16_def)

lemma length_mem32 [simp]: "length (mem32 v) = 4"
  by (simp add: mem32_def)

lemma set_ports_split:
  assumes "data = a # b # c # e # rest"
  shows "set_ports src dst data =
    (if get_port src \<noteq> 0 then htoun16 (get_port src) else [a, b])
    @ (if get_port dst \<noteq> 0 then htoun16 (get_port dst) else [c, e]) @ rest"
  using assms by (simp add: set_ports_def memcpy_at_def Let_def numeral_2_eq_2)

lemma set_ports_read:
  assumes "4 \<le> length data"
  shows "length (set_ports src dst data) = length data"
    and "untoh16 (set_ports src dst data) = (if get_port src \<noteq> 0 then get_port src else untoh16 data)"
    and "untoh16 (drop 2 (set_ports src dst data)) = (if get_port dst \<noteq> 0 then get_port dst else untoh16 (drop 2 data))"
    and "drop 4 (set_ports src dst data) = drop 4 data"
proof -
  obtain a b c e rest where d: "data = a # b # c # e # rest"
    using assms by (auto simp: numeral_eq_Suc Suc_le_length_iff)
  show "length (set_ports src dst data) = length data" by (simp add: set_ports_split [OF d]) (simp add: d)
  show "untoh16 (set_ports src dst data) = (if get_port src \<noteq> 0 then get_port src else untoh16 data)"
    by (simp add: set_ports_split [OF d]) (simp add: d untoh16_def numeral_2_eq_2)
  show "untoh16 (drop 2 (set_ports src dst data)) = (if get_port dst \<noteq> 0 then get_port dst else untoh16 (drop 2 data))"
    by (simp add: set_ports_split [OF d]) (simp add: d untoh16_def numeral_2_eq_2)
  show "drop 4 (set_ports src dst data) = drop 4 data"
    by (simp add: set_ports_split [OF d]) (simp add: d)
qed

lemma pseudo_header_length: "length p = length q \<Longrightarrow> pseudo_header src dst proto p = pseudo_header src dst proto q"
  by (simp add: pseudo_header_def split: family.split)

lemma pseudo_header_even:
  assumes "pseudo_header src dst proto p = Some ps" and "wf_host src" and "wf_host dst" and "get_family src = get_family dst"
  shows "even (length ps) \<and> length ps = (if get_family src = AF_INET then 12 else 40)"
  using assms by (auto simp: pseudo_header_def wf_host_def get_family_def get_address_def split: family.splits)

lemma set_check_spec:
  assumes "even off" and "off + 2 \<le> length p" and "length ps + length p \<le> 65536"
    and "pseudo_header src dst proto p = Some ps" and "wf_host src" and "wf_host dst" and "get_family src = get_family dst"
  shows "length (set_check src dst proto off p) = length p"
    and "chunk_internet_checksum (ps @ set_check src dst proto off p) = 0"
proof -
  define p0 where "p0 = memcpy_at p off (mem16 0)"
  have p0: "p0 = take off p @ [0, 0] @ drop (off + 2) p" "length p0 = length p"
    using assms(2) by (simp_all add: p0_def memcpy_at_def mem16_0)
  have "pseudo_header src dst proto p0 = Some ps" using pseudo_header_length [OF p0(2)] assms(4) by simp
  then have c: "set_check src dst proto off p
      = take off p @ mem16 (chunk_internet_checksum_inc p0 (chunk_internet_checksum ps)) @ drop (off + 2) p"
    using assms(2)
    by (simp add: set_check_def Let_def p0_def [symmetric] pseudo_header_checksum_def)
      (simp add: p0(1) memcpy_at_def)
  then show l: "length (set_check src dst proto off p) = length p" using assms(2) by simp
  note ev = pseudo_header_even [OF assms(4-7)]
  have "chunk_internet_checksum (ps @ set_check src dst proto off p)
      = chunk_internet_checksum_inc (set_check src dst proto off p) (chunk_internet_checksum ps)"
    using ev assms(3) l by (intro checksum_inc_append [symmetric]) simp_all
  also have "\<dots> = 0"
    unfolding c p0(1) using assms(1-3) by (intro checksum_inc_embedded) simp_all
  finally show "chunk_internet_checksum (ps @ set_check src dst proto off p) = 0" .
qed

lemma set_check_split:
  assumes "off + 2 \<le> length p"
  obtains c where "set_check src dst proto off p = take off p @ mem16 c @ drop (off + 2) p"
  using assms by (simp add: set_check_def Let_def memcpy_at_def mem16_0)

lemma untoh16_set_check:
  assumes "4 \<le> off" and "off + 2 \<le> length p"
  shows "untoh16 (set_check src dst proto off p) = untoh16 p"
    and "untoh16 (drop 2 (set_check src dst proto off p)) = untoh16 (drop 2 p)"
  using assms memcpy_at_low [of off p 0 2 "mem16 0"] memcpy_at_low [of off p 2 2 "mem16 0"]
  by (simp_all add: untoh16_def set_check_def Let_def memcpy_at_low memcpy_at_low [of _ _ 0, simplified])

lemma fix_transport_header_spec:
  assumes "nh = IPPROTO_UDP \<Longrightarrow> 8 \<le> length data" and "nh = IPPROTO_TCP \<Longrightarrow> 20 \<le> length data"
    and "pseudo_header src dst nh data = Some ps" and "length ps + length data \<le> 65536"
    and "wf_host src" and "wf_host dst" and "get_family src = get_family dst"
  defines "p \<equiv> fix_transport_header src dst nh data"
  shows "length p = length data"
    and "nh \<in> {IPPROTO_UDP, IPPROTO_TCP} \<Longrightarrow> chunk_internet_checksum (ps @ p) = 0"
    and "nh \<in> {IPPROTO_UDP, IPPROTO_TCP} \<Longrightarrow>
      untoh16 p = (if get_port src \<noteq> 0 then get_port src else untoh16 data)
      \<and> untoh16 (drop 2 p) = (if get_port dst \<noteq> 0 then get_port dst else untoh16 (drop 2 data))"
proof -
  let ?d = "set_ports src dst data"
  have *: "length p = length data \<and> chunk_internet_checksum (ps @ p) = 0
    \<and> untoh16 p = (if get_port src \<noteq> 0 then get_port src else untoh16 data)
    \<and> untoh16 (drop 2 p) = (if get_port dst \<noteq> 0 then get_port dst else untoh16 (drop 2 data))"
    if o: "p = set_check src dst nh off ?d" "even off" "4 \<le> off" "off + 2 \<le> length data" for off
  proof -
    have "4 \<le> length data" using o by simp
    note d = set_ports_read [OF this, of src dst]
    have "pseudo_header src dst nh ?d = Some ps" using assms(3) d(1) pseudo_header_length by metis
    note c = set_check_spec [OF o(2) _ _ this assms(5-7)]
    show ?thesis using c [unfolded d(1), OF o(4) assms(4)] untoh16_set_check [OF o(3), of ?d src dst nh, unfolded d(1), OF o(4)]
      d(2,3) o(1) by simp
  qed
  consider "nh = IPPROTO_UDP" | "nh = IPPROTO_TCP" | "nh \<noteq> IPPROTO_UDP" "nh \<noteq> IPPROTO_TCP" by blast
  then have "length p = length data \<and> (nh \<in> {IPPROTO_UDP, IPPROTO_TCP} \<longrightarrow> chunk_internet_checksum (ps @ p) = 0
    \<and> untoh16 p = (if get_port src \<noteq> 0 then get_port src else untoh16 data)
    \<and> untoh16 (drop 2 p) = (if get_port dst \<noteq> 0 then get_port dst else untoh16 (drop 2 data)))"
  proof cases
    case 1
    then have "p = set_check src dst nh 6 ?d" "8 \<le> length data" using assms(1) by (simp_all add: p_def fix_transport_header_def)
    then show ?thesis using * [of 6] by simp
  next
    case 2
    then have "p = set_check src dst nh 16 ?d" "20 \<le> length data" using assms(2) by (simp_all add: p_def fix_transport_header_def)
    then show ?thesis using * [of 16] by simp
  next
    case 3
    then show ?thesis by (simp add: p_def fix_transport_header_def)
  qed
  then show "length p = length data"
    and "nh \<in> {IPPROTO_UDP, IPPROTO_TCP} \<Longrightarrow> chunk_internet_checksum (ps @ p) = 0"
    and "nh \<in> {IPPROTO_UDP, IPPROTO_TCP} \<Longrightarrow>
      untoh16 p = (if get_port src \<noteq> 0 then get_port src else untoh16 data)
      \<and> untoh16 (drop 2 p) = (if get_port dst \<noteq> 0 then get_port dst else untoh16 (drop 2 data))"
    by blast+
qed

lemma length_ipv4_header:
  "wf_host src \<Longrightarrow> wf_host dst \<Longrightarrow> get_family src = AF_INET \<Longrightarrow> get_family dst = AF_INET \<Longrightarrow>
    length (ipv4_header src dst nh len ip_sum) = 20"
  by (simp add: ipv4_header_def length_get_address get_family_def)

lemma ipv4_header_checksum:
  assumes "wf_host src" and "wf_host dst" and "get_family src = AF_INET" and "get_family dst = AF_INET"
  shows "chunk_internet_checksum
    (ipv4_header src dst nh len (chunk_internet_checksum (ipv4_header src dst nh len 0))) = 0"
proof -
  let ?xs = "[0x45, 0] @ mem16 (htons (of_nat (20 + len))) @ [0, 0] @ [0, 0] @ [0x80, nh]"
  let ?ys = "take 4 (get_address src) @ take 4 (get_address dst)"
  have "ipv4_header src dst nh len s = ?xs @ mem16 s @ ?ys" for s by (simp add: ipv4_header_def)
  then show ?thesis
    using checksum_embedded [of ?xs ?ys] by (simp only: mem16_0) simp
qed

text \<open>The parser on a created header.\<close>

lemma ip_packet_create_ipv4_header:
  assumes "wf_host src" and "wf_host dst" and "get_family src = AF_INET" and "get_family dst = AF_INET"
    and "20 + length data < 65536" and "parse_transport_header data nh (0, 0) = Some (sport, dport)"
  shows "ip_packet_create (ipv4_header src dst nh (length data) ip_sum @ data) = Some
    \<lparr>ip_src = set_port src sport, ip_dst = set_port dst dport,
     ip_packet = ipv4_header src dst nh (length data) ip_sum @ data, ip_payload = data,
     ip_version = 4, ip_next_header = nh\<rparr>"
proof -
  obtain a0 a1 a2 a3 b0 b1 b2 b3 where ab: "get_address src = [a0, a1, a2, a3]" "get_address dst = [b0, b1, b2, b3]"
    using length_get_address [OF assms(1)] length_get_address [OF assms(2)] assms(3,4)
    by (auto simp: get_family_def length_Suc_conv numeral_eq_Suc)
  obtain l0 l1 s0 s1 where ls: "htoun16 (of_nat (20 + length data)) = [l0, l1]" "mem16 ip_sum = [s0, s1]"
    using length_htoun(1) [of "of_nat (20 + length data)"] length_mem16 [of ip_sum]
    unfolding numeral_2_eq_2 length_Suc_conv by auto
  have h: "ipv4_header src dst nh (length data) ip_sum @ data
    = [0x45, 0, l0, l1, 0, 0, 0, 0, 0x80, nh, s0, s1, a0, a1, a2, a3, b0, b1, b2, b3] @ data"
    unfolding ipv4_header_def mem_hton ls ab by simp
  have "untoh16 (htoun16 (of_nat (20 + length data)) @ []) = of_nat (20 + length data)" by (rule untoh_htoun)
  then have "untoh16 (l0 # l1 # xs) = of_nat (20 + length data)" for xs
    unfolding ls by (simp add: untoh16_def numeral_2_eq_2)
  moreover have "unat (of_nat (20 + length data) :: u16) = 20 + length data"
    unfolding unat_of_nat using assms(5) by simp
  ultimately have len: "unat (untoh16 (l0 # l1 # xs)) = 20 + length data" for xs by simp
  have off: "untoh16 (0 # 0 # xs) = 0" for xs by (simp add: untoh16_def)
  have skip: "chunk_skip (h @ data) 20 = data" if "length h = 20" for h :: chunk
    using that by (simp add: chunk_skip_def)
  have hosts: "host_create_from_chunk AF_INET [a0, a1, a2, a3] sport = Some (set_port src sport)"
    "host_create_from_chunk AF_INET [b0, b1, b2, b3] dport = Some (set_port dst dport)"
    using assms(1-4) ab by (auto simp: host_create_from_chunk_def wf_host_def get_family_def get_address_def set_port_def)
  have "ip_packet_create_v4 ([0x45, 0, l0, l1, 0, 0, 0, 0, 0x80, nh, s0, s1, a0, a1, a2, a3, b0, b1, b2, b3] @ data) = Some
    \<lparr>ip_src = set_port src sport, ip_dst = set_port dst dport,
     ip_packet = [0x45, 0, l0, l1, 0, 0, 0, 0, 0x80, nh, s0, s1, a0, a1, a2, a3, b0, b1, b2, b3] @ data,
     ip_payload = data, ip_version = 4, ip_next_header = nh\<rparr>"
    using assms(6) hosts skip [of "[0x45, 0, l0, l1, 0, 0, 0, 0, 0x80, nh, s0, s1, a0, a1, a2, a3, b0, b1, b2, b3]"]
    by (simp add: ip_packet_create_v4_def Let_def len off)
  then show ?thesis unfolding h by (simp add: ip_packet_create_def)
qed

lemma pseudo_header_v4:
  assumes "wf_host src" and "wf_host dst" and "get_family src = AF_INET" and "get_family dst = AF_INET"
  obtains ps where "pseudo_header src dst nh p = Some ps" and "length ps = 12"
  using assms by (auto simp: pseudo_header_def length_get_address get_family_def)

lemma ip_packet_from_data_v4:
  assumes "wf_host src" and "wf_host dst" and "get_family src = AF_INET" and "get_family dst = AF_INET"
    and "length data \<le> 65515"
    and "nh = IPPROTO_UDP \<Longrightarrow> 8 \<le> length data" and "nh = IPPROTO_TCP \<Longrightarrow> 20 \<le> length data"
  defines "p \<equiv> fix_transport_header src dst nh data"
    and "h \<equiv> ipv4_header src dst nh (length data) (chunk_internet_checksum (ipv4_header src dst nh (length data) 0))"
  shows "ip_packet_create_from_data src dst nh data = Some
    \<lparr>ip_src = set_port src (if nh \<in> {IPPROTO_UDP, IPPROTO_TCP} then untoh16 p else 0),
     ip_dst = set_port dst (if nh \<in> {IPPROTO_UDP, IPPROTO_TCP} then untoh16 (drop 2 p) else 0),
     ip_packet = h @ p, ip_payload = p, ip_version = 4, ip_next_header = nh\<rparr>"
proof -
  obtain ps where ps: "pseudo_header src dst nh data = Some ps" "length ps = 12"
    using pseudo_header_v4 [OF assms(1-4)] by blast
  have "get_family src = get_family dst" using assms(3,4) by simp
  note f = fix_transport_header_spec [OF assms(6,7) ps(1) _ assms(1,2) this]
  have len: "length p = length data" using f(1) ps(2) assms(5) by (simp add: p_def)
  have "parse_transport_header p nh (0, 0) = Some
    (if nh \<in> {IPPROTO_UDP, IPPROTO_TCP} then untoh16 p else 0,
     if nh \<in> {IPPROTO_UDP, IPPROTO_TCP} then untoh16 (drop 2 p) else 0)"
    using assms(6,7) by (auto simp: parse_transport_header_def len)
  moreover have "20 + length p < 65536" using len assms(5) by simp
  note ip_packet_create_ipv4_header [OF assms(1-4) this calculation,
      of "chunk_internet_checksum (ipv4_header src dst nh (length data) 0)"]
  moreover have "take 20 (h @ data) = h" "chunk_skip (h @ data) 20 = data"
    using length_ipv4_header [OF assms(1-4)] by (simp_all add: h_def chunk_skip_def)
  moreover have "ip_packet_create_from_data src dst nh data
      = ip_packet_create (take 20 (h @ data) @ fix_transport_header src dst nh (chunk_skip (h @ data) 20))"
    using assms(3,4) by (simp add: ip_packet_create_from_data_def Let_def h_def)
  ultimately show ?thesis by (simp only: len p_def [symmetric] h_def [symmetric])
qed

text \<open>
  C34: Creating an IPv4 packet from data never fails and gives what the caller asked for, for every
  payload that fits the length field: the addresses and protocol are those given, the payload is
  the data with the requested ports, and both the header checksum and, for UDP and TCP, the
  transport checksum over the pseudo header verify (the sum including the checksum is zero).
\<close>

theorem ip_packet_create_from_data_v4:
  assumes "wf_host src" and "wf_host dst" and "get_family src = AF_INET" and "get_family dst = AF_INET"
    and "length data \<le> 65515"
    and "nh = IPPROTO_UDP \<Longrightarrow> 8 \<le> length data" and "nh = IPPROTO_TCP \<Longrightarrow> 20 \<le> length data"
  shows "\<exists>p ps. ip_packet_create_from_data src dst nh data = Some p
    \<and> ip_version p = 4 \<and> ip_next_header p = nh
    \<and> get_address (ip_src p) = get_address src \<and> get_address (ip_dst p) = get_address dst
    \<and> ip_payload p = fix_transport_header src dst nh data \<and> length (ip_payload p) = length data
    \<and> ip_packet p = take 20 (ip_packet p) @ ip_payload p
    \<and> chunk_internet_checksum (take 20 (ip_packet p)) = 0
    \<and> pseudo_header src dst nh (ip_payload p) = Some ps
    \<and> (nh \<in> {IPPROTO_UDP, IPPROTO_TCP} \<longrightarrow> chunk_internet_checksum (ps @ ip_payload p) = 0
       \<and> get_port (ip_src p) = (if get_port src \<noteq> 0 then get_port src else untoh16 data)
       \<and> get_port (ip_dst p) = (if get_port dst \<noteq> 0 then get_port dst else untoh16 (drop 2 data)))"
proof -
  let ?p = "fix_transport_header src dst nh data"
  obtain ps where ps: "pseudo_header src dst nh data = Some ps" "length ps = 12"
    using pseudo_header_v4 [OF assms(1-4)] by blast
  have "get_family src = get_family dst" using assms(3,4) by simp
  note f = fix_transport_header_spec [OF assms(6,7) ps(1) _ assms(1,2) this]
  have len: "length ?p = length data" using f(1) ps(2) assms(5) by simp
  have "pseudo_header src dst nh ?p = Some ps" using pseudo_header_length [OF len] ps(1) by simp
  moreover have "get_address (set_port h q) = get_address h" for h q
    by (auto simp: get_address_def set_port_def split: family.splits)
  ultimately show ?thesis
    using ip_packet_from_data_v4 [OF assms] ps(2) assms(5) len f(2,3)
      length_ipv4_header [OF assms(1-4)] ipv4_header_checksum [OF assms(1-4)]
    by (auto simp: get_set_port [OF assms(1)] get_set_port [OF assms(2)])
qed

definition demo_host :: "u8 \<Rightarrow> u16 \<Rightarrow> host" where
  "demo_host n port = \<lparr>sa_family = AF_INET, sin_addr = [10, 0, 0, n], sin_port = htons port\<rparr>"

lemma demo_host_wf: "wf_host (demo_host n port)" "get_family (demo_host n port) = AF_INET"
  by (simp_all add: demo_host_def wf_host_def get_family_def)

theorem ip_packet_create_from_data_v4_witness:
  "\<exists>p ps. ip_packet_create_from_data (demo_host 1 53) (demo_host 2 99) 17 [0, 0, 0, 0, 0, 9, 0, 0, 7] = Some p
    \<and> ip_version p = 4 \<and> chunk_internet_checksum (take 20 (ip_packet p)) = 0
    \<and> pseudo_header (demo_host 1 53) (demo_host 2 99) 17 (ip_payload p) = Some ps
    \<and> chunk_internet_checksum (ps @ ip_payload p) = 0"
  using ip_packet_create_from_data_v4
    [OF demo_host_wf(1) demo_host_wf(1) demo_host_wf(2) demo_host_wf(2), of "[0, 0, 0, 0, 0, 9, 0, 0, 7]" 17 1 53 2 99]
  by auto

text \<open>
  C32: A UDP datagram is delivered to the parser intact: the packet created for two IPv4 endpoints
  and data is parsed as UDP between exactly these endpoints, ports included, and its payload
  after the eight byte header is the data.
\<close>

theorem ip_packet_create_udp_correct:
  assumes "wf_host src" and "wf_host dst" and "get_family src = AF_INET" and "get_family dst = AF_INET"
    and "length data \<le> 65507"
  shows "\<exists>p. ip_packet_create_udp_from_data src dst data = Some p
    \<and> ip_src p = src \<and> ip_dst p = dst \<and> ip_next_header p = IPPROTO_UDP
    \<and> drop 8 (ip_payload p) = data \<and> length (ip_payload p) = 8 + length data
    \<and> untoh16 (drop 4 (ip_payload p)) = of_nat (8 + length data)
    \<and> ip_packet_create (ip_packet p) = Some p"
proof -
  let ?u = "[0, 0] @ [0, 0] @ mem16 (htons (of_nat (8 + length data))) @ mem16 0 @ data"
  let ?p = "fix_transport_header src dst IPPROTO_UDP ?u"
  let ?h = "ipv4_header src dst IPPROTO_UDP (length ?u) (chunk_internet_checksum (ipv4_header src dst IPPROTO_UDP (length ?u) 0))"
  have u: "length ?u = 8 + length data" "untoh16 ?u = 0" "untoh16 (drop 2 ?u) = 0" by (simp_all add: untoh16_def)
  obtain ps where ps: "pseudo_header src dst IPPROTO_UDP ?u = Some ps" "length ps = 12"
    using pseudo_header_v4 [OF assms(1-4)] by blast
  have fam: "get_family src = get_family dst" using assms(3,4) by simp
  have f: "length ?p = length ?u" "untoh16 ?p = get_port src" "untoh16 (drop 2 ?p) = get_port dst"
    using fix_transport_header_spec [OF _ _ ps(1) _ assms(1,2) fam] ps(2) u assms(5) by simp_all
  have h: "host_create_from_chunk (get_family h) (get_address h) (get_port h) = Some h \<Longrightarrow> wf_host h \<Longrightarrow>
      set_port h (get_port h) = h" for h
    by (auto simp: wf_host_def set_port_def get_port_def split: family.splits)
  have ports: "set_port src (get_port src) = src" "set_port dst (get_port dst) = dst"
    using h host_from_parts assms(1,2) by blast+
  have created: "ip_packet_create_from_data src dst IPPROTO_UDP ?u = Some
    \<lparr>ip_src = src, ip_dst = dst, ip_packet = ?h @ ?p, ip_payload = ?p, ip_version = 4, ip_next_header = IPPROTO_UDP\<rparr>"
    using ip_packet_from_data_v4 [OF assms(1-4), of ?u IPPROTO_UDP] u(1) f(2,3) assms(5) by (simp add: ports)
  have parse: "parse_transport_header ?p IPPROTO_UDP (0, 0) = Some (get_port src, get_port dst)"
    using f u(1) by (simp add: parse_transport_header_def)
  have again: "ip_packet_create (?h @ ?p) = Some
    \<lparr>ip_src = src, ip_dst = dst, ip_packet = ?h @ ?p, ip_payload = ?p, ip_version = 4, ip_next_header = IPPROTO_UDP\<rparr>"
    using ip_packet_create_ipv4_header [OF assms(1-4) _ parse] f(1) u(1) assms(5) by (simp add: ports)
  let ?q = "set_ports src dst ?u"
  have q: "drop 4 ?q = mem16 (htons (of_nat (8 + length data))) @ mem16 0 @ data" "length ?q = length ?u"
    using set_ports_read(1,4) [of ?u src dst] by simp_all
  obtain c where "set_check src dst IPPROTO_UDP 6 ?q = take 6 ?q @ mem16 c @ drop 8 ?q"
    using set_check_split [of 6 ?q src dst IPPROTO_UDP] q(2) u(1) by auto
  then have c: "?p = take 6 ?q @ mem16 c @ drop 8 ?q" using u(1) by (simp add: fix_transport_header_def)
  have "drop 8 ?q = drop 4 (drop 4 ?q)" by simp
  also have "\<dots> = data" unfolding q(1) by simp
  finally have "drop 8 ?p = data" unfolding c using q(2) u(1) by simp
  moreover have "untoh16 (drop 4 ?p) = of_nat (8 + length data)"
  proof -
    have "take 2 (drop 4 (take 6 ?q)) = take 2 (drop 4 ?q)" by (rule take_drop_take) simp
    then have "take 2 (drop 4 ?p) = htoun16 (of_nat (8 + length data))" unfolding c using q u(1) by simp
    then have "untoh16 (drop 4 ?p) = untoh16 (htoun16 (of_nat (8 + length data)))" by (simp add: untoh16_def)
    then show ?thesis by (simp only: untoh_htoun_exact)
  qed
  ultimately show ?thesis
    using created again f(1) u(1) by (simp add: ip_packet_create_udp_from_data_def Let_def)
qed

theorem ip_packet_create_udp_correct_witness:
  "\<exists>p. ip_packet_create_udp_from_data (demo_host 1 53) (demo_host 2 99) [7, 8] = Some p
    \<and> ip_src p = demo_host 1 53 \<and> ip_dst p = demo_host 2 99 \<and> drop 8 (ip_payload p) = [7, 8]"
  using ip_packet_create_udp_correct
    [OF demo_host_wf(1) demo_host_wf(1) demo_host_wf(2) demo_host_wf(2), of "[7, 8]" 1 53 2 99]
  by auto

text \<open>
  C40: No IPv6 packet can be created from data. The header is initialised with
  \<open>htonl(6)\<close> where the version belongs in the upper four bits of the first byte, so the parser
  at the end of the function sees version zero and refuses it, whatever the hosts and the data.
\<close>

theorem ip_packet_create_from_data_v6_fails:
  assumes "get_family src = AF_INET6"
  shows "ip_packet_create_from_data src dst nh data = None"
proof (cases "get_family dst = AF_INET6")
  case True
  have "(4 :: nat) = Suc (Suc (Suc (Suc 0)))" by simp
  then have "htoun32 6 = [0, 0, 0, 6]" unfolding htoun32_def by (simp only: nat_be.simps) simp
  then obtain rest where rest: "ipv6_header src dst nh (length data) = 0 # rest"
    by (simp add: ipv6_header_def)
  then have "ip_packet_create (take 40 (ipv6_header src dst nh (length data) @ data) @ p) = None" for p
    by (simp add: ip_packet_create_def)
  then show ?thesis using assms True by (simp add: ip_packet_create_from_data_def Let_def)
qed (use assms in \<open>simp add: ip_packet_create_from_data_def\<close>)

theorem ip_packet_create_from_data_v6_fails_witness:
  "\<exists>h. host_create_any AF_INET6 = Some h \<and> ip_packet_create_from_data h h 17 [0, 0, 0, 0, 0, 8, 0, 0] = None"
proof (intro exI conjI)
  let ?h = "\<lparr>sa_family = AF_INET6, sin_addr = replicate 16 0, sin_port = 0\<rparr>"
  show "host_create_any AF_INET6 = Some ?h" by (simp add: host_create_any_def)
  show "ip_packet_create_from_data ?h ?h 17 [0, 0, 0, 0, 0, 8, 0, 0] = None"
    by (rule ip_packet_create_from_data_v6_fails) (simp add: get_family_def)
qed

end
