(* ===== verification/Chapoly_Drv.thy ===== *)
theory Chapoly_Drv
  imports Prelude
begin

unbundle bit_operations_syntax

text \<open>
  \<open>plugins/chapoly/chapoly_drv_portable.c\<close>: the portable ChaCha20 and Poly1305 driver.
  The ChaCha20 matrix is a list of sixteen words, the Poly1305 key and accumulator are
  radix \<open>2\<^sup>2\<^sup>6\<close> limbs kept at 32 bits, products at 64 bits, as in the code. This
  theory holds the model; \<open>Poly1305\<close> and \<open>Chacha20\<close> relate it to the mathematical
  definitions of the two primitives.
\<close>

section \<open>State and helpers of the driver\<close>

type_synonym limbs = "u32 \<times> u32 \<times> u32 \<times> u32 \<times> u32"

record chapoly_drv_portable =
  chacha_m :: "u32 list"
  poly_r :: limbs
  poly_h :: limbs
  poly_s :: "u32 \<times> u32 \<times> u32 \<times> u32"

abbreviation (input) CHACHA_BLOCK_SIZE :: nat where "CHACHA_BLOCK_SIZE \<equiv> 64"
abbreviation (input) CHACHA_IV_SIZE :: nat where "CHACHA_IV_SIZE \<equiv> 8"
abbreviation (input) CHACHA_SALT_SIZE :: nat where "CHACHA_SALT_SIZE \<equiv> 4"
abbreviation (input) CHACHA_KEY_SIZE :: nat where "CHACHA_KEY_SIZE \<equiv> 32"
abbreviation (input) POLY_BLOCK_SIZE :: nat where "POLY_BLOCK_SIZE \<equiv> 16"
abbreviation (input) POLY_ICV_SIZE :: nat where "POLY_ICV_SIZE \<equiv> 16"
abbreviation (input) CHACHA_BLOCKCOUNT :: nat where "CHACHA_BLOCKCOUNT \<equiv> 12"
abbreviation (input) CHACHA_NONCE1 :: nat where "CHACHA_NONCE1 \<equiv> 13"
abbreviation (input) CHACHA_NONCE2 :: nat where "CHACHA_NONCE2 \<equiv> 14"
abbreviation (input) CHACHA_NONCE3 :: nat where "CHACHA_NONCE3 \<equiv> 15"

definition xor32u :: "chunk \<Rightarrow> u32 \<Rightarrow> chunk" where
  "xor32u p x = htoule32 (uletoh32 p XOR x)"

definition mlt :: "u64 \<Rightarrow> u64 \<Rightarrow> u64" where
  "mlt a b = a * b"

definition sr :: "u64 \<Rightarrow> nat \<Rightarrow> u32" where
  "sr v n = ucast (drop_bit n v)"

definition rotl32 :: "u32 \<Rightarrow> nat \<Rightarrow> u32" where
  "rotl32 v n = push_bit n v OR drop_bit (4 * 8 - n) v"

definition and_ulong :: "u64 \<Rightarrow> u64 \<Rightarrow> u64" where
  "and_ulong v msk = v AND msk"

section \<open>ChaCha20\<close>

text \<open>The two halves of the loop body of \<open>chacha_block_xor\<close>, statement by statement.\<close>

definition chacha_columns :: "u32 list \<Rightarrow> u32 list" where
  "chacha_columns x =
     (let x0 = x ! 0; x1 = x ! 1; x2 = x ! 2; x3 = x ! 3; x4 = x ! 4; x5 = x ! 5;
          x6 = x ! 6; x7 = x ! 7; x8 = x ! 8; x9 = x ! 9; xa = x ! 10; xb = x ! 11;
          xc = x ! 12; xd = x ! 13; xe = x ! 14; xf = x ! 15;
          x0 = x0 + x4; xc = rotl32 (xc XOR x0) 16;
          x1 = x1 + x5; xd = rotl32 (xd XOR x1) 16;
          x2 = x2 + x6; xe = rotl32 (xe XOR x2) 16;
          x3 = x3 + x7; xf = rotl32 (xf XOR x3) 16;
          x8 = x8 + xc; x4 = rotl32 (x4 XOR x8) 12;
          x9 = x9 + xd; x5 = rotl32 (x5 XOR x9) 12;
          xa = xa + xe; x6 = rotl32 (x6 XOR xa) 12;
          xb = xb + xf; x7 = rotl32 (x7 XOR xb) 12;
          x0 = x0 + x4; xc = rotl32 (xc XOR x0) 8;
          x1 = x1 + x5; xd = rotl32 (xd XOR x1) 8;
          x2 = x2 + x6; xe = rotl32 (xe XOR x2) 8;
          x3 = x3 + x7; xf = rotl32 (xf XOR x3) 8;
          x8 = x8 + xc; x4 = rotl32 (x4 XOR x8) 7;
          x9 = x9 + xd; x5 = rotl32 (x5 XOR x9) 7;
          xa = xa + xe; x6 = rotl32 (x6 XOR xa) 7;
          xb = xb + xf; x7 = rotl32 (x7 XOR xb) 7
      in [x0, x1, x2, x3, x4, x5, x6, x7, x8, x9, xa, xb, xc, xd, xe, xf])"

definition chacha_diagonals :: "u32 list \<Rightarrow> u32 list" where
  "chacha_diagonals x =
     (let x0 = x ! 0; x1 = x ! 1; x2 = x ! 2; x3 = x ! 3; x4 = x ! 4; x5 = x ! 5;
          x6 = x ! 6; x7 = x ! 7; x8 = x ! 8; x9 = x ! 9; xa = x ! 10; xb = x ! 11;
          xc = x ! 12; xd = x ! 13; xe = x ! 14; xf = x ! 15;
          x0 = x0 + x5; xf = rotl32 (xf XOR x0) 16;
          x1 = x1 + x6; xc = rotl32 (xc XOR x1) 16;
          x2 = x2 + x7; xd = rotl32 (xd XOR x2) 16;
          x3 = x3 + x4; xe = rotl32 (xe XOR x3) 16;
          xa = xa + xf; x5 = rotl32 (x5 XOR xa) 12;
          xb = xb + xc; x6 = rotl32 (x6 XOR xb) 12;
          x8 = x8 + xd; x7 = rotl32 (x7 XOR x8) 12;
          x9 = x9 + xe; x4 = rotl32 (x4 XOR x9) 12;
          x0 = x0 + x5; xf = rotl32 (xf XOR x0) 8;
          x1 = x1 + x6; xc = rotl32 (xc XOR x1) 8;
          x2 = x2 + x7; xd = rotl32 (xd XOR x2) 8;
          x3 = x3 + x4; xe = rotl32 (xe XOR x3) 8;
          xa = xa + xf; x5 = rotl32 (x5 XOR xa) 7;
          xb = xb + xc; x6 = rotl32 (x6 XOR xb) 7;
          x8 = x8 + xd; x7 = rotl32 (x7 XOR x8) 7;
          x9 = x9 + xe; x4 = rotl32 (x4 XOR x9) 7
      in [x0, x1, x2, x3, x4, x5, x6, x7, x8, x9, xa, xb, xc, xd, xe, xf])"

fun chacha_rounds :: "nat \<Rightarrow> u32 list \<Rightarrow> u32 list" where
  "chacha_rounds 0 x = x"
| "chacha_rounds (Suc i) x = chacha_rounds i (chacha_diagonals (chacha_columns x))"

abbreviation (input) CHACHA_DOUBLEROUNDS :: nat where "CHACHA_DOUBLEROUNDS \<equiv> 10"

text \<open>
  The sixteen \<open>xor32u\<close> of the output words into the block at \<open>data\<close>; the host is little
  endian, so \<open>le32toh\<close> is the identity.
\<close>

definition chacha_block_xor :: "chapoly_drv_portable \<Rightarrow> chunk \<Rightarrow> chunk \<times> chapoly_drv_portable" where
  "chacha_block_xor this data =
     (let x = chacha_rounds CHACHA_DOUBLEROUNDS (chacha_m this);
          out = concat (map (\<lambda>i. xor32u (take 4 (drop (4 * i) data)) (x ! i + chacha_m this ! i)) [0..<16])
      in (out @ drop CHACHA_BLOCK_SIZE data,
          this\<lparr>chacha_m := (chacha_m this)[CHACHA_BLOCKCOUNT := chacha_m this ! CHACHA_BLOCKCOUNT + 1]\<rparr>))"

definition drv_set_key :: "chapoly_drv_portable \<Rightarrow> chunk \<Rightarrow> chunk \<Rightarrow> chunk \<Rightarrow> bool \<times> chapoly_drv_portable" where
  "drv_set_key this const key salt =
     (let m = chacha_m this;
          m = m[0 := uletoh32 const];
          m = m[1 := uletoh32 (drop 4 const)];
          m = m[2 := uletoh32 (drop 8 const)];
          m = m[3 := uletoh32 (drop 12 const)];
          m = m[4 := uletoh32 key];
          m = m[5 := uletoh32 (drop 4 key)];
          m = m[6 := uletoh32 (drop 8 key)];
          m = m[7 := uletoh32 (drop 12 key)];
          m = m[8 := uletoh32 (drop 16 key)];
          m = m[9 := uletoh32 (drop 20 key)];
          m = m[10 := uletoh32 (drop 24 key)];
          m = m[11 := uletoh32 (drop 28 key)];
          m = m[CHACHA_NONCE1 := uletoh32 salt]
      in (True, this\<lparr>chacha_m := m\<rparr>))"

definition drv_init :: "chapoly_drv_portable \<Rightarrow> chunk \<Rightarrow> bool \<times> chapoly_drv_portable" where
  "drv_init this iv =
     (let m = chacha_m this;
          m = m[CHACHA_BLOCKCOUNT := 0];
          m = m[CHACHA_NONCE2 := uletoh32 iv];
          m = m[CHACHA_NONCE3 := uletoh32 (drop 4 iv)];
          (key, this) = chacha_block_xor (this\<lparr>chacha_m := m\<rparr>) (replicate CHACHA_BLOCK_SIZE 0)
      in (True, this
        \<lparr>poly_r := (drop_bit 0 (uletoh32 key) AND 0x3ffffff,
                   drop_bit 2 (uletoh32 (drop 3 key)) AND 0x3ffff03,
                   drop_bit 4 (uletoh32 (drop 6 key)) AND 0x3ffc0ff,
                   drop_bit 6 (uletoh32 (drop 9 key)) AND 0x3f03fff,
                   drop_bit 8 (uletoh32 (drop 12 key)) AND 0x00fffff),
         poly_h := (0, 0, 0, 0, 0),
         poly_s := (uletoh32 (drop 16 key), uletoh32 (drop 20 key),
                   uletoh32 (drop 24 key), uletoh32 (drop 28 key))\<rparr>))"

section \<open>Poly1305\<close>

text \<open>The partial reduction at the end of an iteration of \<open>poly\<close>.\<close>

definition poly_carry :: "u64 \<Rightarrow> u64 \<Rightarrow> u64 \<Rightarrow> u64 \<Rightarrow> u64 \<Rightarrow> limbs" where
  "poly_carry d0 d1 d2 d3 d4 =
     (let d1 = d1 + ucast (sr d0 26); h0 = ucast (and_ulong d0 0x3ffffff);
          d2 = d2 + ucast (sr d1 26); h1 = ucast (and_ulong d1 0x3ffffff);
          d3 = d3 + ucast (sr d2 26); h2 = ucast (and_ulong d2 0x3ffffff);
          d4 = d4 + ucast (sr d3 26); h3 = ucast (and_ulong d3 0x3ffffff);
          h0 = h0 + sr d4 26 * 5; h4 = ucast (and_ulong d4 0x3ffffff);
          h1 = h1 + drop_bit 26 h0; h0 = h0 AND 0x3ffffff
      in (h0, h1, h2, h3, h4))"

text \<open>One iteration of the loop of \<open>poly\<close>.\<close>

definition poly_block :: "limbs \<Rightarrow> limbs \<Rightarrow> chunk \<Rightarrow> limbs" where
  "poly_block r h data =
     (let (r0, r1, r2, r3, r4) = r; (h0, h1, h2, h3, h4) = h;
          s1 = r1 * 5; s2 = r2 * 5; s3 = r3 * 5; s4 = r4 * 5;
          h0 = h0 + (drop_bit 0 (uletoh32 data) AND 0x3ffffff);
          h1 = h1 + (drop_bit 2 (uletoh32 (drop 3 data)) AND 0x3ffffff);
          h2 = h2 + (drop_bit 4 (uletoh32 (drop 6 data)) AND 0x3ffffff);
          h3 = h3 + (drop_bit 6 (uletoh32 (drop 9 data)) AND 0x3ffffff);
          h4 = h4 + (drop_bit 8 (uletoh32 (drop 12 data)) OR push_bit 24 1);
          d0 = mlt (ucast h0) (ucast r0) + mlt (ucast h1) (ucast s4) + mlt (ucast h2) (ucast s3)
             + mlt (ucast h3) (ucast s2) + mlt (ucast h4) (ucast s1);
          d1 = mlt (ucast h0) (ucast r1) + mlt (ucast h1) (ucast r0) + mlt (ucast h2) (ucast s4)
             + mlt (ucast h3) (ucast s3) + mlt (ucast h4) (ucast s2);
          d2 = mlt (ucast h0) (ucast r2) + mlt (ucast h1) (ucast r1) + mlt (ucast h2) (ucast r0)
             + mlt (ucast h3) (ucast s4) + mlt (ucast h4) (ucast s3);
          d3 = mlt (ucast h0) (ucast r3) + mlt (ucast h1) (ucast r2) + mlt (ucast h2) (ucast r1)
             + mlt (ucast h3) (ucast r0) + mlt (ucast h4) (ucast s4);
          d4 = mlt (ucast h0) (ucast r4) + mlt (ucast h1) (ucast r3) + mlt (ucast h2) (ucast r2)
             + mlt (ucast h3) (ucast r1) + mlt (ucast h4) (ucast r0)
      in poly_carry d0 d1 d2 d3 d4)"

fun poly_blocks :: "limbs \<Rightarrow> limbs \<Rightarrow> chunk \<Rightarrow> nat \<Rightarrow> limbs" where
  "poly_blocks r h data 0 = h"
| "poly_blocks r h data (Suc n) = poly_blocks r (poly_block r h data) (drop POLY_BLOCK_SIZE data) n"

definition drv_poly :: "chapoly_drv_portable \<Rightarrow> chunk \<Rightarrow> u32 \<Rightarrow> bool \<times> chapoly_drv_portable" where
  "drv_poly this data blocks =
     (True, this\<lparr>poly_h := poly_blocks (poly_r this) (poly_h this) data (unat blocks)\<rparr>)"

definition drv_chacha :: "chapoly_drv_portable \<Rightarrow> bool \<times> chunk \<times> chapoly_drv_portable" where
  "drv_chacha this = (True, chacha_block_xor this (replicate CHACHA_BLOCK_SIZE 0))"

text \<open>The loops of \<open>encrypt\<close> and \<open>decrypt\<close>; the data pointer advances by one block.\<close>

fun encrypt_blocks :: "chapoly_drv_portable \<Rightarrow> chunk \<Rightarrow> nat \<Rightarrow> chunk \<times> chapoly_drv_portable" where
  "encrypt_blocks this data 0 = (data, this)"
| "encrypt_blocks this data (Suc n) =
     (let (data, this) = chacha_block_xor this data;
          this = snd (drv_poly this data 4);
          (rest, this) = encrypt_blocks this (drop CHACHA_BLOCK_SIZE data) n
      in (take CHACHA_BLOCK_SIZE data @ rest, this))"

fun decrypt_blocks :: "chapoly_drv_portable \<Rightarrow> chunk \<Rightarrow> nat \<Rightarrow> chunk \<times> chapoly_drv_portable" where
  "decrypt_blocks this data 0 = (data, this)"
| "decrypt_blocks this data (Suc n) =
     (let this = snd (drv_poly this data 4);
          (data, this) = chacha_block_xor this data;
          (rest, this) = decrypt_blocks this (drop CHACHA_BLOCK_SIZE data) n
      in (take CHACHA_BLOCK_SIZE data @ rest, this))"

definition drv_encrypt :: "chapoly_drv_portable \<Rightarrow> chunk \<Rightarrow> u32 \<Rightarrow> bool \<times> chunk \<times> chapoly_drv_portable" where
  "drv_encrypt this data blocks = (True, encrypt_blocks this data (unat blocks))"

definition drv_decrypt :: "chapoly_drv_portable \<Rightarrow> chunk \<Rightarrow> u32 \<Rightarrow> bool \<times> chunk \<times> chapoly_drv_portable" where
  "drv_decrypt this data blocks = (True, decrypt_blocks this data (unat blocks))"

text \<open>\<open>finish\<close>: full carry, conditional subtraction of the prime, packing and final sum.\<close>

definition finish_carry :: "limbs \<Rightarrow> limbs" where
  "finish_carry h =
     (let (h0, h1, h2, h3, h4) = h;
          h2 = h2 + drop_bit 26 h1; h1 = h1 AND 0x3ffffff;
          h3 = h3 + drop_bit 26 h2; h2 = h2 AND 0x3ffffff;
          h4 = h4 + drop_bit 26 h3; h3 = h3 AND 0x3ffffff;
          h0 = h0 + drop_bit 26 h4 * 5; h4 = h4 AND 0x3ffffff;
          h1 = h1 + drop_bit 26 h0; h0 = h0 AND 0x3ffffff
      in (h0, h1, h2, h3, h4))"

definition finish_select :: "limbs \<Rightarrow> limbs" where
  "finish_select h =
     (let (h0, h1, h2, h3, h4) = h;
          g0 = h0 + 5;
          g1 = h1 + drop_bit 26 g0; g0 = g0 AND 0x3ffffff;
          g2 = h2 + drop_bit 26 g1; g1 = g1 AND 0x3ffffff;
          g3 = h3 + drop_bit 26 g2; g2 = g2 AND 0x3ffffff;
          g4 = h4 + drop_bit 26 g3 - push_bit 26 1; g3 = g3 AND 0x3ffffff;
          msk = drop_bit (4 * 8 - 1) g4 - 1;
          g0 = g0 AND msk; g1 = g1 AND msk; g2 = g2 AND msk; g3 = g3 AND msk; g4 = g4 AND msk;
          msk = NOT msk
      in ((h0 AND msk) OR g0, (h1 AND msk) OR g1, (h2 AND msk) OR g2, (h3 AND msk) OR g3,
          (h4 AND msk) OR g4))"

definition finish_pack :: "limbs \<Rightarrow> u32 \<times> u32 \<times> u32 \<times> u32" where
  "finish_pack h =
     (let (h0, h1, h2, h3, h4) = h
      in (drop_bit 0 h0 OR push_bit 26 h1, drop_bit 6 h1 OR push_bit 20 h2,
          drop_bit 12 h2 OR push_bit 14 h3, drop_bit 18 h3 OR push_bit 8 h4))"

definition drv_finish :: "chapoly_drv_portable \<Rightarrow> bool \<times> chunk \<times> chapoly_drv_portable" where
  "drv_finish this =
     (let (h0, h1, h2, h3) = finish_pack (finish_select (finish_carry (poly_h this)));
          (s0, s1, s2, s3) = poly_s this;
          f = 0 :: u64;
          f = drop_bit 32 f + ucast h0 + ucast s0; mac0 = htoule32 (ucast f);
          f = drop_bit 32 f + ucast h1 + ucast s1; mac1 = htoule32 (ucast f);
          f = drop_bit 32 f + ucast h2 + ucast s2; mac2 = htoule32 (ucast f);
          f = drop_bit 32 f + ucast h3 + ucast s3; mac3 = htoule32 (ucast f)
      in (True, mac0 @ mac1 @ mac2 @ mac3, this))"

text \<open>\<open>INIT\<close> clears the structure.\<close>

definition chapoly_drv_portable_create :: chapoly_drv_portable where
  "chapoly_drv_portable_create =
     \<lparr>chacha_m = replicate 16 0, poly_r = (0, 0, 0, 0, 0), poly_h = (0, 0, 0, 0, 0),
      poly_s = (0, 0, 0, 0)\<rparr>"

end
