(* ===== verification/Poly1305.thy ===== *)
theory Poly1305
  imports Chapoly_Drv
begin

unbundle bit_operations_syntax

text \<open>
  The Poly1305 half of the portable driver against its mathematical definition. The radix
  \<open>2\<^sup>2\<^sup>6\<close> limbs stand for a natural number; one block adds the little endian value of
  sixteen bytes and a bit above them and multiplies by the key modulo \<open>2\<^sup>1\<^sup>3\<^sup>0 - 5\<close>, with
  no 32-bit or 64-bit step wrapping; \<open>finish\<close> delivers the residue plus the second key half
  modulo \<open>2\<^sup>1\<^sup>2\<^sup>8\<close>.
\<close>

section \<open>The limb arithmetic in the natural numbers\<close>

definition p1305 :: nat where
  "p1305 = 2 ^ 130 - 5"

definition limbs_nat :: "limbs \<Rightarrow> nat" where
  "limbs_nat h = (case h of (h0, h1, h2, h3, h4) \<Rightarrow>
     unat h0 + 2 ^ 26 * unat h1 + 2 ^ 52 * unat h2 + 2 ^ 78 * unat h3 + 2 ^ 104 * unat h4)"

text \<open>
  The bounds kept by every block: the accumulator is carried up to six excess bits of the
  second limb, the clamped key fits its limbs.
\<close>

definition acc_wf :: "limbs \<Rightarrow> bool" where
  "acc_wf h = (case h of (h0, h1, h2, h3, h4) \<Rightarrow>
     unat h0 < 2 ^ 26 \<and> unat h1 < 2 ^ 26 + 2 ^ 6 \<and> unat h2 < 2 ^ 26 \<and> unat h3 < 2 ^ 26
     \<and> unat h4 < 2 ^ 26)"

definition key_wf :: "limbs \<Rightarrow> bool" where
  "key_wf r = (case r of (r0, r1, r2, r3, r4) \<Rightarrow>
     unat r0 < 2 ^ 26 \<and> unat r1 < 2 ^ 26 \<and> unat r2 < 2 ^ 26 \<and> unat r3 < 2 ^ 26 \<and> unat r4 < 2 ^ 26)"

named_theorems no_wrap \<open>word operations that do not wrap, read in the natural numbers\<close>

lemma unat_add_no_wrap [no_wrap]:
  "unat (a :: 'a::len word) + unat b < 2 ^ LENGTH('a) \<Longrightarrow> unat (a + b) = unat a + unat b"
  by (simp add: unat_word_ariths)

lemma unat_mult_no_wrap [no_wrap]:
  "unat (a :: 'a::len word) * unat b < 2 ^ LENGTH('a) \<Longrightarrow> unat (a * b) = unat a * unat b"
  by (simp add: unat_word_ariths)

lemma unat_ucast_up [no_wrap, simp]: "unat (ucast (a :: u32) :: u64) = unat a"
proof -
  have "unat a < 2 ^ 64" by (rule less_trans [OF unat_lt_pow256(3)]) simp
  then show ?thesis by (simp add: unsigned_ucast_eq take_bit_nat_eq_self)
qed

lemma unat_drop_bit [no_wrap]: "unat (drop_bit n (a :: 'a::len word)) = unat a div 2 ^ n"
  by (simp add: unsigned_drop_bit_eq take_bit_nat_eq_self) (simp add: drop_bit_eq_div)

lemma unat_sr [no_wrap]: "unat (sr v n) = (unat v div 2 ^ n) mod 2 ^ 32"
  by (simp add: sr_def unsigned_ucast_eq take_bit_eq_mod unat_drop_bit)

lemma unat_and_26 [no_wrap]: "unat (a AND 0x3ffffff :: u32) = unat a mod 2 ^ 26"
proof -
  have "(0x3ffffff :: u32) = mask 26" by (simp add: mask_eq_exp_minus_1)
  then have "a AND 0x3ffffff = take_bit 26 a" by (simp add: take_bit_eq_mask)
  then show ?thesis by (simp only: unsigned_take_bit_eq) (simp add: take_bit_eq_mod)
qed

lemma unat_and_ulong_26 [no_wrap]: "unat (ucast (and_ulong v 0x3ffffff) :: u32) = unat v mod 2 ^ 26"
proof -
  have "(0x3ffffff :: u64) = mask 26" by (simp add: mask_eq_exp_minus_1)
  then have "and_ulong v 0x3ffffff = take_bit 26 v" by (simp add: and_ulong_def take_bit_eq_mask)
  then have "unat (ucast (and_ulong v 0x3ffffff) :: u32) = take_bit 32 (take_bit 26 (unat v))"
    by (simp only: unsigned_ucast_eq unsigned_take_bit_eq) simp
  then show ?thesis by (simp add: take_bit_eq_mod mod_mod_cancel)
qed

text \<open>The carry chain: no step overflows and the value is kept modulo the prime.\<close>

lemma carry_chain:
  fixes D0 D1 D2 D3 D4 :: nat
  assumes "e1 = D1 + D0 div 2 ^ 26" and "e2 = D2 + e1 div 2 ^ 26" and "e3 = D3 + e2 div 2 ^ 26"
    and "e4 = D4 + e3 div 2 ^ 26" and "k0 = D0 mod 2 ^ 26 + e4 div 2 ^ 26 * 5"
  shows "k0 mod 2 ^ 26 + 2 ^ 26 * (e1 mod 2 ^ 26 + k0 div 2 ^ 26) + 2 ^ 52 * (e2 mod 2 ^ 26)
      + 2 ^ 78 * (e3 mod 2 ^ 26) + 2 ^ 104 * (e4 mod 2 ^ 26) + p1305 * (e4 div 2 ^ 26)
    = D0 + 2 ^ 26 * D1 + 2 ^ 52 * D2 + 2 ^ 78 * D3 + 2 ^ 104 * D4"
proof -
  have split: "x = 2 ^ 26 * (x div 2 ^ 26) + x mod 2 ^ 26" for x :: nat by simp
  obtain q0 q1 q2 q3 q4 q5 where q: "D0 div 2^26 = q0" "e1 div 2^26 = q1"
    "e2 div 2^26 = q2" "e3 div 2^26 = q3" "e4 div 2^26 = q4" "k0 div 2^26 = q5" by blast
  obtain m0 m1 m2 m3 m4 m5 where m: "D0 mod 2^26 = m0" "e1 mod 2^26 = m1"
    "e2 mod 2^26 = m2" "e3 mod 2^26 = m3" "e4 mod 2^26 = m4" "k0 mod 2^26 = m5" by blast
  have "D0 = 2^26 * q0 + m0" "e1 = 2^26 * q1 + m1" "e2 = 2^26 * q2 + m2" "e3 = 2^26 * q3 + m3" "e4 = 2^26 * q4 + m4"
    "k0 = 2^26 * q5 + m5"
    unfolding q[symmetric] m[symmetric] by (rule split)+
  moreover note assms [unfolded q m]
  ultimately show ?thesis unfolding q m p1305_def by simp
qed

lemma poly_carry_spec:
  assumes "unat d0 < 2 ^ 58 - 2 ^ 33" and "unat d1 < 2 ^ 58 - 2 ^ 33" and "unat d2 < 2 ^ 58 - 2 ^ 33"
    and "unat d3 < 2 ^ 58 - 2 ^ 33" and "unat d4 < 11 * 2 ^ 52"
  shows "acc_wf (poly_carry d0 d1 d2 d3 d4)"
    and "limbs_nat (poly_carry d0 d1 d2 d3 d4) mod p1305
      = (unat d0 + 2 ^ 26 * unat d1 + 2 ^ 52 * unat d2 + 2 ^ 78 * unat d3 + 2 ^ 104 * unat d4) mod p1305"
proof -
  define e1 where "e1 = d1 + ucast (sr d0 26)"
  define e2 where "e2 = d2 + ucast (sr e1 26)"
  define e3 where "e3 = d3 + ucast (sr e2 26)"
  define e4 where "e4 = d4 + ucast (sr e3 26)"
  define k0 where "k0 = ucast (and_ulong d0 0x3ffffff) + sr e4 26 * 5"
  have sr: "unat (sr v 26) = unat v div 2 ^ 26 \<and> unat v div 2 ^ 26 < 2 ^ 32" if "unat v < 2 ^ 58" for v
    using that by (simp add: unat_sr)
  have e1: "unat e1 = unat d1 + unat d0 div 2 ^ 26" "unat e1 < 2 ^ 58"
    using sr [of d0] assms by (simp_all add: e1_def unat_add_no_wrap)
  have e2: "unat e2 = unat d2 + unat e1 div 2 ^ 26" "unat e2 < 2 ^ 58"
    using sr [of e1] e1(2) assms by (simp_all add: e2_def unat_add_no_wrap)
  have e3: "unat e3 = unat d3 + unat e2 div 2 ^ 26" "unat e3 < 2 ^ 58"
    using sr [of e2] e2(2) assms by (simp_all add: e3_def unat_add_no_wrap)
  have e4: "unat e4 = unat d4 + unat e3 div 2 ^ 26" "unat e4 < 12 * 2 ^ 52"
    using sr [of e3] e3(2) assms by (simp_all add: e4_def unat_add_no_wrap)
  have s4: "unat (sr e4 26) = unat e4 div 2 ^ 26" "unat e4 div 2 ^ 26 < 12 * 2 ^ 26"
    using sr [of e4] e4(2) by simp_all
  have k5: "unat (sr e4 26 * 5) = unat e4 div 2 ^ 26 * 5"
    using s4 by (simp add: unat_mult_no_wrap)
  have k0: "unat k0 = unat d0 mod 2 ^ 26 + unat e4 div 2 ^ 26 * 5"
    using s4 by (simp add: k0_def unat_add_no_wrap k5 unat_and_ulong_26)
  have h1: "unat (ucast (and_ulong e1 0x3ffffff) + drop_bit 26 k0 :: u32) = unat e1 mod 2 ^ 26 + unat k0 div 2 ^ 26"
  proof -
    have "unat k0 div 2 ^ 26 < 2 ^ 6" "unat e1 mod 2 ^ 26 < 2 ^ 26"
      by (simp_all add: less_mult_imp_div_less)
    then have "unat e1 mod 2 ^ 26 + unat k0 div 2 ^ 26 < 2 ^ 32" by simp
    then show ?thesis
      using unat_add_no_wrap [of "ucast (and_ulong e1 0x3ffffff) :: u32" "drop_bit 26 k0"]
      by (simp add: unat_drop_bit unat_and_ulong_26)
  qed
  have eq: "poly_carry d0 d1 d2 d3 d4 = (k0 AND 0x3ffffff, ucast (and_ulong e1 0x3ffffff) + drop_bit 26 k0,
      ucast (and_ulong e2 0x3ffffff), ucast (and_ulong e3 0x3ffffff), ucast (and_ulong e4 0x3ffffff))"
    by (simp add: poly_carry_def Let_def e1_def e2_def e3_def e4_def k0_def)
  have "unat k0 div 2 ^ 26 < 2 ^ 6" by (simp add: less_mult_imp_div_less)
  then show "acc_wf (poly_carry d0 d1 d2 d3 d4)"
    unfolding eq acc_wf_def by (simp add: h1 unat_and_26 unat_and_ulong_26 add_less_le_mono)
  have "limbs_nat (poly_carry d0 d1 d2 d3 d4) + p1305 * (unat e4 div 2 ^ 26)
      = unat d0 + 2 ^ 26 * unat d1 + 2 ^ 52 * unat d2 + 2 ^ 78 * unat d3 + 2 ^ 104 * unat d4"
    using carry_chain [OF e1(1) e2(1) e3(1) e4(1) k0]
    by (simp add: eq limbs_nat_def h1 unat_and_26 unat_and_ulong_26)
  then show "limbs_nat (poly_carry d0 d1 d2 d3 d4) mod p1305
      = (unat d0 + 2 ^ 26 * unat d1 + 2 ^ 52 * unat d2 + 2 ^ 78 * unat d3 + 2 ^ 104 * unat d4) mod p1305"
    by (metis mod_mult_self2)
qed

text \<open>The limbs of a sixteen byte block, with the bit appended above it.\<close>

lemma le_nat_window: "le_nat (take n (drop k bs)) = le_nat bs div 256 ^ k mod 256 ^ n"
proof -
  have drop: "le_nat (drop k bs) = le_nat bs div 256 ^ k"
  proof (cases "k \<le> length bs")
    case True
    have "le_nat bs = le_nat (take k bs) + 256 ^ k * le_nat (drop k bs)"
      using le_nat_append [of "take k bs" "drop k bs"] True by simp
    moreover have "le_nat (take k bs) < 256 ^ k" using le_nat_bound [of "take k bs"] True by simp
    ultimately show ?thesis by simp
  next
    case False
    then have "(256::nat) ^ length bs \<le> 256 ^ k" by (intro power_increasing) simp_all
    then show ?thesis using le_nat_bound [of bs] False by (simp add: less_le_trans)
  qed
  have take: "le_nat (take n cs) = le_nat cs mod 256 ^ n" for cs
  proof (cases "n \<le> length cs")
    case True
    have "le_nat cs = le_nat (take n cs) + 256 ^ n * le_nat (drop n cs)"
      using le_nat_append [of "take n cs" "drop n cs"] True by simp
    moreover have "le_nat (take n cs) < 256 ^ n" using le_nat_bound [of "take n cs"] True by simp
    ultimately show ?thesis by simp
  next
    case False
    then have "(256::nat) ^ length cs \<le> 256 ^ n" by (intro power_increasing) simp_all
    then have "le_nat cs < 256 ^ n" using le_nat_bound [of cs] by (rule less_le_trans [rotated])
    then show ?thesis using False by simp
  qed
  show ?thesis by (simp add: take drop)
qed

lemma unat_or_push_bit:
  assumes "unat (a :: 'a::len word) < 2 ^ n"
  shows "unat (a OR push_bit n b) = unat a + unat (push_bit n b)"
proof -
  have "take_bit n a = a"
    by (metis assms unsigned_take_bit_eq take_bit_nat_eq_self word_unat_eq_iff)
  then have a: "n \<le> i \<Longrightarrow> \<not> bit a i" for i
    by (metis bit_take_bit_iff not_less)
  have "a + push_bit n b = a OR push_bit n b"
    by (rule disjunctive_add) (use a in \<open>auto simp: bit_push_bit_iff\<close>)
  moreover have "a AND push_bit n b = 0"
    by (rule bit_word_eqI) (use a in \<open>auto simp: bit_and_iff bit_push_bit_iff\<close>)
  ultimately show ?thesis by (metis unat_plus_simple word_and_le1 word_plus_and_or add.left_neutral
    le_word_or2)
qed

definition block_limb :: "nat \<Rightarrow> nat \<Rightarrow> nat" where
  "block_limb B i = B div 2 ^ (26 * i) mod 2 ^ 26"

lemma block_limbs:
  assumes "length data = 16"
  defines "B \<equiv> le_nat data"
  shows "unat (drop_bit 0 (uletoh32 data) AND 0x3ffffff) = block_limb B 0"
    and "unat (drop_bit 2 (uletoh32 (drop 3 data)) AND 0x3ffffff) = block_limb B 1"
    and "unat (drop_bit 4 (uletoh32 (drop 6 data)) AND 0x3ffffff) = block_limb B 2"
    and "unat (drop_bit 6 (uletoh32 (drop 9 data)) AND 0x3ffffff) = block_limb B 3"
    and "unat (drop_bit 8 (uletoh32 (drop 12 data))) = block_limb B 4"
    and "block_limb B 4 < 2 ^ 24"
proof -
  have w: "unat (drop_bit n (uletoh32 (drop k data))) = B div 2 ^ (8 * k + n) mod 2 ^ (32 - n)"
    if "n \<le> 32" for n k
  proof -
    have "unat (drop_bit n (uletoh32 (drop k data))) = B div 256 ^ k mod 2 ^ 32 div 2 ^ n"
      by (simp add: unat_drop_bit unat_uletoh32 le_nat_window B_def)
    also have "\<dots> = drop_bit n (take_bit 32 (drop_bit (8 * k) B))"
      by (simp add: drop_bit_eq_div take_bit_eq_mod power_mult)
    also have "\<dots> = take_bit (32 - n) (drop_bit (8 * k + n) B)"
      by (simp add: drop_bit_take_bit add.commute)
    finally show ?thesis by (simp add: drop_bit_eq_div take_bit_eq_mod)
  qed
  have B: "B < 2 ^ 128" using le_nat_bound [of data] assms by simp
  show "unat (drop_bit 0 (uletoh32 data) AND 0x3ffffff) = block_limb B 0"
    using w [of 0 0] by (simp add: unat_and_26 block_limb_def mod_mod_cancel)
  show "unat (drop_bit 2 (uletoh32 (drop 3 data)) AND 0x3ffffff) = block_limb B 1"
    using w [of 2 3] by (simp add: unat_and_26 block_limb_def mod_mod_cancel)
  show "unat (drop_bit 4 (uletoh32 (drop 6 data)) AND 0x3ffffff) = block_limb B 2"
    using w [of 4 6] by (simp add: unat_and_26 block_limb_def mod_mod_cancel)
  show "unat (drop_bit 6 (uletoh32 (drop 9 data)) AND 0x3ffffff) = block_limb B 3"
    using w [of 6 9] by (simp add: unat_and_26 block_limb_def mod_mod_cancel)
  have "B div 2 ^ 104 < 2 ^ 24" using B by (simp add: less_mult_imp_div_less)
  then show "unat (drop_bit 8 (uletoh32 (drop 12 data))) = block_limb B 4" and "block_limb B 4 < 2 ^ 24"
    using w [of 8 12] by (simp_all add: block_limb_def)
qed

lemma block_limb_sum:
  assumes "B < 2 ^ 128"
  shows "block_limb B 0 + 2 ^ 26 * block_limb B 1 + 2 ^ 52 * block_limb B 2
      + 2 ^ 78 * block_limb B 3 + 2 ^ 104 * block_limb B 4 = B"
proof -
  have step: "x = 2 ^ 26 * (x div 2 ^ 26) + x mod 2 ^ 26" for x :: nat by simp
  have top: "B div 2 ^ 104 mod 2 ^ 26 = B div 2 ^ 104" using assms by (simp add: less_mult_imp_div_less)
  define q1 q2 q3 q4 where q: "q1 = B div 2 ^ 26" "q2 = q1 div 2 ^ 26" "q3 = q2 div 2 ^ 26" "q4 = q3 div 2 ^ 26"
  have limb: "block_limb B 0 = B mod 2 ^ 26" "block_limb B 1 = q1 mod 2 ^ 26" "block_limb B 2 = q2 mod 2 ^ 26"
    "block_limb B 3 = q3 mod 2 ^ 26" "block_limb B 4 = q4"
    using top by (simp_all add: block_limb_def q flip: div_mult2_eq)
  obtain m0 m1 m2 m3 where m: "B mod 2 ^ 26 = m0" "q1 mod 2 ^ 26 = m1" "q2 mod 2 ^ 26 = m2" "q3 mod 2 ^ 26 = m3"
    by blast
  have "B = 2 ^ 26 * q1 + m0" "q1 = 2 ^ 26 * q2 + m1" "q2 = 2 ^ 26 * q3 + m2" "q3 = 2 ^ 26 * q4 + m3"
    unfolding m [symmetric] q by (rule step)+
  then show ?thesis unfolding limb m by simp
qed

text \<open>Schoolbook multiplication, the columns above \<open>2\<^sup>1\<^sup>3\<^sup>0\<close> folded down by five.\<close>

lemma limb_product:
  fixes a0 a1 a2 a3 a4 b0 b1 b2 b3 b4 :: nat
  shows "(a0 + 2 ^ 26 * a1 + 2 ^ 52 * a2 + 2 ^ 78 * a3 + 2 ^ 104 * a4)
      * (b0 + 2 ^ 26 * b1 + 2 ^ 52 * b2 + 2 ^ 78 * b3 + 2 ^ 104 * b4)
    = (a0 * b0 + a1 * (b4 * 5) + a2 * (b3 * 5) + a3 * (b2 * 5) + a4 * (b1 * 5))
      + 2 ^ 26 * (a0 * b1 + a1 * b0 + a2 * (b4 * 5) + a3 * (b3 * 5) + a4 * (b2 * 5))
      + 2 ^ 52 * (a0 * b2 + a1 * b1 + a2 * b0 + a3 * (b4 * 5) + a4 * (b3 * 5))
      + 2 ^ 78 * (a0 * b3 + a1 * b2 + a2 * b1 + a3 * b0 + a4 * (b4 * 5))
      + 2 ^ 104 * (a0 * b4 + a1 * b3 + a2 * b2 + a3 * b1 + a4 * b0)
      + p1305 * ((a1 * b4 + a2 * b3 + a3 * b2 + a4 * b1) + 2 ^ 26 * (a2 * b4 + a3 * b3 + a4 * b2)
        + 2 ^ 52 * (a3 * b4 + a4 * b3) + 2 ^ 78 * (a4 * b4))"
  by (simp add: p1305_def algebra_simps)

lemma mlt_no_wrap:
  assumes "unat (a :: u32) < 2 ^ 27 + 2 ^ 6" and "unat (b :: u32) < m" and "m \<le> 5 * 2 ^ 26"
  shows "unat (mlt (ucast a) (ucast b)) = unat a * unat b"
    and "unat a * unat b < (2 ^ 27 + 2 ^ 6) * m"
proof -
  show lt: "unat a * unat b < (2 ^ 27 + 2 ^ 6) * m"
    using assms by (intro mult_strict_mono') simp_all
  also have "\<dots> \<le> (2 ^ 27 + 2 ^ 6) * (5 * 2 ^ 26)"
    using assms(3) by (intro mult_left_mono) simp_all
  finally show "unat (mlt (ucast a) (ucast b)) = unat a * unat b"
    by (simp add: mlt_def unat_mult_no_wrap)
qed

lemma sum5_no_wrap:
  fixes a b c d e :: u64
  assumes "unat a < 2 ^ 60" and "unat b < 2 ^ 60" and "unat c < 2 ^ 60" and "unat d < 2 ^ 60"
    and "unat e < 2 ^ 60"
  shows "unat (a + b + c + d + e) = unat a + unat b + unat c + unat d + unat e"
  using assms by (simp add: unat_add_no_wrap)

lemma mult5_no_wrap:
  assumes "unat (b :: u32) < 2 ^ 26"
  shows "unat (b * 5) = unat b * 5" and "unat (b * 5) < 5 * 2 ^ 26"
  using assms by (simp_all add: unat_mult_no_wrap)

lemma mlt_key:
  assumes "unat (a :: u32) < 2 ^ 27 + 2 ^ 6" and "unat (b :: u32) < 2 ^ 26"
  shows "unat (mlt (ucast a) (ucast b)) = unat a * unat b"
    and "unat a * unat b < (2 ^ 27 + 2 ^ 6) * 2 ^ 26"
    and "unat (mlt (ucast a) (ucast (b * 5))) = unat a * (unat b * 5)"
    and "unat a * (unat b * 5) < (2 ^ 27 + 2 ^ 6) * (5 * 2 ^ 26)"
  using mlt_no_wrap [OF assms] mlt_no_wrap [OF assms(1) mult5_no_wrap(2) [OF assms(2)]]
    mult5_no_wrap(1) [OF assms(2)]
  by simp_all

lemma poly_mult_spec:
  assumes H: "unat (h0 :: u32) < 2 ^ 27 + 2 ^ 6" "unat (h1 :: u32) < 2 ^ 27 + 2 ^ 6" "unat (h2 :: u32) < 2 ^ 27 + 2 ^ 6"
      "unat (h3 :: u32) < 2 ^ 27 + 2 ^ 6" "unat (h4 :: u32) < 2 ^ 27 + 2 ^ 6"
    and R: "unat (r0 :: u32) < 2 ^ 26" "unat (r1 :: u32) < 2 ^ 26" "unat (r2 :: u32) < 2 ^ 26"
      "unat (r3 :: u32) < 2 ^ 26" "unat (r4 :: u32) < 2 ^ 26"
  defines "d0 \<equiv> mlt (ucast h0) (ucast r0) + mlt (ucast h1) (ucast (r4 * 5)) + mlt (ucast h2) (ucast (r3 * 5))
      + mlt (ucast h3) (ucast (r2 * 5)) + mlt (ucast h4) (ucast (r1 * 5))"
    and "d1 \<equiv> mlt (ucast h0) (ucast r1) + mlt (ucast h1) (ucast r0) + mlt (ucast h2) (ucast (r4 * 5))
      + mlt (ucast h3) (ucast (r3 * 5)) + mlt (ucast h4) (ucast (r2 * 5))"
    and "d2 \<equiv> mlt (ucast h0) (ucast r2) + mlt (ucast h1) (ucast r1) + mlt (ucast h2) (ucast r0)
      + mlt (ucast h3) (ucast (r4 * 5)) + mlt (ucast h4) (ucast (r3 * 5))"
    and "d3 \<equiv> mlt (ucast h0) (ucast r3) + mlt (ucast h1) (ucast r2) + mlt (ucast h2) (ucast r1)
      + mlt (ucast h3) (ucast r0) + mlt (ucast h4) (ucast (r4 * 5))"
    and "d4 \<equiv> mlt (ucast h0) (ucast r4) + mlt (ucast h1) (ucast r3) + mlt (ucast h2) (ucast r2)
      + mlt (ucast h3) (ucast r1) + mlt (ucast h4) (ucast r0)"
  shows "acc_wf (poly_carry d0 d1 d2 d3 d4)"
    and "limbs_nat (poly_carry d0 d1 d2 d3 d4) mod p1305
      = (limbs_nat (h0, h1, h2, h3, h4) * limbs_nat (r0, r1, r2, r3, r4)) mod p1305"
proof -
  note m = H [THEN mlt_key(1)] H [THEN mlt_key(3)] and b = H [THEN mlt_key(2)] H [THEN mlt_key(4)]
  have d0: "unat d0 = unat h0 * unat r0 + unat h1 * (unat r4 * 5) + unat h2 * (unat r3 * 5)
      + unat h3 * (unat r2 * 5) + unat h4 * (unat r1 * 5)" "unat d0 < 2 ^ 58 - 2 ^ 33"
    unfolding d0_def using R b(1) [OF R(1)] b(7) [OF R(5)] b(8) [OF R(4)] b(9) [OF R(3)] b(10) [OF R(2)]
    by (simp_all add: sum5_no_wrap m)
  have d1: "unat d1 = unat h0 * unat r1 + unat h1 * unat r0 + unat h2 * (unat r4 * 5)
      + unat h3 * (unat r3 * 5) + unat h4 * (unat r2 * 5)" "unat d1 < 2 ^ 58 - 2 ^ 33"
    unfolding d1_def using R b(1) [OF R(2)] b(2) [OF R(1)] b(8) [OF R(5)] b(9) [OF R(4)] b(10) [OF R(3)]
    by (simp_all add: sum5_no_wrap m)
  have d2: "unat d2 = unat h0 * unat r2 + unat h1 * unat r1 + unat h2 * unat r0
      + unat h3 * (unat r4 * 5) + unat h4 * (unat r3 * 5)" "unat d2 < 2 ^ 58 - 2 ^ 33"
    unfolding d2_def using R b(1) [OF R(3)] b(2) [OF R(2)] b(3) [OF R(1)] b(9) [OF R(5)] b(10) [OF R(4)]
    by (simp_all add: sum5_no_wrap m)
  have d3: "unat d3 = unat h0 * unat r3 + unat h1 * unat r2 + unat h2 * unat r1
      + unat h3 * unat r0 + unat h4 * (unat r4 * 5)" "unat d3 < 2 ^ 58 - 2 ^ 33"
    unfolding d3_def using R b(1) [OF R(4)] b(2) [OF R(3)] b(3) [OF R(2)] b(4) [OF R(1)] b(10) [OF R(5)]
    by (simp_all add: sum5_no_wrap m)
  have d4: "unat d4 = unat h0 * unat r4 + unat h1 * unat r3 + unat h2 * unat r2
      + unat h3 * unat r1 + unat h4 * unat r0" "unat d4 < 11 * 2 ^ 52"
    unfolding d4_def using R b(1) [OF R(5)] b(2) [OF R(4)] b(3) [OF R(3)] b(4) [OF R(2)] b(5) [OF R(1)]
    by (simp_all add: sum5_no_wrap m)
  note spec = poly_carry_spec [OF d0(2) d1(2) d2(2) d3(2) d4(2)]
  show "acc_wf (poly_carry d0 d1 d2 d3 d4)" by (rule spec(1))
  have "limbs_nat (h0, h1, h2, h3, h4) * limbs_nat (r0, r1, r2, r3, r4)
      = unat d0 + 2 ^ 26 * unat d1 + 2 ^ 52 * unat d2 + 2 ^ 78 * unat d3 + 2 ^ 104 * unat d4
        + p1305 * ((unat h1 * unat r4 + unat h2 * unat r3 + unat h3 * unat r2 + unat h4 * unat r1)
          + 2 ^ 26 * (unat h2 * unat r4 + unat h3 * unat r3 + unat h4 * unat r2)
          + 2 ^ 52 * (unat h3 * unat r4 + unat h4 * unat r3) + 2 ^ 78 * (unat h4 * unat r4))"
    unfolding d0(1) d1(1) d2(1) d3(1) d4(1) limbs_nat_def prod.case by (rule limb_product)
  then show "limbs_nat (poly_carry d0 d1 d2 d3 d4) mod p1305
      = (limbs_nat (h0, h1, h2, h3, h4) * limbs_nat (r0, r1, r2, r3, r4)) mod p1305"
    unfolding spec(2) by (metis mod_mult_self2)
qed

lemma uletoh32_take: "k + 4 \<le> n \<Longrightarrow> uletoh32 (drop k (take n data)) = uletoh32 (drop k data)"
  by (simp add: uletoh32_def drop_take min_def)

lemma poly_block_take: "poly_block r h (take 16 data) = poly_block r h data"
proof -
  have "uletoh32 (take 16 data) = uletoh32 data" using uletoh32_take [of 0 16 data] by simp
  then show ?thesis by (simp only: poly_block_def uletoh32_take)
qed

text \<open>The specification of one block: add it, with the bit above it, and multiply by the key.\<close>

definition poly_step :: "nat \<Rightarrow> nat \<Rightarrow> chunk \<Rightarrow> nat" where
  "poly_step r a block = (a + le_nat (block @ [1])) * r mod p1305"

lemma poly_block_spec:
  assumes "acc_wf h" and "key_wf r" and "16 \<le> length data"
  shows "acc_wf (poly_block r h data)"
    and "limbs_nat (poly_block r h data) mod p1305 = poly_step (limbs_nat r) (limbs_nat h) (take 16 data)"
proof -
  define block where "block = take 16 data"
  define B where "B = le_nat block"
  obtain h0 h1 h2 h3 h4 where h: "h = (h0, h1, h2, h3, h4)" by (cases h)
  obtain r0 r1 r2 r3 r4 where r: "r = (r0, r1, r2, r3, r4)" by (cases r)
  have len: "length block = 16" using assms(3) by (simp add: block_def)
  note limbs = block_limbs [OF len, folded B_def]
  have lb: "block_limb B i < 2 ^ 26" for i by (simp add: block_limb_def)
  have top: "unat (drop_bit 8 (uletoh32 (drop 12 block)) OR push_bit 24 1) = block_limb B 4 + 2 ^ 24"
    using limbs(5,6) unat_or_push_bit [of "drop_bit 8 (uletoh32 (drop 12 block))" 24 1] by simp
  define k0 k1 k2 k3 k4 where k:
    "k0 = h0 + (drop_bit 0 (uletoh32 block) AND 0x3ffffff)"
    "k1 = h1 + (drop_bit 2 (uletoh32 (drop 3 block)) AND 0x3ffffff)"
    "k2 = h2 + (drop_bit 4 (uletoh32 (drop 6 block)) AND 0x3ffffff)"
    "k3 = h3 + (drop_bit 6 (uletoh32 (drop 9 block)) AND 0x3ffffff)"
    "k4 = h4 + (drop_bit 8 (uletoh32 (drop 12 block)) OR push_bit 24 1)"
  have acc: "unat h0 < 2 ^ 26" "unat h1 < 2 ^ 26 + 2 ^ 6" "unat h2 < 2 ^ 26" "unat h3 < 2 ^ 26" "unat h4 < 2 ^ 26"
    using assms(1) by (simp_all add: acc_wf_def h)
  have k0: "unat k0 = unat h0 + block_limb B 0" using acc lb [of 0] limbs(1) by (simp add: k unat_add_no_wrap)
  have k1: "unat k1 = unat h1 + block_limb B 1" using acc lb [of 1] limbs(2) by (simp add: k unat_add_no_wrap)
  have k2: "unat k2 = unat h2 + block_limb B 2" using acc lb [of 2] limbs(3) by (simp add: k unat_add_no_wrap)
  have k3: "unat k3 = unat h3 + block_limb B 3" using acc lb [of 3] limbs(4) by (simp add: k unat_add_no_wrap)
  have k4: "unat k4 = unat h4 + (block_limb B 4 + 2 ^ 24)" using acc limbs(6) top by (simp add: k unat_add_no_wrap)
  have K: "unat k0 < 2 ^ 27 + 2 ^ 6" "unat k1 < 2 ^ 27 + 2 ^ 6" "unat k2 < 2 ^ 27 + 2 ^ 6"
      "unat k3 < 2 ^ 27 + 2 ^ 6" "unat k4 < 2 ^ 27 + 2 ^ 6"
    using acc lb [of 0] lb [of 1] lb [of 2] lb [of 3] limbs(6) by (simp_all add: k0 k1 k2 k3 k4)
  have R: "unat r0 < 2 ^ 26" "unat r1 < 2 ^ 26" "unat r2 < 2 ^ 26" "unat r3 < 2 ^ 26" "unat r4 < 2 ^ 26"
    using assms(2) by (simp_all add: key_wf_def r)
  note spec = poly_mult_spec [OF K R]
  have eq: "poly_block r h data = poly_block r h block" by (simp add: block_def poly_block_take)
  show "acc_wf (poly_block r h data)"
    using spec(1) unfolding eq by (simp only: poly_block_def h r k Let_def prod.case)
  have "B < 2 ^ 128" using le_nat_bound [of block] len by (simp add: B_def)
  then have "limbs_nat (k0, k1, k2, k3, k4) = limbs_nat h + (B + 2 ^ 128)"
    using block_limb_sum [of B] by (simp add: limbs_nat_def h k0 k1 k2 k3 k4 algebra_simps)
  then have "limbs_nat (k0, k1, k2, k3, k4) = limbs_nat h + le_nat (block @ [1])"
    using len by (simp add: le_nat_append B_def)
  then show "limbs_nat (poly_block r h data) mod p1305 = poly_step (limbs_nat r) (limbs_nat h) (take 16 data)"
    using spec(2) unfolding eq poly_step_def block_def [symmetric]
    by (simp only: poly_block_def h r k Let_def prod.case)
qed

fun poly_steps :: "nat \<Rightarrow> nat \<Rightarrow> chunk \<Rightarrow> nat \<Rightarrow> nat" where
  "poly_steps r a data 0 = a"
| "poly_steps r a data (Suc n) = poly_steps r (poly_step r a (take 16 data)) (drop 16 data) n"

lemma poly_step_mod: "poly_step r (a mod p1305) block = poly_step r a block"
  unfolding poly_step_def by (metis mod_add_left_eq mod_mult_left_eq)

lemma poly_blocks_spec:
  assumes "acc_wf h" and "key_wf r" and "16 * n \<le> length data"
  shows "acc_wf (poly_blocks r h data n)
    \<and> limbs_nat (poly_blocks r h data n) mod p1305 = poly_steps (limbs_nat r) (limbs_nat h mod p1305) data n"
  using assms
proof (induction n arbitrary: h data)
  case (Suc n)
  have "16 \<le> length data" using Suc.prems by simp
  note b = poly_block_spec [OF Suc.prems(1,2) this]
  show ?case using Suc.IH [OF b(1) Suc.prems(2), of "drop 16 data"] Suc.prems(3) b(2)
    by (simp add: poly_step_mod)
qed simp

text \<open>Finishing: a fully carried accumulator, then its residue.\<close>

definition carried :: "limbs \<Rightarrow> bool" where
  "carried h = (case h of (h0, h1, h2, h3, h4) \<Rightarrow>
     unat h0 < 2 ^ 26 \<and> unat h1 < 2 ^ 26 \<and> unat h2 < 2 ^ 26 \<and> unat h3 < 2 ^ 26 \<and> unat h4 < 2 ^ 26)"

lemma finish_carry_spec:
  assumes "acc_wf h"
  shows "carried (finish_carry h)" and "limbs_nat (finish_carry h) mod p1305 = limbs_nat h mod p1305"
proof -
  obtain h0 h1 h2 h3 h4 where h: "h = (h0, h1, h2, h3, h4)" by (cases h)
  have acc: "unat h0 < 2 ^ 26" "unat h1 < 2 ^ 26 + 2 ^ 6" "unat h2 < 2 ^ 26" "unat h3 < 2 ^ 26" "unat h4 < 2 ^ 26"
    using assms by (simp_all add: acc_wf_def h)
  define k2 where "k2 = h2 + drop_bit 26 h1"
  define k3 where "k3 = h3 + drop_bit 26 k2"
  define k4 where "k4 = h4 + drop_bit 26 k3"
  define k0 where "k0 = h0 + drop_bit 26 k4 * 5"
  define k1 where "k1 = (h1 AND 0x3ffffff) + drop_bit 26 k0"
  have eq: "finish_carry h = (k0 AND 0x3ffffff, k1, k2 AND 0x3ffffff, k3 AND 0x3ffffff, k4 AND 0x3ffffff)"
    by (simp add: finish_carry_def Let_def h k0_def k1_def k2_def k3_def k4_def)
  have c1: "unat h1 div 2 ^ 26 \<le> 1" using acc(2) by (simp add: less_Suc_eq_le [symmetric] less_mult_imp_div_less)
  have k2: "unat k2 = unat h2 + unat h1 div 2 ^ 26"
    using c1 acc unfolding k2_def by (subst unat_add_no_wrap) (simp_all add: unat_drop_bit)
  have c2: "unat k2 div 2 ^ 26 \<le> 1" using acc(3) k2 c1 by simp
  have k3: "unat k3 = unat h3 + unat k2 div 2 ^ 26"
    using c2 acc unfolding k3_def by (subst unat_add_no_wrap) (simp_all add: unat_drop_bit)
  have c3: "unat k3 div 2 ^ 26 \<le> 1" using acc(4) k3 c2 by simp
  have k4: "unat k4 = unat h4 + unat k3 div 2 ^ 26"
    using c3 acc unfolding k4_def by (subst unat_add_no_wrap) (simp_all add: unat_drop_bit)
  have c4: "unat k4 div 2 ^ 26 \<le> 1" using acc(5) k4 c3 by simp
  have five: "unat (drop_bit 26 k4 * 5) = unat k4 div 2 ^ 26 * 5"
    using c4 by (subst unat_mult_no_wrap) (simp_all add: unat_drop_bit)
  have k0: "unat k0 = unat h0 + unat k4 div 2 ^ 26 * 5"
    using c4 acc unfolding k0_def by (subst unat_add_no_wrap) (simp_all add: five)
  have c0: "unat k0 div 2 ^ 26 \<le> 1" using acc(1) k0 c4 by simp
  have k1: "unat k1 = unat h1 mod 2 ^ 26 + unat k0 div 2 ^ 26"
  proof -
    have "unat h1 mod 2 ^ 26 < 2 ^ 26" by simp
    then show ?thesis
      using c0 unfolding k1_def by (subst unat_add_no_wrap) (simp_all add: unat_drop_bit unat_and_26)
  qed
  have k1_lt: "unat k1 < 2 ^ 26"
  proof (cases "unat h1 < 2 ^ 26")
    case True
    then have "unat k4 div 2 ^ 26 = 0" using acc k2 k3 k4 by simp
    then show ?thesis using True acc k0 k1 by simp
  next
    case False
    then have "unat h1 mod 2 ^ 26 = unat h1 - 2 ^ 26" using acc(2) by (simp add: mod_if)
    then show ?thesis using acc(2) c0 k1 False by simp
  qed
  show "carried (finish_carry h)"
    using k1_lt by (simp add: eq carried_def unat_and_26)
  have "limbs_nat (finish_carry h) + p1305 * (unat k4 div 2 ^ 26) = limbs_nat h"
  proof -
    have "unat k0 mod 2 ^ 26 + 2 ^ 26 * (unat h1 mod 2 ^ 26 + unat k0 div 2 ^ 26) + 2 ^ 52 * (unat k2 mod 2 ^ 26)
      + 2 ^ 78 * (unat k3 mod 2 ^ 26) + 2 ^ 104 * (unat k4 mod 2 ^ 26) + p1305 * (unat k4 div 2 ^ 26)
      = unat h0 + 2 ^ 26 * unat h1 + 2 ^ 52 * unat h2 + 2 ^ 78 * unat h3 + 2 ^ 104 * unat h4"
      by (rule carry_chain) (use acc k0 k2 k3 k4 in simp_all)
    then show ?thesis unfolding eq by (simp add: limbs_nat_def h k1 unat_and_26)
  qed
  then show "limbs_nat (finish_carry h) mod p1305 = limbs_nat h mod p1305"
    by (metis mod_mult_self2)
qed

lemma finish_select_spec:
  assumes "carried h"
  shows "carried (finish_select h)" and "limbs_nat (finish_select h) = limbs_nat h mod p1305"
proof -
  obtain h0 h1 h2 h3 h4 where h: "h = (h0, h1, h2, h3, h4)" by (cases h)
  have c: "unat h0 < 2 ^ 26" "unat h1 < 2 ^ 26" "unat h2 < 2 ^ 26" "unat h3 < 2 ^ 26" "unat h4 < 2 ^ 26"
    using assms by (simp_all add: carried_def h)
  define g0 where "g0 = h0 + 5"
  define g1 where "g1 = h1 + drop_bit 26 g0"
  define g2 where "g2 = h2 + drop_bit 26 g1"
  define g3 where "g3 = h3 + drop_bit 26 g2"
  define t where "t = h4 + drop_bit 26 g3"
  define msk where "msk = drop_bit 31 (t - push_bit 26 1) - 1"
  have g0: "unat g0 = unat h0 + 5" "unat g0 div 2 ^ 26 \<le> 1"
    using c by (simp_all add: g0_def unat_add_no_wrap)
  have g1: "unat g1 = unat h1 + unat g0 div 2 ^ 26" "unat g1 div 2 ^ 26 \<le> 1"
    using c g0(2) by (simp_all add: g1_def unat_add_no_wrap unat_drop_bit)
  have g2: "unat g2 = unat h2 + unat g1 div 2 ^ 26" "unat g2 div 2 ^ 26 \<le> 1"
    using c g1(2) by (simp_all add: g2_def unat_add_no_wrap unat_drop_bit)
  have g3: "unat g3 = unat h3 + unat g2 div 2 ^ 26" "unat g3 div 2 ^ 26 \<le> 1"
    using c g2(2) by (simp_all add: g3_def unat_add_no_wrap unat_drop_bit)
  have t: "unat t = unat h4 + unat g3 div 2 ^ 26" "unat t \<le> 2 ^ 26"
    using c g3(2) by (simp_all add: t_def unat_add_no_wrap unat_drop_bit)
  have eq: "finish_select h = ((h0 AND NOT msk) OR ((g0 AND 0x3ffffff) AND msk),
      (h1 AND NOT msk) OR ((g1 AND 0x3ffffff) AND msk), (h2 AND NOT msk) OR ((g2 AND 0x3ffffff) AND msk),
      (h3 AND NOT msk) OR ((g3 AND 0x3ffffff) AND msk), (h4 AND NOT msk) OR ((t - push_bit 26 1) AND msk))"
    by (simp add: finish_select_def Let_def h g0_def g1_def g2_def g3_def t_def msk_def)
  have sum: "unat g0 mod 2 ^ 26 + 2 ^ 26 * (unat g1 mod 2 ^ 26) + 2 ^ 52 * (unat g2 mod 2 ^ 26)
      + 2 ^ 78 * (unat g3 mod 2 ^ 26) + 2 ^ 104 * unat t = limbs_nat h + 5"
  proof -
    have split: "x = 2 ^ 26 * (x div 2 ^ 26) + x mod 2 ^ 26" for x :: nat by simp
    obtain q0 q1 q2 q3 where q: "unat g0 div 2 ^ 26 = q0" "unat g1 div 2 ^ 26 = q1"
      "unat g2 div 2 ^ 26 = q2" "unat g3 div 2 ^ 26 = q3" by blast
    obtain m0 m1 m2 m3 where m: "unat g0 mod 2 ^ 26 = m0" "unat g1 mod 2 ^ 26 = m1"
      "unat g2 mod 2 ^ 26 = m2" "unat g3 mod 2 ^ 26 = m3" by blast
    have "unat g0 = 2 ^ 26 * q0 + m0" "unat g1 = 2 ^ 26 * q1 + m1" "unat g2 = 2 ^ 26 * q2 + m2"
        "unat g3 = 2 ^ 26 * q3 + m3"
      unfolding q [symmetric] m [symmetric] by (rule split)+
    moreover note g0(1) g1(1) [unfolded q] g2(1) [unfolded q] g3(1) [unfolded q] t(1) [unfolded q]
    ultimately show ?thesis unfolding m limbs_nat_def h prod.case by simp
  qed
  have low: "unat g0 mod 2 ^ 26 + 2 ^ 26 * (unat g1 mod 2 ^ 26) + 2 ^ 52 * (unat g2 mod 2 ^ 26)
      + 2 ^ 78 * (unat g3 mod 2 ^ 26) < 2 ^ 104"
  proof -
    have "x mod 2 ^ 26 \<le> 2 ^ 26 - 1" for x :: nat by (simp add: less_Suc_eq_le [symmetric])
    from this [of "unat g0"] this [of "unat g1"] this [of "unat g2"] this [of "unat g3"]
    show ?thesis by simp
  qed
  have "carried (finish_select h) \<and> limbs_nat (finish_select h) = limbs_nat h mod p1305"
  proof (cases "unat t = 2 ^ 26")
    case True
    then have t26: "t = push_bit 26 1" by (simp add: word_unat_eq_iff)
    then have "msk = - 1" by (simp add: msk_def)
    then have sel: "finish_select h = (g0 AND 0x3ffffff, g1 AND 0x3ffffff, g2 AND 0x3ffffff, g3 AND 0x3ffffff, 0)"
      by (simp add: eq t26)
    have "limbs_nat (finish_select h) + p1305 = limbs_nat h"
      using sum True by (simp add: sel limbs_nat_def unat_and_26 p1305_def)
    moreover have "limbs_nat (finish_select h) < p1305"
      using low by (simp add: sel limbs_nat_def unat_and_26 p1305_def)
    ultimately have "limbs_nat h mod p1305 = limbs_nat (finish_select h)"
      by (metis mod_add_self2 mod_less)
    then show ?thesis by (simp add: sel carried_def unat_and_26)
  next
    case False
    then have lt: "unat t < 2 ^ 26" using t(2) by simp
    then have "unat (t - push_bit 26 1) = 2 ^ 32 + unat t - 2 ^ 26"
      by (simp add: unat_sub_if')
    then have "unat (drop_bit 31 (t - push_bit 26 1)) = 1"
      using lt by (simp add: unat_drop_bit)
    then have "drop_bit 31 (t - push_bit 26 1) = 1" by (metis unat_1 word_unat_eq_iff)
    then have "msk = 0" by (simp add: msk_def)
    then have sel: "finish_select h = h" unfolding eq by (simp add: h)
    have "limbs_nat h + 5 < 2 ^ 130" using sum low lt by simp
    then show ?thesis using assms by (simp add: sel p1305_def)
  qed
  then show "carried (finish_select h)" and "limbs_nat (finish_select h) = limbs_nat h mod p1305"
    by blast+
qed

lemma unat_push_bit: "unat (push_bit n (a :: 'a::len word)) = 2 ^ n * unat a mod 2 ^ LENGTH('a)"
  by (simp add: unsigned_push_bit_eq take_bit_eq_mod) (simp add: push_bit_eq_mult mult.commute)

lemma unat_le_max32: "unat (w :: u32) \<le> 4294967295"
  using unat_lt_pow256(3) [of w] by linarith

lemma finish_pack_spec:
  assumes "carried h" and "finish_pack h = (w0, w1, w2, w3)"
  shows "unat w0 + 2 ^ 32 * unat w1 + 2 ^ 64 * unat w2 + 2 ^ 96 * unat w3 = limbs_nat h mod 2 ^ 128"
proof -
  obtain h0 h1 h2 h3 h4 where h: "h = (h0, h1, h2, h3, h4)" by (cases h)
  have c: "unat h0 < 2 ^ 26" "unat h1 < 2 ^ 26" "unat h2 < 2 ^ 26" "unat h3 < 2 ^ 26" "unat h4 < 2 ^ 26"
    using assms(1) by (simp_all add: carried_def h)
  have w: "w0 = h0 OR push_bit 26 h1" "w1 = drop_bit 6 h1 OR push_bit 20 h2"
      "w2 = drop_bit 12 h2 OR push_bit 14 h3" "w3 = drop_bit 18 h3 OR push_bit 8 h4"
    using assms(2) by (simp_all add: finish_pack_def h)
  have w0: "unat w0 = unat h0 + 2 ^ 26 * (unat h1 mod 2 ^ 6)"
    using c unat_or_push_bit [of h0 26 h1] mult_mod_right [of "2 ^ 26" "unat h1" "2 ^ 6"]
    by (simp add: w unat_push_bit)
  have w1: "unat w1 = unat h1 div 2 ^ 6 + 2 ^ 20 * (unat h2 mod 2 ^ 12)"
    using c unat_or_push_bit [of "drop_bit 6 h1" 20 h2] mult_mod_right [of "2 ^ 20" "unat h2" "2 ^ 12"]
    by (simp add: w unat_push_bit unat_drop_bit less_mult_imp_div_less)
  have w2: "unat w2 = unat h2 div 2 ^ 12 + 2 ^ 14 * (unat h3 mod 2 ^ 18)"
    using c unat_or_push_bit [of "drop_bit 12 h2" 14 h3] mult_mod_right [of "2 ^ 14" "unat h3" "2 ^ 18"]
    by (simp add: w unat_push_bit unat_drop_bit less_mult_imp_div_less)
  have w3: "unat w3 = unat h3 div 2 ^ 18 + 2 ^ 8 * (unat h4 mod 2 ^ 24)"
    using c unat_or_push_bit [of "drop_bit 18 h3" 8 h4] mult_mod_right [of "2 ^ 8" "unat h4" "2 ^ 24"]
    by (simp add: w unat_push_bit unat_drop_bit less_mult_imp_div_less)
  have split: "x = 2 ^ n * (x div 2 ^ n) + x mod 2 ^ n" for x n :: nat by simp
  have "unat w0 + 2 ^ 32 * unat w1 + 2 ^ 64 * unat w2 + 2 ^ 96 * unat w3 + 2 ^ 128 * (unat h4 div 2 ^ 24)
      = limbs_nat h"
  proof -
    obtain q1 q2 q3 q4 where q: "unat h1 div 2 ^ 6 = q1" "unat h2 div 2 ^ 12 = q2" "unat h3 div 2 ^ 18 = q3"
      "unat h4 div 2 ^ 24 = q4" by blast
    obtain m1 m2 m3 m4 where m: "unat h1 mod 2 ^ 6 = m1" "unat h2 mod 2 ^ 12 = m2" "unat h3 mod 2 ^ 18 = m3"
      "unat h4 mod 2 ^ 24 = m4" by blast
    have "unat h1 = 2 ^ 6 * q1 + m1" "unat h2 = 2 ^ 12 * q2 + m2" "unat h3 = 2 ^ 18 * q3 + m3"
        "unat h4 = 2 ^ 24 * q4 + m4"
      unfolding q [symmetric] m [symmetric] by (rule split)+
    then show ?thesis unfolding w0 w1 w2 w3 q m limbs_nat_def h prod.case by simp
  qed
  moreover have "unat w0 + 2 ^ 32 * unat w1 + 2 ^ 64 * unat w2 + 2 ^ 96 * unat w3 < 2 ^ 128"
    using unat_le_max32 [of w0] unat_le_max32 [of w1] unat_le_max32 [of w2] unat_le_max32 [of w3] by simp
  ultimately show ?thesis
    by (metis mod_less mod_mult_self2)
qed

definition words_nat :: "u32 \<times> u32 \<times> u32 \<times> u32 \<Rightarrow> nat" where
  "words_nat s = (case s of (s0, s1, s2, s3) \<Rightarrow>
     unat s0 + 2 ^ 32 * unat s1 + 2 ^ 64 * unat s2 + 2 ^ 96 * unat s3)"

lemma htoule32_ucast: "htoule32 (ucast (f :: u64)) = nat_le 4 (unat f)"
proof -
  have "unat (ucast f :: u32) = unat f mod 2 ^ 32"
    by (simp add: unsigned_ucast_eq take_bit_eq_mod)
  then show ?thesis using nat_le_mod [of 4 "unat f"] by (simp add: htoule32_def)
qed

lemma nat_le_add: "nat_le m k @ nat_le n (k div 256 ^ m) = nat_le (m + n) k"
  by (induction m arbitrary: k) (simp_all add: div_mult2_eq)

text \<open>The final sum modulo \<open>2\<^sup>1\<^sup>2\<^sup>8\<close>, word by word with a 64-bit carry.\<close>

lemma finish_sum:
  fixes a0 a1 a2 a3 s0 s1 s2 s3 :: u32
  defines "f0 \<equiv> ucast a0 + ucast s0 :: u64"
  defines "f1 \<equiv> drop_bit 32 f0 + ucast a1 + ucast s1"
  defines "f2 \<equiv> drop_bit 32 f1 + ucast a2 + ucast s2"
  defines "f3 \<equiv> drop_bit 32 f2 + ucast a3 + ucast s3"
  shows "htoule32 (ucast f0) @ htoule32 (ucast f1) @ htoule32 (ucast f2) @ htoule32 (ucast f3)
    = nat_le 16 (words_nat (a0, a1, a2, a3) + words_nat (s0, s1, s2, s3))"
proof -
  note lt = unat_le_max32
  have f0: "unat f0 = unat a0 + unat s0"
    using lt [of a0] lt [of s0] by (simp add: f0_def unat_add_no_wrap)
  have step: "unat (drop_bit 32 f + ucast a + ucast s) = unat f div 2 ^ 32 + unat a + unat s"
    for f :: u64 and a s :: u32
  proof -
    have "unat f div 2 ^ 32 < 2 ^ 32" by (simp add: less_mult_imp_div_less)
    then show ?thesis using lt [of a] lt [of s] by (simp add: unat_add_no_wrap unat_drop_bit)
  qed
  define N where "N = words_nat (a0, a1, a2, a3) + words_nat (s0, s1, s2, s3)"
  have d: "(x + 2 ^ 32 * y) div 2 ^ 32 = x div 2 ^ 32 + y" for x y :: nat by simp
  have N1: "N div 256 ^ 4 = unat f1 + 2 ^ 32 * (unat a2 + unat s2 + 2 ^ 32 * (unat a3 + unat s3))"
  proof -
    have "N = unat f0 + 2 ^ 32 * (unat a1 + unat s1 + 2 ^ 32 * (unat a2 + unat s2 + 2 ^ 32 * (unat a3 + unat s3)))"
      by (simp add: N_def words_nat_def f0)
    then show ?thesis using d by (simp add: f1_def step)
  qed
  have N2: "N div 256 ^ 4 div 256 ^ 4 = unat f2 + 2 ^ 32 * (unat a3 + unat s3)"
    unfolding N1 using d [of "unat f1"] by (simp add: f2_def step)
  have N3: "N div 256 ^ 4 div 256 ^ 4 div 256 ^ 4 = unat f3"
    unfolding N2 using d [of "unat f2"] by (simp add: f3_def step)
  have m: "nat_le 4 (x + 2 ^ 32 * y) = nat_le 4 x" for x y
    using nat_le_mod [of 4 "x + 2 ^ 32 * y"] nat_le_mod [of 4 x] by simp
  have N0: "nat_le 4 N = nat_le 4 (unat f0)"
    using m [of "unat f0" "unat a1 + unat s1 + 2 ^ 32 * (unat a2 + unat s2 + 2 ^ 32 * (unat a3 + unat s3))"]
    by (simp add: N_def words_nat_def f0 algebra_simps)
  have "nat_le 16 N = nat_le 4 N @ nat_le 4 (N div 256 ^ 4) @ nat_le 4 (N div 256 ^ 4 div 256 ^ 4)
      @ nat_le 4 (N div 256 ^ 4 div 256 ^ 4 div 256 ^ 4)"
    using nat_le_add [of 4 N 12] nat_le_add [of 4 "N div 256 ^ 4" 8] nat_le_add [of 4 "N div 256 ^ 4 div 256 ^ 4" 4]
    by simp
  then have "nat_le 16 N = nat_le 4 (unat f0) @ nat_le 4 (unat f1) @ nat_le 4 (unat f2) @ nat_le 4 (unat f3)"
    unfolding N3 unfolding N2 m unfolding N1 m N0 .
  then show ?thesis by (simp only: N_def htoule32_ucast)
qed

lemma drv_finish_spec:
  assumes "acc_wf (poly_h this)"
  shows "drv_finish this
    = (True, nat_le 16 (limbs_nat (poly_h this) mod p1305 + words_nat (poly_s this)), this)"
proof -
  let ?k = "finish_select (finish_carry (poly_h this))"
  obtain w0 w1 w2 w3 where w: "finish_pack ?k = (w0, w1, w2, w3)" by (cases "finish_pack ?k")
  obtain s0 s1 s2 s3 where s: "poly_s this = (s0, s1, s2, s3)" by (cases "poly_s this")
  note c = finish_carry_spec [OF assms]
  note sel = finish_select_spec [OF c(1)]
  have "words_nat (w0, w1, w2, w3) = limbs_nat (poly_h this) mod p1305 mod 2 ^ 128"
    using finish_pack_spec [OF sel(1) w] c(2) sel(2) by (simp add: words_nat_def)
  moreover have "nat_le 16 (a mod 2 ^ 128 + b) = nat_le 16 (a + b)" for a b
    using nat_le_mod [of 16 "a mod 2 ^ 128 + b"] nat_le_mod [of 16 "a + b"] by (simp add: mod_add_left_eq)
  ultimately show ?thesis
    using finish_sum [of w0 s0 w1 s1 w2 s2 w3 s3] by (simp add: drv_finish_def w s Let_def)
qed

end
