(* ===== verification/Chacha20.thy ===== *)
theory Chacha20
  imports Chapoly_Drv
begin

unbundle bit_operations_syntax

text \<open>
  The ChaCha20 half of the portable driver against the quarter-round definition of the
  cipher: the interleaved straight-line code of \<open>chacha_block_xor\<close> computes four column and
  four diagonal quarter rounds, and its word-wise exclusive or is the byte-wise one with the
  serialized key stream block.
\<close>

section \<open>The cipher by quarter rounds\<close>

definition quarter_round :: "nat \<Rightarrow> nat \<Rightarrow> nat \<Rightarrow> nat \<Rightarrow> u32 list \<Rightarrow> u32 list" where
  "quarter_round i j k l x =
     (let a = x ! i; b = x ! j; c = x ! k; d = x ! l;
          a = a + b; d = word_rotl 16 (d XOR a);
          c = c + d; b = word_rotl 12 (b XOR c);
          a = a + b; d = word_rotl 8 (d XOR a);
          c = c + d; b = word_rotl 7 (b XOR c)
      in x[i := a, j := b, k := c, l := d])"

definition column_rounds :: "u32 list \<Rightarrow> u32 list" where
  "column_rounds x = quarter_round 3 7 11 15 (quarter_round 2 6 10 14
     (quarter_round 1 5 9 13 (quarter_round 0 4 8 12 x)))"

definition diagonal_rounds :: "u32 list \<Rightarrow> u32 list" where
  "diagonal_rounds x = quarter_round 3 4 9 14 (quarter_round 2 7 8 13
     (quarter_round 1 6 11 12 (quarter_round 0 5 10 15 x)))"

definition chacha20_block :: "u32 list \<Rightarrow> chunk" where
  "chacha20_block m = concat (map htoule32 (map2 (+) (((diagonal_rounds \<circ> column_rounds) ^^ 10) m) m))"

lemma rotl32_word_rotl:
  assumes "0 < n" and "n < 32"
  shows "rotl32 v n = word_rotl n v"
proof (rule bit_word_eqI)
  fix i assume "i < LENGTH(32)"
  then have i: "i < 32" by simp
  have l: "bit (rotl32 v n) i \<longleftrightarrow> (n \<le> i \<and> bit v (i - n)) \<or> bit v (32 - n + i)"
    using i by (simp add: rotl32_def bit_or_iff bit_push_bit_iff bit_drop_bit_eq)
  have r: "bit (word_rotl n v) i \<longleftrightarrow> bit v ((i + (32 - n)) mod 32)"
    using assms i by (simp add: bit_word_rotl_iff)
  show "bit (rotl32 v n) i \<longleftrightarrow> bit (word_rotl n v) i"
  proof (cases "n \<le> i")
    case True
    then have "(i + (32 - n)) mod 32 = i - n" "\<not> bit v (32 - n + i)"
      using assms i by (auto simp: mod_if dest: bit_imp_le_length)
    then show ?thesis using True by (simp add: l r)
  next
    case False
    then have "(i + (32 - n)) mod 32 = 32 - n + i" using assms by simp
    then show ?thesis using False by (simp add: l r)
  qed
qed

lemma length_16_split:
  assumes "length x = 16"
  obtains x0 x1 x2 x3 x4 x5 x6 x7 x8 x9 xa xb xc xd xe xf
  where "x = [x0, x1, x2, x3, x4, x5, x6, x7, x8, x9, xa, xb, xc, xd, xe, xf]"
  using assms by (auto simp: numeral_eq_Suc length_Suc_conv)

lemma chacha_columns_eq: "length x = 16 \<Longrightarrow> chacha_columns x = column_rounds x"
  by (erule length_16_split)
    (simp add: chacha_columns_def column_rounds_def quarter_round_def rotl32_word_rotl Let_def)

lemma chacha_diagonals_eq: "length x = 16 \<Longrightarrow> chacha_diagonals x = diagonal_rounds x"
  by (erule length_16_split)
    (simp add: chacha_diagonals_def diagonal_rounds_def quarter_round_def rotl32_word_rotl Let_def)

lemma length_rounds [simp]:
  "length (column_rounds x) = length x" "length (diagonal_rounds x) = length x"
  by (simp_all add: column_rounds_def diagonal_rounds_def quarter_round_def Let_def)

lemma chacha_rounds_eq:
  "length x = 16 \<Longrightarrow> chacha_rounds n x = ((diagonal_rounds \<circ> column_rounds) ^^ n) x"
  by (induction n arbitrary: x)
    (simp_all add: chacha_columns_eq chacha_diagonals_eq funpow_swap1)

section \<open>The block function of the driver\<close>

lemma xor32u_bytes: "length p = 4 \<Longrightarrow> xor32u p x = map2 (XOR) p (htoule32 x)"
  by (simp add: xor32u_def htoule32_xor htoule_uletoh)

lemma concat_xor_words:
  assumes "length data \<ge> 4 * length ws"
  shows "concat (map (\<lambda>i. xor32u (take 4 (drop (4 * i) data)) (ws ! i)) [0..<length ws])
    = map2 (XOR) (take (4 * length ws) data) (concat (map htoule32 ws))"
  using assms
proof (induction ws arbitrary: data)
  case (Cons w ws)
  have "concat (map (\<lambda>i. xor32u (take 4 (drop (4 * i) data)) ((w # ws) ! i)) [0..<length (w # ws)])
      = xor32u (take 4 data) w
        @ concat (map (\<lambda>i. xor32u (take 4 (drop (4 * i) (drop 4 data))) (ws ! i)) [0..<length ws])"
    by (simp only: length_Cons upt_conv_Cons [OF zero_less_Suc] list.map concat.simps map_Suc_upt [symmetric])
      (simp add: comp_def algebra_simps)
  also have "\<dots> = map2 (XOR) (take 4 data) (htoule32 w)
      @ map2 (XOR) (take (4 * length ws) (drop 4 data)) (concat (map htoule32 ws))"
    using Cons.IH [of "drop 4 data"] Cons.prems by (simp add: xor32u_bytes)
  also have "\<dots> = map2 (XOR) (take 4 data @ take (4 * length ws) (drop 4 data)) (htoule32 w @ concat (map htoule32 ws))"
    using Cons.prems by simp
  also have "take 4 data @ take (4 * length ws) (drop 4 data) = take (4 * length (w # ws)) data"
    by (simp add: take_add)
  finally show ?case by simp
qed simp

lemma length_chacha20_block [simp]: "length m = 16 \<Longrightarrow> length (chacha20_block m) = 64"
proof -
  assume m: "length m = 16"
  have "length (((diagonal_rounds \<circ> column_rounds) ^^ n) m) = length m" for n
    by (induction n) simp_all
  then show ?thesis using m by (simp add: chacha20_block_def length_concat comp_def sum_list_triv)
qed

lemma chacha_block_xor_spec:
  assumes "length (chacha_m this) = 16" and "64 \<le> length data"
  shows "chacha_block_xor this data = (memxor data (chacha20_block (chacha_m this)) 64,
    this\<lparr>chacha_m := (chacha_m this)[12 := chacha_m this ! 12 + 1]\<rparr>)"
proof -
  let ?m = "chacha_m this"
  let ?x = "((diagonal_rounds \<circ> column_rounds) ^^ 10) ?m"
  have x: "length (((diagonal_rounds \<circ> column_rounds) ^^ n) ?m) = length ?m" for n
    by (induction n) simp_all
  let ?ws = "map2 (+) ?x ?m"
  have len: "length ?ws = 16" using x assms(1) by simp
  have "concat (map (\<lambda>i. xor32u (take 4 (drop (4 * i) data)) (?x ! i + ?m ! i)) [0..<16])
      = concat (map (\<lambda>i. xor32u (take 4 (drop (4 * i) data)) (?ws ! i)) [0..<length ?ws])"
    using x assms(1) len by (intro arg_cong [where f = concat] map_cong) simp_all
  also have "\<dots> = map2 (XOR) (take (4 * length ?ws) data) (concat (map htoule32 ?ws))"
    by (rule concat_xor_words) (use len assms(2) in simp)
  also have "\<dots> = map2 (XOR) (take 64 data) (chacha20_block ?m)"
    unfolding len chacha20_block_def by simp
  finally show ?thesis
    using assms(1) by (simp add: chacha_block_xor_def chacha_rounds_eq memxor_def Let_def)
qed

text \<open>
  C8: The straight-line code of \<open>chacha_block_xor\<close> is the ChaCha20 block function: for every
  state matrix and every buffer of at least one block it exclusive-ors the first sixty-four
  bytes with the serialized sum of the matrix and its ten double rounds of quarter rounds,
  leaves the rest of the buffer alone, and advances only the block counter.
\<close>

theorem chacha_block_xor_correct:
  assumes "length (chacha_m this) = 16" and "64 \<le> length data"
  shows "chacha_block_xor this data =
    (map2 (XOR) (take 64 data) (concat (map htoule32 (map2 (+)
       (((diagonal_rounds \<circ> column_rounds) ^^ 10) (chacha_m this)) (chacha_m this)))) @ drop 64 data,
     this\<lparr>chacha_m := (chacha_m this)[12 := chacha_m this ! 12 + 1]\<rparr>)"
proof -
  have "take 64 (chacha20_block (chacha_m this)) = chacha20_block (chacha_m this)"
    using assms(1) by simp
  then show ?thesis
    using chacha_block_xor_spec [OF assms] by (simp add: memxor_def chacha20_block_def)
qed

theorem chacha_block_xor_correct_witness:
  "chacha_block_xor chapoly_drv_portable_create (replicate 70 1) =
    (map2 (XOR) (take 64 (replicate 70 1)) (concat (map htoule32 (map2 (+)
       (((diagonal_rounds \<circ> column_rounds) ^^ 10) (chacha_m chapoly_drv_portable_create))
       (chacha_m chapoly_drv_portable_create)))) @ drop 64 (replicate 70 1),
     chapoly_drv_portable_create\<lparr>chacha_m := (chacha_m chapoly_drv_portable_create)
       [12 := chacha_m chapoly_drv_portable_create ! 12 + 1]\<rparr>)"
  by (rule chacha_block_xor_correct) (simp_all add: chapoly_drv_portable_create_def)

end
