(* ===== verification/Iv_Gen.thy ===== *)
theory Iv_Gen
  imports Prelude
begin

unbundle bit_operations_syntax

text \<open>
  \<open>crypto/iv/iv_gen.c\<close>, \<open>iv_gen_seq.c\<close>, \<open>iv_gen_rand.c\<close>, \<open>iv_gen_null.c\<close>: the
  initialization vector generators, the encryption algorithm identifiers that select them
  (\<open>crypto/crypters/crypter.h\<close>) and the uniqueness of the vectors the sequential generator
  hands out. Random number generators are supplied by other plugins at run time; their
  methods are a parameter.
\<close>

section \<open>Encryption algorithms\<close>

datatype encryption_algorithm_t = ENCR_DES_IV64 | ENCR_DES | ENCR_3DES | ENCR_RC5 | ENCR_IDEA | ENCR_CAST
  | ENCR_BLOWFISH | ENCR_3IDEA | ENCR_DES_IV32 | ENCR_NULL | ENCR_AES_CBC | ENCR_AES_CTR
  | ENCR_AES_CCM_ICV8 | ENCR_AES_CCM_ICV12 | ENCR_AES_CCM_ICV16 | ENCR_AES_GCM_ICV8
  | ENCR_AES_GCM_ICV12 | ENCR_AES_GCM_ICV16 | ENCR_NULL_AUTH_AES_GMAC | ENCR_CAMELLIA_CBC
  | ENCR_CAMELLIA_CTR | ENCR_CAMELLIA_CCM_ICV8 | ENCR_CAMELLIA_CCM_ICV12 | ENCR_CAMELLIA_CCM_ICV16
  | ENCR_CHACHA20_POLY1305 | ENCR_UNDEFINED | ENCR_DES_ECB | ENCR_SERPENT_CBC | ENCR_TWOFISH_CBC
  | ENCR_RC2_CBC

definition encryption_algorithm_is_aead :: "encryption_algorithm_t \<Rightarrow> bool" where
  "encryption_algorithm_is_aead alg \<longleftrightarrow> alg \<in> {ENCR_AES_CCM_ICV8, ENCR_AES_CCM_ICV12,
     ENCR_AES_CCM_ICV16, ENCR_AES_GCM_ICV8, ENCR_AES_GCM_ICV12, ENCR_AES_GCM_ICV16,
     ENCR_NULL_AUTH_AES_GMAC, ENCR_CAMELLIA_CCM_ICV8, ENCR_CAMELLIA_CCM_ICV12,
     ENCR_CAMELLIA_CCM_ICV16, ENCR_CHACHA20_POLY1305}"

section \<open>The generators\<close>

text \<open>The methods of a random number generator object, by its state.\<close>

record 'r rng_t =
  get_bytes :: "'r \<Rightarrow> nat \<Rightarrow> chunk option \<times> 'r"
  allocate_bytes :: "'r \<Rightarrow> nat \<Rightarrow> chunk option \<times> 'r"

datatype rng_quality_t = RNG_WEAK | RNG_STRONG | RNG_TRUE

record iv_gen_seq =
  prevl :: u64
  prevh :: u64
  seq_salt :: "chunk option"

datatype 'r iv_gen_t = IV_GEN_RAND "'r option" | IV_GEN_SEQ iv_gen_seq | IV_GEN_NULL

abbreviation (input) SEQ_IV_INIT_STATE :: u64 where "SEQ_IV_INIT_STATE \<equiv> NOT 0"
abbreviation (input) SEQ_IV_HIGH_MASK :: u64 where "SEQ_IV_HIGH_MASK \<equiv> push_bit 63 1"

definition iv_gen_seq_get_iv :: "iv_gen_seq \<Rightarrow> u64 \<Rightarrow> nat \<Rightarrow> chunk option \<times> iv_gen_seq" where
  "iv_gen_seq_get_iv this seq sz =
     (case seq_salt this of
        None \<Rightarrow> (None, this)
      | Some slt \<Rightarrow>
          if sz < 8 then (None, this)
          else
            let repeated = prevl this \<noteq> SEQ_IV_INIT_STATE \<and> seq \<le> prevl this;
                seq = (if repeated then seq OR SEQ_IV_HIGH_MASK else seq)
            in if repeated \<and> prevh this \<noteq> SEQ_IV_INIT_STATE \<and> seq \<le> prevh this then (None, this)
               else if seq OR SEQ_IV_HIGH_MASK = SEQ_IV_INIT_STATE then (None, this)
               else
                 let this = (if seq AND SEQ_IV_HIGH_MASK \<noteq> 0 then this\<lparr>prevh := seq\<rparr>
                             else this\<lparr>prevl := seq\<rparr>);
                     len = (if sz > 8 then 8 else sz);
                     iv = memxor (htoun64 seq) slt 8
                 in (Some (replicate (sz - len) 0 @ take len (drop (8 - len) iv)), this))"

text \<open>\<open>allocate_iv\<close> allocates the buffer and frees it again when \<open>get_iv\<close> fails.\<close>

definition iv_gen_seq_allocate_iv :: "iv_gen_seq \<Rightarrow> u64 \<Rightarrow> nat \<Rightarrow> chunk option \<times> iv_gen_seq" where
  "iv_gen_seq_allocate_iv this seq sz = iv_gen_seq_get_iv this seq sz"

definition iv_gen_rand_get_iv :: "'r rng_t \<Rightarrow> 'r option \<Rightarrow> u64 \<Rightarrow> nat \<Rightarrow> chunk option \<times> 'r option" where
  "iv_gen_rand_get_iv R this seq sz =
     (case this of None \<Rightarrow> (None, None) | Some rng \<Rightarrow> apsnd Some (get_bytes R rng sz))"

definition iv_gen_rand_allocate_iv :: "'r rng_t \<Rightarrow> 'r option \<Rightarrow> u64 \<Rightarrow> nat \<Rightarrow> chunk option \<times> 'r option" where
  "iv_gen_rand_allocate_iv R this seq sz =
     (case this of None \<Rightarrow> (None, None) | Some rng \<Rightarrow> apsnd Some (allocate_bytes R rng sz))"

definition iv_gen_null_get_iv :: "u64 \<Rightarrow> nat \<Rightarrow> chunk option" where
  "iv_gen_null_get_iv seq sz = (if sz = 0 then Some chunk_empty else None)"

definition iv_gen_null_allocate_iv :: "u64 \<Rightarrow> nat \<Rightarrow> chunk option" where
  "iv_gen_null_allocate_iv seq sz = (if sz = 0 then Some chunk_empty else None)"

text \<open>The method calls \<open>get_iv\<close> and \<open>allocate_iv\<close> on a generator of any kind.\<close>

fun get_iv :: "'r rng_t \<Rightarrow> 'r iv_gen_t \<Rightarrow> u64 \<Rightarrow> nat \<Rightarrow> chunk option \<times> 'r iv_gen_t" where
  "get_iv R (IV_GEN_RAND g) seq sz = apsnd IV_GEN_RAND (iv_gen_rand_get_iv R g seq sz)"
| "get_iv R (IV_GEN_SEQ g) seq sz = apsnd IV_GEN_SEQ (iv_gen_seq_get_iv g seq sz)"
| "get_iv R IV_GEN_NULL seq sz = (iv_gen_null_get_iv seq sz, IV_GEN_NULL)"

fun allocate_iv :: "'r rng_t \<Rightarrow> 'r iv_gen_t \<Rightarrow> u64 \<Rightarrow> nat \<Rightarrow> chunk option \<times> 'r iv_gen_t" where
  "allocate_iv R (IV_GEN_RAND g) seq sz = apsnd IV_GEN_RAND (iv_gen_rand_allocate_iv R g seq sz)"
| "allocate_iv R (IV_GEN_SEQ g) seq sz = apsnd IV_GEN_SEQ (iv_gen_seq_allocate_iv g seq sz)"
| "allocate_iv R IV_GEN_NULL seq sz = (iv_gen_null_allocate_iv seq sz, IV_GEN_NULL)"

text \<open>Construction; \<open>create_rng\<close> is the factory method of the crypto library.\<close>

definition iv_gen_seq_create :: "'r rng_t \<Rightarrow> (rng_quality_t \<Rightarrow> 'r option) \<Rightarrow> iv_gen_seq" where
  "iv_gen_seq_create R create_rng =
     \<lparr>prevl = SEQ_IV_INIT_STATE, prevh = SEQ_IV_INIT_STATE,
      seq_salt = (case create_rng RNG_STRONG of None \<Rightarrow> None | Some rng \<Rightarrow> fst (get_bytes R rng 8))\<rparr>"

definition iv_gen_rand_create :: "(rng_quality_t \<Rightarrow> 'r option) \<Rightarrow> 'r option" where
  "iv_gen_rand_create create_rng = create_rng RNG_WEAK"

definition iv_gen_create_for_alg ::
  "'r rng_t \<Rightarrow> (rng_quality_t \<Rightarrow> 'r option) \<Rightarrow> encryption_algorithm_t \<Rightarrow> 'r iv_gen_t option" where
  "iv_gen_create_for_alg R create_rng alg =
     (if alg \<in> {ENCR_DES, ENCR_3DES, ENCR_RC5, ENCR_IDEA, ENCR_CAST, ENCR_BLOWFISH, ENCR_3IDEA,
           ENCR_AES_CBC, ENCR_CAMELLIA_CBC, ENCR_SERPENT_CBC, ENCR_TWOFISH_CBC, ENCR_RC2_CBC}
      then Some (IV_GEN_RAND (iv_gen_rand_create create_rng))
      else if alg \<in> {ENCR_AES_CTR, ENCR_AES_CCM_ICV8, ENCR_AES_CCM_ICV12, ENCR_AES_CCM_ICV16,
           ENCR_AES_GCM_ICV8, ENCR_AES_GCM_ICV12, ENCR_AES_GCM_ICV16, ENCR_CAMELLIA_CTR,
           ENCR_CAMELLIA_CCM_ICV8, ENCR_CAMELLIA_CCM_ICV12, ENCR_CAMELLIA_CCM_ICV16,
           ENCR_CHACHA20_POLY1305, ENCR_NULL_AUTH_AES_GMAC}
      then Some (IV_GEN_SEQ (iv_gen_seq_create R create_rng))
      else if alg = ENCR_NULL then Some IV_GEN_NULL
      else None)"

section \<open>Uniqueness of sequential vectors\<close>

text \<open>The vectors handed out for a series of requests; a request that fails hands out none.\<close>

fun seq_ivs :: "iv_gen_seq \<Rightarrow> (u64 \<times> nat) list \<Rightarrow> chunk list" where
  "seq_ivs this [] = []"
| "seq_ivs this ((seq, sz) # reqs) =
     (case iv_gen_seq_get_iv this seq sz of
        (Some iv, this) \<Rightarrow> iv # seq_ivs this reqs
      | (None, this) \<Rightarrow> seq_ivs this reqs)"

text \<open>The last eight bytes of a vector carry the masked counter.\<close>

definition masked :: "chunk \<Rightarrow> u64 \<Rightarrow> chunk" where
  "masked slt seq = memxor (htoun64 seq) slt 8"

definition iv_counter :: "chunk \<Rightarrow> chunk" where
  "iv_counter iv = drop (length iv - 8) iv"

lemma masked_inject:
  assumes "length slt = 8"
  shows "masked slt a = masked slt b \<longleftrightarrow> a = b"
proof
  assume "masked slt a = masked slt b"
  then have "memxor (masked slt a) slt 8 = memxor (masked slt b) slt 8" by simp
  then have "htoun64 a = htoun64 b" using assms by (simp add: masked_def memxor_twice)
  then show "a = b" by (metis untoh_htoun_exact(3))
qed simp

text \<open>Every counter used so far is bounded by the mark of its half of the number space.\<close>

definition seq_used :: "iv_gen_seq \<Rightarrow> u64 set \<Rightarrow> bool" where
  "seq_used this used \<longleftrightarrow>
     (\<forall>u \<in> used. if bit u 63 then prevh this \<noteq> SEQ_IV_INIT_STATE \<and> u \<le> prevh this
                 else prevl this \<noteq> SEQ_IV_INIT_STATE \<and> u \<le> prevl this)"

lemma high_mask_iff: "(w :: u64) AND SEQ_IV_HIGH_MASK \<noteq> 0 \<longleftrightarrow> bit w 63"
  by (simp add: bit_iff_and_push_bit_not_eq_0)

lemma get_iv_fresh:
  assumes "seq_salt this = Some slt" and "length slt = 8" and "\<not> bit seq 63" and "seq_used this used"
    and "iv_gen_seq_get_iv this seq sz = (Some iv, this')"
  obtains u where "iv_counter iv = masked slt u" and "u \<notin> used" and "seq_used this' (insert u used)"
    and "seq_salt this' = Some slt"
proof -
  define repeated where "repeated \<longleftrightarrow> prevl this \<noteq> SEQ_IV_INIT_STATE \<and> seq \<le> prevl this"
  define u where "u = (if repeated then seq OR SEQ_IV_HIGH_MASK else seq)"
  have b: "bit u 63 \<longleftrightarrow> repeated"
    using assms(3) by (simp add: u_def bit_or_iff bit_push_bit_iff)
  have ok: "\<not> (repeated \<and> prevh this \<noteq> SEQ_IV_INIT_STATE \<and> u \<le> prevh this)"
      "u OR SEQ_IV_HIGH_MASK \<noteq> SEQ_IV_INIT_STATE" "8 \<le> sz"
      "this' = (if bit u 63 then this\<lparr>prevh := u\<rparr> else this\<lparr>prevl := u\<rparr>)"
      "iv = replicate (sz - 8) 0 @ masked slt u"
    using assms(1,2,5) unfolding iv_gen_seq_get_iv_def Let_def repeated_def [symmetric] u_def [symmetric]
      high_mask_iff
    by (auto simp: masked_def split: if_splits)
  have "u \<noteq> SEQ_IV_INIT_STATE" using ok(2) by auto
  moreover have "u \<notin> used"
  proof
    assume "u \<in> used"
    then have "if repeated then prevh this \<noteq> SEQ_IV_INIT_STATE \<and> u \<le> prevh this
        else prevl this \<noteq> SEQ_IV_INIT_STATE \<and> u \<le> prevl this"
      using assms(4) b unfolding seq_used_def by metis
    then show False using ok(1) by (cases repeated) (auto simp: repeated_def u_def)
  qed
  moreover have "seq_used this' (insert u used)"
  proof -
    have le: "v \<le> u" if "v \<in> used" "bit v 63 = bit u 63" for v
      using that assms(4) ok(1) b by (cases repeated) (force simp: seq_used_def repeated_def u_def)+
    show ?thesis
      using assms(4) le \<open>u \<noteq> SEQ_IV_INIT_STATE\<close> unfolding seq_used_def ok(4)
      by (auto split: if_splits)
  qed
  ultimately show ?thesis
    using that [of u] assms(1,2) ok(3,4,5) by (simp add: iv_counter_def masked_def)
qed

lemma get_iv_failed: "iv_gen_seq_get_iv this seq sz = (None, this') \<Longrightarrow> this' = this"
  by (auto simp: iv_gen_seq_get_iv_def Let_def split: option.splits if_splits)

lemma seq_ivs_fresh:
  assumes "seq_salt this = Some slt" and "length slt = 8" and "seq_used this used"
    and "\<forall>(seq, sz) \<in> set reqs. \<not> bit seq 63"
  shows "distinct (map iv_counter (seq_ivs this reqs))
    \<and> iv_counter ` set (seq_ivs this reqs) \<inter> masked slt ` used = {}"
  using assms
proof (induction reqs arbitrary: this used)
  case (Cons r reqs)
  obtain seq sz where r: "r = (seq, sz)" by (cases r)
  obtain res this' where g: "iv_gen_seq_get_iv this seq sz = (res, this')"
    by (cases "iv_gen_seq_get_iv this seq sz")
  show ?case
  proof (cases res)
    case None
    then show ?thesis using Cons g get_iv_failed [of this seq sz this'] by (simp add: r)
  next
    case (Some iv)
    have "\<not> bit seq 63" using Cons.prems(4) by (simp add: r)
    then obtain u where u: "iv_counter iv = masked slt u" "u \<notin> used" "seq_used this' (insert u used)"
        "seq_salt this' = Some slt"
      using get_iv_fresh [OF Cons.prems(1,2) _ Cons.prems(3)] g Some by metis
    have "masked slt u \<notin> masked slt ` used"
      using u(2) masked_inject [OF Cons.prems(2)] by auto
    moreover have "distinct (map iv_counter (seq_ivs this' reqs))
        \<and> iv_counter ` set (seq_ivs this' reqs) \<inter> masked slt ` insert u used = {}"
      using Cons.IH [OF u(4) Cons.prems(2) u(3)] Cons.prems(4) by simp
    ultimately show ?thesis using g Some u(1) by (auto simp: r)
  qed
qed simp

lemma not_bit_63: "(w :: u64) < 2 ^ 63 \<Longrightarrow> \<not> bit w 63"
proof
  assume lt: "w < 2 ^ 63" and b: "bit w 63"
  have "unat w < 2 ^ 63" using lt by (simp add: word_less_nat_alt)
  then have "take_bit 63 (unat w) = unat w" by (rule take_bit_nat_eq_self)
  moreover have "bit (unat w) 63" using b by (simp add: bit_unsigned_iff)
  ultimately show False by (metis bit_take_bit_iff less_irrefl)
qed

lemma seq_used_create: "seq_used (iv_gen_seq_create R create_rng) {}"
  by (simp add: seq_used_def)

text \<open>
  C30: A sequential generator never hands out the same vector twice: whatever series of
  numbers below \<open>2\<^sup>6\<^sup>3\<close> and vector sizes it is asked for, and also when numbers repeat or
  go backwards, the vectors of the successful requests are pairwise distinct.
\<close>

theorem iv_gen_seq_unique:
  assumes "\<And>rng n bs. fst (get_bytes R rng n) = Some bs \<Longrightarrow> length bs = n"
    and "\<forall>(seq, sz) \<in> set reqs. seq < 2 ^ 63"
  shows "distinct (seq_ivs (iv_gen_seq_create R create_rng) reqs)"
proof (cases "seq_salt (iv_gen_seq_create R create_rng)")
  case None
  then have "seq_ivs (iv_gen_seq_create R create_rng) reqs = []"
    by (induction reqs) (auto simp: iv_gen_seq_get_iv_def)
  then show ?thesis by simp
next
  case (Some slt)
  then have len: "length slt = 8"
    using assms(1) by (auto simp: iv_gen_seq_create_def split: option.splits)
  have "\<forall>(seq, sz) \<in> set reqs. \<not> bit seq 63" using assms(2) not_bit_63 by fastforce
  then have "distinct (map iv_counter (seq_ivs (iv_gen_seq_create R create_rng) reqs))"
    using seq_ivs_fresh [OF Some len seq_used_create] by blast
  then show ?thesis by (simp add: distinct_map)
qed

theorem iv_gen_seq_unique_witness:
  "distinct (seq_ivs (iv_gen_seq_create \<lparr>get_bytes = \<lambda>rng n. (Some (replicate n 7), rng),
     allocate_bytes = \<lambda>rng n. (Some (replicate n 7), rng)\<rparr> (\<lambda>q. Some ())) [(1, 8), (2, 8), (1, 8), (1, 16)])"
  by (rule iv_gen_seq_unique) auto

text \<open>
  Outside that range uniqueness is not enforced: a number with the top bit set is remembered
  in the mark of the upper half, which is only consulted after a repetition in the lower half.
\<close>

lemma iv_gen_seq_repeats_high:
  assumes "seq_salt this = Some slt" and "prevl this = SEQ_IV_INIT_STATE"
  shows "\<exists>iv this'. iv_gen_seq_get_iv this (2 ^ 63) 8 = (Some iv, this')
    \<and> fst (iv_gen_seq_get_iv this' (2 ^ 63) 8) = Some iv"
  using assms by (simp add: iv_gen_seq_get_iv_def Let_def)

end
