(* ===== verification/Aead.thy ===== *)
theory Aead
  imports Iv_Gen Chunk
begin

unbundle bit_operations_syntax

text \<open>
  \<open>crypto/aead.c\<close>: the AEAD interface and the wrapper that builds it from a traditional
  crypter and signer, with \<open>plugins/ctr/ctr_ipsec_crypter.c\<close> (counter mode) and
  \<open>crypto/signers/mac_signer.c\<close> as the crypter and the signer.

  An interface of the C code (a struct of method pointers) is a record of functions on the
  state of the object. A method that fills a buffer or allocates a chunk returns its contents;
  whether the caller passed a buffer is a flag where the code distinguishes it. The state is
  returned on failure too. After a failed encryption or decryption in place the contents of
  the buffer are not specified; no caller reads them.
\<close>

section \<open>Interfaces\<close>

record 'c crypter_t =
  c_encrypt :: "'c \<Rightarrow> chunk \<Rightarrow> chunk \<Rightarrow> chunk option \<times> 'c"
  c_decrypt :: "'c \<Rightarrow> chunk \<Rightarrow> chunk \<Rightarrow> chunk option \<times> 'c"
  c_get_block_size :: "'c \<Rightarrow> nat"
  c_get_iv_size :: "'c \<Rightarrow> nat"
  c_get_key_size :: "'c \<Rightarrow> nat"
  c_set_key :: "'c \<Rightarrow> chunk \<Rightarrow> bool \<times> 'c"

record 's signer_t =
  s_get_signature :: "'s \<Rightarrow> chunk \<Rightarrow> bool \<Rightarrow> chunk option \<times> 's"
  s_allocate_signature :: "'s \<Rightarrow> chunk \<Rightarrow> bool \<Rightarrow> chunk option \<times> 's"
  s_verify_signature :: "'s \<Rightarrow> chunk \<Rightarrow> chunk \<Rightarrow> bool \<times> 's"
  s_get_block_size :: "'s \<Rightarrow> nat"
  s_get_key_size :: "'s \<Rightarrow> nat"
  s_set_key :: "'s \<Rightarrow> chunk \<Rightarrow> bool \<times> 's"

record 'm mac_t =
  m_get_mac :: "'m \<Rightarrow> chunk \<Rightarrow> bool \<Rightarrow> chunk option \<times> 'm"
  m_get_mac_size :: "'m \<Rightarrow> nat"
  m_set_key :: "'m \<Rightarrow> chunk \<Rightarrow> bool \<times> 'm"

text \<open>
  \<open>get_iv_gen\<close> returns a pointer into the object; \<open>a_put_iv_gen\<close> is the effect on the object
  of a method call through that pointer.
\<close>

record ('a, 'r) aead_t =
  a_encrypt :: "'a \<Rightarrow> chunk \<Rightarrow> chunk \<Rightarrow> chunk \<Rightarrow> bool \<Rightarrow> chunk option \<times> 'a"
  a_decrypt :: "'a \<Rightarrow> chunk \<Rightarrow> chunk \<Rightarrow> chunk \<Rightarrow> bool \<Rightarrow> chunk option \<times> 'a"
  a_get_block_size :: "'a \<Rightarrow> nat"
  a_get_icv_size :: "'a \<Rightarrow> nat"
  a_get_iv_size :: "'a \<Rightarrow> nat"
  a_get_iv_gen :: "'a \<Rightarrow> 'r iv_gen_t option"
  a_put_iv_gen :: "'a \<Rightarrow> 'r iv_gen_t \<Rightarrow> 'a"
  a_get_key_size :: "'a \<Rightarrow> nat"
  a_set_key :: "'a \<Rightarrow> chunk \<Rightarrow> bool \<times> 'a"

section \<open>The wrapper of \<open>aead.c\<close>\<close>

record ('c, 's, 'r) private_aead =
  crypter :: 'c
  signer :: 's
  iv_gen :: "'r iv_gen_t"

text \<open>
  The associated data and the IV are fed to the signer without asking for a signature; the
  signer's next signature covers them too.
\<close>

definition wrapper_sign_header ::
  "'s signer_t \<Rightarrow> 's \<Rightarrow> chunk \<Rightarrow> chunk \<Rightarrow> bool \<times> 's" where
  "wrapper_sign_header S s assoc iv =
     (case s_get_signature S s assoc False of
        (None, s) \<Rightarrow> (False, s)
      | (Some _, s) \<Rightarrow>
          case s_get_signature S s iv False of (None, s) \<Rightarrow> (False, s) | (Some _, s) \<Rightarrow> (True, s))"

definition wrapper_encrypt ::
  "'c crypter_t \<Rightarrow> 's signer_t \<Rightarrow> ('c, 's, 'r) private_aead \<Rightarrow> chunk \<Rightarrow> chunk \<Rightarrow> chunk \<Rightarrow> bool
    \<Rightarrow> chunk option \<times> ('c, 's, 'r) private_aead" where
  "wrapper_encrypt C S this plain assoc iv alloc =
     (case wrapper_sign_header S (signer this) assoc iv of
        (False, s) \<Rightarrow> (None, this\<lparr>signer := s\<rparr>)
      | (True, s) \<Rightarrow>
          case c_encrypt C (crypter this) plain iv of
            (None, c) \<Rightarrow> (None, this\<lparr>signer := s, crypter := c\<rparr>)
          | (Some encr, c) \<Rightarrow>
              if alloc then
                case s_allocate_signature S s encr True of
                  (None, s) \<Rightarrow> (None, this\<lparr>signer := s, crypter := c\<rparr>)
                | (Some sig, s) \<Rightarrow> (Some (iv @ encr @ sig), this\<lparr>signer := s, crypter := c\<rparr>)
              else
                case s_get_signature S s encr True of
                  (None, s) \<Rightarrow> (None, this\<lparr>signer := s, crypter := c\<rparr>)
                | (Some sig, s) \<Rightarrow> (Some (encr @ sig), this\<lparr>signer := s, crypter := c\<rparr>))"

definition wrapper_decrypt ::
  "'c crypter_t \<Rightarrow> 's signer_t \<Rightarrow> ('c, 's, 'r) private_aead \<Rightarrow> chunk \<Rightarrow> chunk \<Rightarrow> chunk \<Rightarrow> bool
    \<Rightarrow> chunk option \<times> ('c, 's, 'r) private_aead" where
  "wrapper_decrypt C S this encrypted assoc iv alloc =
     (let bs = c_get_block_size C (crypter this);
          sig_len = s_get_block_size S (signer this)
      in if sig_len > length encrypted \<or> (length encrypted - sig_len) mod bs \<noteq> 0 then (None, this)
      else let n = length encrypted - sig_len; encr = take n encrypted; sig = drop n encrypted
      in case wrapper_sign_header S (signer this) assoc iv of
        (False, s) \<Rightarrow> (None, this\<lparr>signer := s\<rparr>)
      | (True, s) \<Rightarrow>
          case s_verify_signature S s encr sig of
            (False, s) \<Rightarrow> (None, this\<lparr>signer := s\<rparr>)
          | (True, s) \<Rightarrow>
              case c_decrypt C (crypter this) encr iv of
                (plain, c) \<Rightarrow> (plain, this\<lparr>signer := s, crypter := c\<rparr>))"

definition wrapper_set_key ::
  "'c crypter_t \<Rightarrow> 's signer_t \<Rightarrow> ('c, 's, 'r) private_aead \<Rightarrow> chunk \<Rightarrow> bool \<times> ('c, 's, 'r) private_aead" where
  "wrapper_set_key C S this key =
     (let n = min (length key) (s_get_key_size S (signer this));
          sig = take n key; key = chunk_skip key n;
          enc = take (min (length key) (c_get_key_size C (crypter this))) key
      in case s_set_key S (signer this) sig of
        (False, s) \<Rightarrow> (False, this\<lparr>signer := s\<rparr>)
      | (True, s) \<Rightarrow>
          case c_set_key C (crypter this) enc of (ok, c) \<Rightarrow> (ok, this\<lparr>signer := s, crypter := c\<rparr>))"

definition wrapper_get_key_size :: "'c crypter_t \<Rightarrow> 's signer_t \<Rightarrow> ('c, 's, 'r) private_aead \<Rightarrow> nat" where
  "wrapper_get_key_size C S this = c_get_key_size C (crypter this) + s_get_key_size S (signer this)"

text \<open>The method table set up by \<open>aead_create\<close> and the object it returns.\<close>

definition wrapper_methods :: "'c crypter_t \<Rightarrow> 's signer_t \<Rightarrow> (('c, 's, 'r) private_aead, 'r) aead_t" where
  "wrapper_methods C S =
     \<lparr>a_encrypt = wrapper_encrypt C S, a_decrypt = wrapper_decrypt C S,
      a_get_block_size = (\<lambda>this. c_get_block_size C (crypter this)),
      a_get_icv_size = (\<lambda>this. s_get_block_size S (signer this)),
      a_get_iv_size = (\<lambda>this. c_get_iv_size C (crypter this)),
      a_get_iv_gen = (\<lambda>this. Some (iv_gen this)),
      a_put_iv_gen = (\<lambda>this g. this\<lparr>iv_gen := g\<rparr>),
      a_get_key_size = wrapper_get_key_size C S, a_set_key = wrapper_set_key C S\<rparr>"

definition aead_create :: "'c \<Rightarrow> 's \<Rightarrow> 'r iv_gen_t \<Rightarrow> ('c, 's, 'r) private_aead" where
  "aead_create c s g = \<lparr>crypter = c, signer = s, iv_gen = g\<rparr>"

section \<open>Counter mode: \<open>ctr_ipsec_crypter.c\<close>\<close>

record 'b ctr_ipsec_crypter =
  ctr_crypter :: 'b
  ctr_nonce :: chunk
  ctr_iv :: chunk
  ctr_counter :: u32

text \<open>
  The loop of \<open>crypt_ctr\<close> on the packed counter state (nonce, IV and counter as bytes); the
  underlying crypter encrypts a block in place with an all-zero IV.
\<close>

function crypt_ctr_loop :: "'b crypter_t \<Rightarrow> 'b \<Rightarrow> chunk \<Rightarrow> chunk \<Rightarrow> chunk option \<times> chunk \<times> 'b" where
  "crypt_ctr_loop B b state inp =
     (if inp = [] then (Some [], state, b)
      else case c_encrypt B b state (replicate (c_get_iv_size B b) 0) of
        (None, b) \<Rightarrow> (None, state, b)
      | (Some block, b) \<Rightarrow>
          let state' = snd (chunk_increment state);
              n = min (length inp) 16
          in case crypt_ctr_loop B b state' (chunk_skip inp 16) of
               (None, r) \<Rightarrow> (None, r)
             | (Some out, r) \<Rightarrow> (Some (memxor (take n inp) block n @ out), r))"
  by pat_completeness auto
termination
  by (relation "measure (\<lambda>(B, b, state, inp). length inp)") (auto simp: chunk_skip_def)

declare crypt_ctr_loop.simps [simp del]

definition crypt_ctr :: "'b crypter_t \<Rightarrow> 'b ctr_ipsec_crypter \<Rightarrow> chunk \<Rightarrow> chunk option \<times> 'b ctr_ipsec_crypter" where
  "crypt_ctr B this inp =
     (let this = this\<lparr>ctr_counter := htonl 1\<rparr>
      in case crypt_ctr_loop B (ctr_crypter this) (ctr_nonce this @ ctr_iv this @ mem32 (ctr_counter this)) inp of
           (out, state, b) \<Rightarrow>
             (out, this\<lparr>ctr_crypter := b, ctr_nonce := take 4 state, ctr_iv := take 8 (drop 4 state),
                ctr_counter := uletoh32 (drop 12 state)\<rparr>))"

text \<open>\<open>crypt\<close> serves as \<open>encrypt\<close> and as \<open>decrypt\<close>.\<close>

definition ctr_crypt :: "'b crypter_t \<Rightarrow> 'b ctr_ipsec_crypter \<Rightarrow> chunk \<Rightarrow> chunk \<Rightarrow> chunk option \<times> 'b ctr_ipsec_crypter" where
  "ctr_crypt B this inp iv = crypt_ctr B (this\<lparr>ctr_iv := take 8 iv\<rparr>) inp"

definition ctr_get_key_size :: "'b crypter_t \<Rightarrow> 'b ctr_ipsec_crypter \<Rightarrow> nat" where
  "ctr_get_key_size B this = c_get_key_size B (ctr_crypter this) + 4"

definition ctr_set_key :: "'b crypter_t \<Rightarrow> 'b ctr_ipsec_crypter \<Rightarrow> chunk \<Rightarrow> bool \<times> 'b ctr_ipsec_crypter" where
  "ctr_set_key B this key =
     (let this = this\<lparr>ctr_nonce := drop (length key - 4) key\<rparr>
      in case c_set_key B (ctr_crypter this) (take (length key - 4) key) of
           (ok, b) \<Rightarrow> (ok, this\<lparr>ctr_crypter := b\<rparr>))"

definition ctr_methods :: "'b crypter_t \<Rightarrow> 'b ctr_ipsec_crypter crypter_t" where
  "ctr_methods B =
     \<lparr>c_encrypt = ctr_crypt B, c_decrypt = ctr_crypt B, c_get_block_size = (\<lambda>this. 1),
      c_get_iv_size = (\<lambda>this. 8), c_get_key_size = ctr_get_key_size B, c_set_key = ctr_set_key B\<rparr>"

text \<open>The structure is cleared; \<open>create_crypter\<close> is the factory method of the crypto library.\<close>

definition ctr_ipsec_crypter_create ::
  "(encryption_algorithm_t \<Rightarrow> nat \<Rightarrow> 'b option) \<Rightarrow> encryption_algorithm_t \<Rightarrow> nat \<Rightarrow> 'b ctr_ipsec_crypter option" where
  "ctr_ipsec_crypter_create create_crypter algo key_size =
     (case (if algo = ENCR_AES_CTR then Some ENCR_AES_CBC
            else if algo = ENCR_CAMELLIA_CTR then Some ENCR_CAMELLIA_CBC else None) of
        None \<Rightarrow> None
      | Some algo \<Rightarrow>
          case create_crypter algo key_size of
            None \<Rightarrow> None
          | Some b \<Rightarrow> Some \<lparr>ctr_crypter = b, ctr_nonce = replicate 4 0, ctr_iv = replicate 8 0, ctr_counter = 0\<rparr>)"

section \<open>Signatures by a MAC: \<open>mac_signer.c\<close>\<close>

record 'm mac_signer =
  mac :: 'm
  truncation :: nat

definition mac_get_signature :: "'m mac_t \<Rightarrow> 'm mac_signer \<Rightarrow> chunk \<Rightarrow> bool \<Rightarrow> chunk option \<times> 'm mac_signer" where
  "mac_get_signature M this data buffer =
     (if buffer then
        case m_get_mac M (mac this) data True of
          (None, m) \<Rightarrow> (None, this\<lparr>mac := m\<rparr>)
        | (Some mc, m) \<Rightarrow> (Some (take (truncation this) mc), this\<lparr>mac := m\<rparr>)
      else apsnd (\<lambda>m. this\<lparr>mac := m\<rparr>) (m_get_mac M (mac this) data False))"

definition mac_allocate_signature :: "'m mac_t \<Rightarrow> 'm mac_signer \<Rightarrow> chunk \<Rightarrow> bool \<Rightarrow> chunk option \<times> 'm mac_signer" where
  "mac_allocate_signature M this data chunk =
     (if chunk then
        case m_get_mac M (mac this) data True of
          (None, m) \<Rightarrow> (None, this\<lparr>mac := m\<rparr>)
        | (Some mc, m) \<Rightarrow> (Some (take (truncation this) mc), this\<lparr>mac := m\<rparr>)
      else apsnd (\<lambda>m. this\<lparr>mac := m\<rparr>) (m_get_mac M (mac this) data False))"

definition mac_verify_signature :: "'m mac_t \<Rightarrow> 'm mac_signer \<Rightarrow> chunk \<Rightarrow> chunk \<Rightarrow> bool \<times> 'm mac_signer" where
  "mac_verify_signature M this data signature =
     (if length signature \<noteq> truncation this then (False, this)
      else case m_get_mac M (mac this) data True of
        (None, m) \<Rightarrow> (False, this\<lparr>mac := m\<rparr>)
      | (Some mc, m) \<Rightarrow> (memeq signature mc (truncation this), this\<lparr>mac := m\<rparr>))"

definition mac_set_key :: "'m mac_t \<Rightarrow> 'm mac_signer \<Rightarrow> chunk \<Rightarrow> bool \<times> 'm mac_signer" where
  "mac_set_key M this key = apsnd (\<lambda>m. this\<lparr>mac := m\<rparr>) (m_set_key M (mac this) key)"

definition mac_signer_methods :: "'m mac_t \<Rightarrow> 'm mac_signer signer_t" where
  "mac_signer_methods M =
     \<lparr>s_get_signature = mac_get_signature M, s_allocate_signature = mac_allocate_signature M,
      s_verify_signature = mac_verify_signature M, s_get_block_size = truncation,
      s_get_key_size = (\<lambda>this. m_get_mac_size M (mac this)), s_set_key = mac_set_key M\<rparr>"

definition mac_signer_create :: "'m mac_t \<Rightarrow> 'm \<Rightarrow> nat \<Rightarrow> 'm mac_signer" where
  "mac_signer_create M m len = \<lparr>mac = m, truncation = min len (m_get_mac_size M m)\<rparr>"

section \<open>The contract of an AEAD\<close>

text \<open>
  What users of the interface rely on: with a key \<open>k\<close> in place, encryption computes the function
  \<open>seal\<close> of key, IV, associated data and plain text, and decryption accepts exactly what that
  function yields; the object stays keyed and its IV generator untouched.
\<close>

locale aead_contract =
  fixes A :: "('a, 'r) aead_t"
    and keyed :: "'a \<Rightarrow> 'k \<Rightarrow> bool"
    and seal :: "'k \<Rightarrow> chunk \<Rightarrow> chunk \<Rightarrow> chunk \<Rightarrow> chunk"
    and bs :: nat and icvs :: nat and ivs :: nat and lim :: nat
  assumes bs_pos: "0 < bs"
    and sizes: "keyed a k \<Longrightarrow> a_get_block_size A a = bs \<and> a_get_icv_size A a = icvs \<and> a_get_iv_size A a = ivs"
    and encrypt_law: "keyed a k \<Longrightarrow> length iv = ivs \<Longrightarrow> bs dvd length plain \<Longrightarrow> length plain < lim \<Longrightarrow>
      length assoc < lim \<Longrightarrow>
      \<exists>a'. a_encrypt A a plain assoc iv False = (Some (seal k iv assoc plain), a') \<and> keyed a' k
        \<and> a_get_iv_gen A a' = a_get_iv_gen A a"
    and decrypt_law: "keyed a k \<Longrightarrow> length iv = ivs \<Longrightarrow> length c < lim \<Longrightarrow> length assoc < lim \<Longrightarrow>
      \<exists>res a'. a_decrypt A a c assoc iv al = (res, a') \<and> keyed a' k
        \<and> a_get_iv_gen A a' = a_get_iv_gen A a
        \<and> (\<forall>p. res = Some p \<longleftrightarrow> bs dvd length p \<and> c = seal k iv assoc p)"
    and seal_length: "keyed a k \<Longrightarrow> length iv = ivs \<Longrightarrow> length (seal k iv assoc p) = length p + icvs"
    and put_iv_gen: "keyed a k \<Longrightarrow> keyed (a_put_iv_gen A a g) k"
      "keyed a k \<Longrightarrow> a_get_iv_gen A a \<noteq> None \<Longrightarrow> a_get_iv_gen A (a_put_iv_gen A a g) = Some g"
begin

lemma encrypt_decrypt:
  assumes "keyed a k" and "keyed b k" and "length iv = ivs" and "bs dvd length p"
    and "length p + icvs < lim" and "length assoc < lim"
  obtains c a' b' where "a_encrypt A a p assoc iv False = (Some c, a')" and "length c = length p + icvs"
    and "a_decrypt A b c assoc iv al = (Some p, b')" and "keyed a' k" and "keyed b' k"
    and "c = seal k iv assoc p" and "a_get_iv_gen A a' = a_get_iv_gen A a"
    and "a_get_iv_gen A b' = a_get_iv_gen A b"
proof -
  let ?c = "seal k iv assoc p"
  have len: "length ?c = length p + icvs" by (rule seal_length [OF assms(1,3)])
  obtain a' where a': "a_encrypt A a p assoc iv False = (Some ?c, a')" "keyed a' k"
      "a_get_iv_gen A a' = a_get_iv_gen A a"
    using encrypt_law [OF assms(1,3,4)] assms(5,6) by fastforce
  obtain res b' where b': "a_decrypt A b ?c assoc iv al = (res, b')" "keyed b' k"
      "a_get_iv_gen A b' = a_get_iv_gen A b" "\<forall>q. res = Some q \<longleftrightarrow> bs dvd length q \<and> ?c = seal k iv assoc q"
    using decrypt_law [OF assms(2,3), of ?c assoc al] assms(5,6) len by auto
  have "res = Some p" using b'(4) assms(4) by blast
  then show ?thesis using that [OF a'(1) len _ a'(2) b'(2) refl a'(3) b'(3)] b'(1) by simp
qed

end

section \<open>AEAD objects of either origin\<close>

text \<open>An \<open>aead_t\<close> pointer refers to an object of a plugin or to a wrapper; calls dispatch on it.\<close>

datatype ('a, 'w) aead_obj = Plugin 'a | Wrapper 'w

fun on_obj :: "('a \<Rightarrow> 'b \<times> 'a) \<Rightarrow> ('w \<Rightarrow> 'b \<times> 'w) \<Rightarrow> ('a, 'w) aead_obj \<Rightarrow> 'b \<times> ('a, 'w) aead_obj" where
  "on_obj f g (Plugin a) = apsnd Plugin (f a)"
| "on_obj f g (Wrapper w) = apsnd Wrapper (g w)"

definition obj_methods :: "('a, 'r) aead_t \<Rightarrow> ('w, 'r) aead_t \<Rightarrow> (('a, 'w) aead_obj, 'r) aead_t" where
  "obj_methods A W =
     \<lparr>a_encrypt = (\<lambda>x p as iv al. on_obj (\<lambda>a. a_encrypt A a p as iv al) (\<lambda>w. a_encrypt W w p as iv al) x),
      a_decrypt = (\<lambda>x c as iv al. on_obj (\<lambda>a. a_decrypt A a c as iv al) (\<lambda>w. a_decrypt W w c as iv al) x),
      a_get_block_size = case_aead_obj (a_get_block_size A) (a_get_block_size W),
      a_get_icv_size = case_aead_obj (a_get_icv_size A) (a_get_icv_size W),
      a_get_iv_size = case_aead_obj (a_get_iv_size A) (a_get_iv_size W),
      a_get_iv_gen = case_aead_obj (a_get_iv_gen A) (a_get_iv_gen W),
      a_put_iv_gen = (\<lambda>x g. case x of Plugin a \<Rightarrow> Plugin (a_put_iv_gen A a g) | Wrapper w \<Rightarrow> Wrapper (a_put_iv_gen W w g)),
      a_get_key_size = case_aead_obj (a_get_key_size A) (a_get_key_size W),
      a_set_key = (\<lambda>x k. on_obj (\<lambda>a. a_set_key A a k) (\<lambda>w. a_set_key W w k) x)\<rparr>"

definition plugin_keyed :: "('a \<Rightarrow> 'k \<Rightarrow> bool) \<Rightarrow> ('a, 'w) aead_obj \<Rightarrow> 'k \<Rightarrow> bool" where
  "plugin_keyed keyed x k \<longleftrightarrow> (\<exists>a. x = Plugin a \<and> keyed a k)"

context aead_contract
begin

text \<open>The contract carries over to objects reached through an \<open>aead_t\<close> pointer.\<close>

lemma plugin_contract:
  fixes W :: "('w, 'r) aead_t"
  shows "aead_contract (obj_methods A W) (plugin_keyed keyed) seal bs icvs ivs lim"
proof
  fix x :: "('a, 'w) aead_obj" and k and iv assoc plain c :: chunk and g
  assume "plugin_keyed keyed x k"
  then obtain a where x: "x = Plugin a" and a: "keyed a k" by (auto simp: plugin_keyed_def)
  show "a_get_block_size (obj_methods A W) x = bs \<and> a_get_icv_size (obj_methods A W) x = icvs
      \<and> a_get_iv_size (obj_methods A W) x = ivs"
    using sizes [OF a] by (simp add: obj_methods_def x)
  show "plugin_keyed keyed (a_put_iv_gen (obj_methods A W) x g) k"
    using put_iv_gen(1) [OF a] by (simp add: obj_methods_def x plugin_keyed_def)
  show "a_get_iv_gen (obj_methods A W) (a_put_iv_gen (obj_methods A W) x g) = Some g"
    if "a_get_iv_gen (obj_methods A W) x \<noteq> None"
    using that put_iv_gen(2) [OF a] by (simp add: obj_methods_def x)
  assume iv: "length iv = ivs"
  show "length (seal k iv assoc p) = length p + icvs" for p by (rule seal_length [OF a iv])
  assume assoc: "length assoc < lim"
  show "\<exists>a'. a_encrypt (obj_methods A W) x plain assoc iv False = (Some (seal k iv assoc plain), a')
      \<and> plugin_keyed keyed a' k \<and> a_get_iv_gen (obj_methods A W) a' = a_get_iv_gen (obj_methods A W) x"
    if "bs dvd length plain" "length plain < lim"
    using encrypt_law [OF a iv that assoc] by (auto simp: obj_methods_def x plugin_keyed_def)
  assume "length c < lim"
  note d = decrypt_law [OF a iv this assoc]
  show "\<exists>res a'. a_decrypt (obj_methods A W) x c assoc iv al = (res, a') \<and> plugin_keyed keyed a' k
      \<and> a_get_iv_gen (obj_methods A W) a' = a_get_iv_gen (obj_methods A W) x
      \<and> (\<forall>p. res = Some p \<longleftrightarrow> bs dvd length p \<and> c = seal k iv assoc p)"
    for al
    using d [of al] by (auto simp: obj_methods_def x plugin_keyed_def)
qed (rule bs_pos)

end

end
