(* ===== verification/Chapoly_Aead.thy ===== *)
theory Chapoly_Aead
  imports Poly1305 Chacha20 Aead
begin

unbundle bit_operations_syntax

text \<open>
  \<open>plugins/chapoly/chapoly_aead.c\<close> and \<open>chapoly_drv.c\<close>: the ChaCha20-Poly1305 AEAD over a
  driver. The methods of a driver are a record of functions on its state; the locale
  \<open>chapoly_driver\<close> states what the AEAD relies on, the portable driver is an instance, and
  the AEAD is shown to compute the standard construction.

  Memory the code has not written yet (the sixteen bytes behind the data, a stack buffer) is
  an argument \<open>uninit\<close> of the operations, so that what they leave there on a failure of the
  driver is explicit.
\<close>

section \<open>The driver interface\<close>

record 'd chapoly_drv_t =
  d_set_key :: "'d \<Rightarrow> chunk \<Rightarrow> chunk \<Rightarrow> chunk \<Rightarrow> bool \<times> 'd"
  d_init :: "'d \<Rightarrow> chunk \<Rightarrow> bool \<times> 'd"
  d_poly :: "'d \<Rightarrow> chunk \<Rightarrow> u32 \<Rightarrow> bool \<times> 'd"
  d_chacha :: "'d \<Rightarrow> bool \<times> chunk \<times> 'd"
  d_encrypt :: "'d \<Rightarrow> chunk \<Rightarrow> u32 \<Rightarrow> bool \<times> chunk \<times> 'd"
  d_decrypt :: "'d \<Rightarrow> chunk \<Rightarrow> u32 \<Rightarrow> bool \<times> chunk \<times> 'd"
  d_finish :: "'d \<Rightarrow> bool \<times> chunk \<times> 'd"

definition portable_drv :: "chapoly_drv_portable chapoly_drv_t" where
  "portable_drv = \<lparr>d_set_key = drv_set_key, d_init = drv_init, d_poly = drv_poly,
     d_chacha = drv_chacha, d_encrypt = drv_encrypt, d_decrypt = drv_decrypt, d_finish = drv_finish\<rparr>"

text \<open>\<open>chapoly_drv_probe\<close>: the first driver of the list that can be created.\<close>

fun chapoly_drv_probe :: "'d option list \<Rightarrow> 'd option" where
  "chapoly_drv_probe [] = None"
| "chapoly_drv_probe (driver # drivers) =
     (case driver of Some d \<Rightarrow> Some d | None \<Rightarrow> chapoly_drv_probe drivers)"

section \<open>The AEAD\<close>

record ('d, 'r) chapoly_aead =
  chapoly_iv_gen :: "'r iv_gen_t"
  chapoly_drv :: 'd

abbreviation (input) P_MAX :: nat where "P_MAX \<equiv> 247877906880"

text \<open>A call of a driver method through the object.\<close>

definition poly_update_padded :: "'d chapoly_drv_t \<Rightarrow> 'd \<Rightarrow> chunk \<Rightarrow> nat \<Rightarrow> bool \<times> 'd" where
  "poly_update_padded V d inp len = d_poly V d (memcpy_at (replicate POLY_BLOCK_SIZE 0) 0 (take len inp)) 1"

text \<open>The block counts are \<open>u_int\<close>.\<close>

definition poly_head :: "'d chapoly_drv_t \<Rightarrow> 'd \<Rightarrow> chunk \<Rightarrow> nat \<Rightarrow> bool \<times> 'd" where
  "poly_head V d assoc len =
     (let blocks = of_nat (len div POLY_BLOCK_SIZE) :: u32;
          rem = of_nat (len mod POLY_BLOCK_SIZE) :: u32;
          (ok, d) = d_poly V d assoc blocks
      in if \<not> ok then (False, d)
         else if rem \<noteq> 0
         then poly_update_padded V d (drop (unat (blocks * of_nat POLY_BLOCK_SIZE)) assoc) (unat rem)
         else (True, d))"

definition poly_tail :: "'d chapoly_drv_t \<Rightarrow> 'd \<Rightarrow> nat \<Rightarrow> nat \<Rightarrow> bool \<times> 'd" where
  "poly_tail V d alen clen = d_poly V d (htole64 (of_nat alen) @ htole64 (of_nat clen)) 1"

definition do_encrypt ::
  "'d chapoly_drv_t \<Rightarrow> 'd \<Rightarrow> nat \<Rightarrow> chunk \<Rightarrow> chunk \<Rightarrow> nat \<Rightarrow> chunk \<Rightarrow> chunk \<Rightarrow> bool \<times> chunk \<times> chunk \<times> 'd" where
  "do_encrypt V d len data iv alen assoc icv =
     (let (ok, d) = d_init V d iv
      in if \<not> ok then (False, data, icv, d) else
      let (ok, d) = poly_head V d assoc alen
      in if \<not> ok then (False, data, icv, d) else
      let blocks = of_nat (len div CHACHA_BLOCK_SIZE) :: u32;
          (ok, data, d) = d_encrypt V d data blocks
      in if \<not> ok then (False, data, icv, d) else
      let rem = of_nat (len mod CHACHA_BLOCK_SIZE) :: u32;
          (ok, data, d) =
            (if rem \<noteq> 0 then
               let off = unat (blocks * of_nat CHACHA_BLOCK_SIZE);
                   (ok, stream, d) = d_chacha V d
               in if \<not> ok then (False, data, d) else
               let tl = memxor (drop off data) stream (unat rem);
                   data = take off data @ tl;
                   blocks = rem div of_nat POLY_BLOCK_SIZE;
                   (ok, d) = d_poly V d tl blocks
               in if \<not> ok then (False, data, d) else
               let prem = rem mod of_nat POLY_BLOCK_SIZE
               in (True, data, if prem \<noteq> 0
                     then snd (poly_update_padded V d (drop (unat (blocks * of_nat POLY_BLOCK_SIZE)) tl) (unat prem))
                     else d)
             else (True, data, d))
      in if \<not> ok then (False, data, icv, d) else
      let (ok, d) = poly_tail V d alen len
      in if \<not> ok then (False, data, icv, d) else
      let (ok, mac, d) = d_finish V d
      in (ok, data, mac, d))"

definition do_decrypt ::
  "'d chapoly_drv_t \<Rightarrow> 'd \<Rightarrow> nat \<Rightarrow> chunk \<Rightarrow> chunk \<Rightarrow> nat \<Rightarrow> chunk \<Rightarrow> chunk \<Rightarrow> bool \<times> chunk \<times> chunk \<times> 'd" where
  "do_decrypt V d len data iv alen assoc icv =
     (let (ok, d) = d_init V d iv
      in if \<not> ok then (False, data, icv, d) else
      let (ok, d) = poly_head V d assoc alen
      in if \<not> ok then (False, data, icv, d) else
      let blocks = of_nat (len div CHACHA_BLOCK_SIZE) :: u32;
          (ok, data, d) = d_decrypt V d data blocks
      in if \<not> ok then (False, data, icv, d) else
      let rem = of_nat (len mod CHACHA_BLOCK_SIZE) :: u32;
          (ok, data, d) =
            (if rem \<noteq> 0 then
               let off = unat (blocks * of_nat CHACHA_BLOCK_SIZE);
                   tl = drop off data;
                   blocks = rem div of_nat POLY_BLOCK_SIZE;
                   (ok, d) = d_poly V d tl blocks
               in if \<not> ok then (False, data, d) else
               let prem = rem mod of_nat POLY_BLOCK_SIZE;
                   d = (if prem \<noteq> 0
                     then snd (poly_update_padded V d (drop (unat (blocks * of_nat POLY_BLOCK_SIZE)) tl) (unat prem))
                     else d);
                   (ok, stream, d) = d_chacha V d
               in if \<not> ok then (False, data, d)
                  else (True, take off data @ memxor tl stream (unat rem), d)
             else (True, data, d))
      in if \<not> ok then (False, data, icv, d) else
      let (ok, d) = poly_tail V d alen len
      in if \<not> ok then (False, data, icv, d) else
      let (ok, mac, d) = d_finish V d
      in (ok, data, mac, d))"

text \<open>
  \<open>encrypt\<close> in place (\<open>alloc\<close> false: data and ICV behind it) or to a new buffer with the same
  contents; the result of \<open>do_encrypt\<close> is ignored by the code. \<open>size_t\<close> is 64 bits wide, so
  the length limit is checked.
\<close>

definition chapoly_encrypt ::
  "'d chapoly_drv_t \<Rightarrow> chunk \<Rightarrow> ('d, 'r) chapoly_aead \<Rightarrow> chunk \<Rightarrow> chunk \<Rightarrow> chunk \<Rightarrow> bool
    \<Rightarrow> chunk option \<times> ('d, 'r) chapoly_aead" where
  "chapoly_encrypt V uninit this plain assoc iv alloc =
     (if length plain > P_MAX then (None, this)
      else if length iv \<noteq> CHACHA_IV_SIZE then (None, this)
      else let (_, out, icv, d) =
             do_encrypt V (chapoly_drv this) (length plain) plain iv (length assoc) assoc uninit
           in (Some (out @ icv), this\<lparr>chapoly_drv := d\<rparr>))"

text \<open>\<open>decrypt\<close>: the plain text of a successful call, in place or in a new buffer.\<close>

definition chapoly_decrypt ::
  "'d chapoly_drv_t \<Rightarrow> chunk \<Rightarrow> ('d, 'r) chapoly_aead \<Rightarrow> chunk \<Rightarrow> chunk \<Rightarrow> chunk \<Rightarrow> bool
    \<Rightarrow> chunk option \<times> ('d, 'r) chapoly_aead" where
  "chapoly_decrypt V uninit this encr assoc iv alloc =
     (if length iv \<noteq> CHACHA_IV_SIZE \<or> length encr < POLY_ICV_SIZE then (None, this)
      else let len = length encr - POLY_ICV_SIZE
      in if len > P_MAX then (None, this)
      else let (_, out, icv, d) =
             do_decrypt V (chapoly_drv this) len (take len encr) iv (length assoc) assoc uninit
           in (if memeq icv (drop len encr) POLY_ICV_SIZE then Some out else None,
               this\<lparr>chapoly_drv := d\<rparr>))"

definition chapoly_set_key :: "'d chapoly_drv_t \<Rightarrow> ('d, 'r) chapoly_aead \<Rightarrow> chunk \<Rightarrow> bool \<times> ('d, 'r) chapoly_aead" where
  "chapoly_set_key V this key =
     (if length key \<noteq> CHACHA_KEY_SIZE + CHACHA_SALT_SIZE then (False, this)
      else let (ok, d) = d_set_key V (chapoly_drv this) (map of_char ''expand 32-byte k'')
             (take CHACHA_KEY_SIZE key) (drop CHACHA_KEY_SIZE key)
           in (ok, this\<lparr>chapoly_drv := d\<rparr>))"

definition chapoly_get_block_size :: "('d, 'r) chapoly_aead \<Rightarrow> nat" where
  "chapoly_get_block_size this = 1"

definition chapoly_get_icv_size :: "('d, 'r) chapoly_aead \<Rightarrow> nat" where
  "chapoly_get_icv_size this = POLY_ICV_SIZE"

definition chapoly_get_iv_size :: "('d, 'r) chapoly_aead \<Rightarrow> nat" where
  "chapoly_get_iv_size this = CHACHA_IV_SIZE"

definition chapoly_get_key_size :: "('d, 'r) chapoly_aead \<Rightarrow> nat" where
  "chapoly_get_key_size this = CHACHA_KEY_SIZE + CHACHA_SALT_SIZE"

definition chapoly_aead_create ::
  "'r rng_t \<Rightarrow> (rng_quality_t \<Rightarrow> 'r option) \<Rightarrow> 'd option list \<Rightarrow> encryption_algorithm_t \<Rightarrow> nat \<Rightarrow> nat
    \<Rightarrow> ('d, 'r) chapoly_aead option" where
  "chapoly_aead_create R create_rng drivers algo key_size salt_size =
     (if algo \<noteq> ENCR_CHACHA20_POLY1305 then None
      else if key_size \<noteq> 0 \<and> key_size \<noteq> CHACHA_KEY_SIZE then None
      else if salt_size \<noteq> 0 \<and> salt_size \<noteq> CHACHA_SALT_SIZE then None
      else case chapoly_drv_probe drivers of
        None \<Rightarrow> None
      | Some d \<Rightarrow> Some \<lparr>chapoly_iv_gen = IV_GEN_SEQ (iv_gen_seq_create R create_rng), chapoly_drv = d\<rparr>)"

section \<open>The construction as the standard defines it\<close>

text \<open>A key is the constant, the cipher key and the salt.\<close>

type_synonym chacha_key = "chunk \<times> chunk \<times> chunk"

definition key_ok :: "chacha_key \<Rightarrow> bool" where
  "key_ok K = (case K of (const, key, slt) \<Rightarrow> length const = 16 \<and> length key = 32 \<and> length slt = 4)"

definition chunk_words :: "chunk \<Rightarrow> u32 list" where
  "chunk_words bs = map (\<lambda>i. uletoh32 (drop (4 * i) bs)) [0..<length bs div 4]"

definition chacha20_matrix :: "chacha_key \<Rightarrow> chunk \<Rightarrow> u32 \<Rightarrow> u32 list" where
  "chacha20_matrix K iv count = (case K of (const, key, slt) \<Rightarrow>
     chunk_words const @ chunk_words key @ [count] @ chunk_words slt @ chunk_words iv)"

definition key_block :: "chacha_key \<Rightarrow> chunk \<Rightarrow> u32 \<Rightarrow> chunk" where
  "key_block K iv count = chacha20_block (chacha20_matrix K iv count)"

definition key_stream :: "chacha_key \<Rightarrow> chunk \<Rightarrow> u32 \<Rightarrow> nat \<Rightarrow> chunk" where
  "key_stream K iv count n = concat (map (\<lambda>i. key_block K iv (count + of_nat i)) [0..<n])"

definition clamp :: "nat \<Rightarrow> nat" where
  "clamp r = r AND 0x0ffffffc0ffffffc0ffffffc0fffffff"

definition otk_r :: "chacha_key \<Rightarrow> chunk \<Rightarrow> nat" where
  "otk_r K iv = clamp (le_nat (take 16 (key_block K iv 0)))"

definition otk_s :: "chacha_key \<Rightarrow> chunk \<Rightarrow> nat" where
  "otk_s K iv = le_nat (take 16 (drop 16 (key_block K iv 0)))"

definition pad16 :: "chunk \<Rightarrow> chunk" where
  "pad16 bs = bs @ replicate (pad_len (length bs) 16) 0"

definition chacha20_poly1305_tag :: "chacha_key \<Rightarrow> chunk \<Rightarrow> chunk \<Rightarrow> chunk \<Rightarrow> chunk" where
  "chacha20_poly1305_tag K iv assoc ct =
     (let msg = pad16 assoc @ pad16 ct @ nat_le 8 (length assoc) @ nat_le 8 (length ct)
      in nat_le 16 (poly_steps (otk_r K iv) 0 msg (length msg div 16) + otk_s K iv))"

definition chacha20_xor :: "chacha_key \<Rightarrow> chunk \<Rightarrow> chunk \<Rightarrow> chunk" where
  "chacha20_xor K iv data = map2 (XOR) data (key_stream K iv 1 (length data div 64 + 1))"

definition chacha20_poly1305_seal :: "chacha_key \<Rightarrow> chunk \<Rightarrow> chunk \<Rightarrow> chunk \<Rightarrow> chunk" where
  "chacha20_poly1305_seal K iv assoc plain =
     (let ct = chacha20_xor K iv plain in ct @ chacha20_poly1305_tag K iv assoc ct)"

section \<open>The portable driver\<close>

lemma chacha20_matrix_explicit:
  assumes "key_ok (const, key, slt)" and "length iv = 8"
  shows "chacha20_matrix (const, key, slt) iv n =
    [uletoh32 const, uletoh32 (drop 4 const), uletoh32 (drop 8 const), uletoh32 (drop 12 const),
     uletoh32 key, uletoh32 (drop 4 key), uletoh32 (drop 8 key), uletoh32 (drop 12 key),
     uletoh32 (drop 16 key), uletoh32 (drop 20 key), uletoh32 (drop 24 key), uletoh32 (drop 28 key),
     n, uletoh32 slt, uletoh32 iv, uletoh32 (drop 4 iv)]"
  using assms by (simp add: chacha20_matrix_def chunk_words_def key_ok_def upt_rec)

lemma length_matrix [simp]:
  assumes "key_ok K" and "length iv = 8"
  shows "length (chacha20_matrix K iv n) = 16"
proof -
  obtain const key slt where "K = (const, key, slt)" by (cases K)
  then show ?thesis using chacha20_matrix_explicit [of const key slt iv n] assms by simp
qed

lemma length_key_block [simp]: "key_ok K \<Longrightarrow> length iv = 8 \<Longrightarrow> length (key_block K iv n) = 64"
  by (simp add: key_block_def)

lemma matrix_count:
  assumes "key_ok K" and "length iv = 8"
  shows "chacha20_matrix K iv n ! 12 = n" and "(chacha20_matrix K iv n)[12 := n'] = chacha20_matrix K iv n'"
proof -
  obtain const key slt where "K = (const, key, slt)" by (cases K)
  then show "chacha20_matrix K iv n ! 12 = n" and "(chacha20_matrix K iv n)[12 := n'] = chacha20_matrix K iv n'"
    using assms by (simp_all add: chacha20_matrix_explicit)
qed

definition portable_ready :: "chapoly_drv_portable \<Rightarrow> bool" where
  "portable_ready d \<longleftrightarrow> length (chacha_m d) = 16"

definition portable_keyed :: "chapoly_drv_portable \<Rightarrow> chacha_key \<Rightarrow> bool" where
  "portable_keyed d K \<longleftrightarrow> key_ok K \<and> (\<exists>iv n. length iv = 8 \<and> chacha_m d = chacha20_matrix K iv n)"

definition portable_session :: "chapoly_drv_portable \<Rightarrow> chacha_key \<Rightarrow> chunk \<Rightarrow> u32 \<Rightarrow> nat \<Rightarrow> bool" where
  "portable_session d K iv n a \<longleftrightarrow> key_ok K \<and> length iv = 8 \<and> chacha_m d = chacha20_matrix K iv n
     \<and> key_wf (poly_r d) \<and> limbs_nat (poly_r d) = otk_r K iv \<and> words_nat (poly_s d) = otk_s K iv
     \<and> acc_wf (poly_h d) \<and> limbs_nat (poly_h d) mod p1305 = a"

lemma portable_set_key:
  assumes "portable_ready d" and "key_ok (const, key, slt)"
  shows "\<exists>d'. drv_set_key d const key slt = (True, d') \<and> portable_keyed d' (const, key, slt)"
proof -
  obtain x0 x1 x2 x3 x4 x5 x6 x7 x8 x9 xa xb xc xd xe xf
    where m: "chacha_m d = [x0, x1, x2, x3, x4, x5, x6, x7, x8, x9, xa, xb, xc, xd, xe, xf]"
    using assms(1) by (auto simp: portable_ready_def elim: length_16_split)
  have "chacha_m (snd (drv_set_key d const key slt))
      = chacha20_matrix (const, key, slt) (htoule32 xe @ htoule32 xf) xc"
    using assms(2) uletoh_htoule [of xf "[]"]
    by (simp add: chacha20_matrix_explicit drv_set_key_def m)
  moreover have "length (htoule32 xe @ htoule32 xf) = 8" by simp
  ultimately show ?thesis
    using assms(2) unfolding portable_keyed_def by (metis drv_set_key_def prod.collapse fst_conv)
qed

text \<open>The clamped limbs of the one-time key.\<close>

lemma and_limb:
  fixes x y c :: nat
  assumes "x < 2 ^ 26"
  shows "(x + 2 ^ 26 * y) AND c = (x AND (c mod 2 ^ 26)) + 2 ^ 26 * (y AND (c div 2 ^ 26))"
proof -
  let ?z = "(x + 2 ^ 26 * y) AND c"
  have t: "take_bit 26 ?z = x AND (c mod 2 ^ 26)"
    using assms unfolding take_bit_and by (simp add: take_bit_eq_mod)
  have d: "drop_bit 26 ?z = y AND (c div 2 ^ 26)"
    using assms unfolding drop_bit_and by (simp add: drop_bit_eq_div)
  have "?z = push_bit 26 (drop_bit 26 ?z) + take_bit 26 ?z" by (rule bits_ident [symmetric])
  also have "\<dots> = 2 ^ 26 * (y AND (c div 2 ^ 26)) + (x AND (c mod 2 ^ 26))"
    unfolding t d by (simp only: push_bit_eq_mult mult.commute)
  finally show ?thesis by (simp only: add.commute)
qed

lemma unat_and_mask:
  "unat (x AND 0x3ffff03 :: u32) = unat (x AND 0x3ffffff) AND 0x3ffff03"
  "unat (x AND 0x3ffc0ff :: u32) = unat (x AND 0x3ffffff) AND 0x3ffc0ff"
  "unat (x AND 0x3f03fff :: u32) = unat (x AND 0x3ffffff) AND 0x3f03fff"
  "unat (x AND 0x00fffff :: u32) = unat (x AND 0x3ffffff) AND 0x00fffff"
  by (simp_all add: unsigned_and_eq and.assoc)

lemma and_mask_lt:
  "unat (x AND 0x3ffffff :: u32) < 2 ^ 26" "unat (x AND 0x3ffff03 :: u32) < 2 ^ 26"
  "unat (x AND 0x3ffc0ff :: u32) < 2 ^ 26" "unat (x AND 0x3f03fff :: u32) < 2 ^ 26"
  "unat (x AND 0x00fffff :: u32) < 2 ^ 26"
proof -
  have lt: "unat (w AND 0x3ffffff :: u32) < 2 ^ 26" for w by (simp add: unat_and_26)
  show "unat (x AND 0x3ffffff) < 2 ^ 26" by (rule lt)
  show "unat (x AND 0x3ffff03) < 2 ^ 26" using lt [of "x AND 0x3ffff03"] by (simp add: and.assoc)
  show "unat (x AND 0x3ffc0ff) < 2 ^ 26" using lt [of "x AND 0x3ffc0ff"] by (simp add: and.assoc)
  show "unat (x AND 0x3f03fff) < 2 ^ 26" using lt [of "x AND 0x3f03fff"] by (simp add: and.assoc)
  show "unat (x AND 0x00fffff) < 2 ^ 26" using lt [of "x AND 0x00fffff"] by (simp add: and.assoc)
qed

lemma clamped_limbs:
  assumes "length block = 64"
  defines "r \<equiv> (drop_bit 0 (uletoh32 block) AND 0x3ffffff, drop_bit 2 (uletoh32 (drop 3 block)) AND 0x3ffff03,
      drop_bit 4 (uletoh32 (drop 6 block)) AND 0x3ffc0ff, drop_bit 6 (uletoh32 (drop 9 block)) AND 0x3f03fff,
      drop_bit 8 (uletoh32 (drop 12 block)) AND 0x00fffff)"
  shows "key_wf r" and "limbs_nat r = clamp (le_nat (take 16 block))"
proof -
  define d where "d = take 16 block"
  define B where "B = le_nat d"
  have len: "length d = 16" using assms(1) by (simp add: d_def)
  note limbs = block_limbs [OF len, folded B_def]
  have u: "uletoh32 block = uletoh32 d" "uletoh32 (drop 3 block) = uletoh32 (drop 3 d)"
      "uletoh32 (drop 6 block) = uletoh32 (drop 6 d)" "uletoh32 (drop 9 block) = uletoh32 (drop 9 d)"
      "uletoh32 (drop 12 block) = uletoh32 (drop 12 d)"
    using uletoh32_take [of 0 16 block] uletoh32_take [of 3 16 block] uletoh32_take [of 6 16 block]
      uletoh32_take [of 9 16 block] uletoh32_take [of 12 16 block] by (simp_all add: d_def)
  have l4: "unat (drop_bit 8 (uletoh32 (drop 12 d)) AND 0x3ffffff) = block_limb B 4"
    using limbs(5,6) by (simp add: unat_and_26)
  have r: "r = (drop_bit 0 (uletoh32 d) AND 0x3ffffff, drop_bit 2 (uletoh32 (drop 3 d)) AND 0x3ffff03,
      drop_bit 4 (uletoh32 (drop 6 d)) AND 0x3ffc0ff, drop_bit 6 (uletoh32 (drop 9 d)) AND 0x3f03fff,
      drop_bit 8 (uletoh32 (drop 12 d)) AND 0x00fffff)"
    by (simp only: r_def u)
  have lb: "block_limb B i < 2 ^ 26" for i by (simp add: block_limb_def)
  show "key_wf r" unfolding r key_wf_def prod.case using and_mask_lt by blast
  have B: "B = block_limb B 0 + 2 ^ 26 * (block_limb B 1 + 2 ^ 26 * (block_limb B 2
      + 2 ^ 26 * (block_limb B 3 + 2 ^ 26 * block_limb B 4)))"
    using block_limb_sum [of B] le_nat_bound [of d] len by (simp add: B_def)
  have "clamp B = (block_limb B 0 AND 0x3ffffff) + 2 ^ 26 * ((block_limb B 1 AND 0x3ffff03)
      + 2 ^ 26 * ((block_limb B 2 AND 0x3ffc0ff) + 2 ^ 26 * ((block_limb B 3 AND 0x3f03fff)
      + 2 ^ 26 * (block_limb B 4 AND 0x00fffff))))"
    unfolding clamp_def by (subst B) (simp only: and_limb [OF lb], simp)
  moreover have "block_limb B 0 AND 0x3ffffff = block_limb B 0"
    using lb [of 0] take_bit_nat_eq_self [of "block_limb B 0" 26]
    by (simp add: take_bit_eq_mask mask_eq_exp_minus_1)
  ultimately show "limbs_nat r = clamp (le_nat (take 16 block))"
    by (simp add: r limbs_nat_def unat_and_mask limbs(1-4) [unfolded drop_bit_0 id_apply] l4 d_def [symmetric]
        B_def [symmetric])
qed

lemma portable_init:
  assumes "portable_keyed d K" and "length iv = 8"
  shows "\<exists>d'. drv_init d iv = (True, d') \<and> portable_session d' K iv 1 0"
proof -
  obtain iv0 n where K: "key_ok K" "length iv0 = 8" "chacha_m d = chacha20_matrix K iv0 n"
    using assms(1) by (auto simp: portable_keyed_def)
  obtain const key slt where k: "K = (const, key, slt)" by (cases K)
  let ?d0 = "d\<lparr>chacha_m := chacha20_matrix K iv 0\<rparr>" and ?b = "key_block K iv 0"
  have m: "(chacha_m d)[12 := 0, 14 := uletoh32 iv, 15 := uletoh32 (drop 4 iv)] = chacha20_matrix K iv 0"
    using K assms(2) by (simp add: k chacha20_matrix_explicit)
  have blk: "chacha_block_xor ?d0 (replicate 64 0) = (?b, ?d0\<lparr>chacha_m := chacha20_matrix K iv 1\<rparr>)"
  proof -
    have z: "map2 (XOR) (replicate 64 0) ?b = ?b"
      by (rule nth_equalityI) (use K(1) assms(2) in simp_all)
    show ?thesis
      using K(1) assms(2) z by (simp add: chacha_block_xor_spec matrix_count memxor_def key_block_def)
  qed
  define d' where "d' = snd (drv_init d iv)"
  have d': "drv_init d iv = (True, d')"
    by (simp add: d'_def drv_init_def Let_def split: prod.split)
  have len: "length ?b = 64" using K(1) assms(2) by simp
  note cl = clamped_limbs [OF len]
  have "words_nat (uletoh32 (drop 16 ?b), uletoh32 (drop 20 ?b), uletoh32 (drop 24 ?b), uletoh32 (drop 28 ?b))
      = otk_s K iv"
  proof -
    have "take 16 (drop 16 ?b) = take 4 (drop 16 ?b) @ take 4 (drop 20 ?b) @ take 4 (drop 24 ?b) @ take 4 (drop 28 ?b)"
      using take_add [of 4 12 "drop 16 ?b"] take_add [of 4 8 "drop 20 ?b"] take_add [of 4 4 "drop 24 ?b"] by simp
    then show ?thesis
      using len by (simp add: words_nat_def otk_s_def unat_uletoh32 le_nat_append)
  qed
  then have "portable_session d' K iv 1 0"
    using K(1) assms(2) cl m blk
    by (simp add: portable_session_def d'_def drv_init_def Let_def otk_r_def acc_wf_def limbs_nat_def)
  then show ?thesis using d' by blast
qed

lemma portable_poly:
  assumes "portable_session d K iv n a" and "16 * unat b \<le> length data"
  shows "\<exists>d'. drv_poly d data b = (True, d')
    \<and> portable_session d' K iv n (poly_steps (otk_r K iv) a data (unat b))"
  using assms poly_blocks_spec [of "poly_h d" "poly_r d" "unat b" data]
  by (auto simp: drv_poly_def portable_session_def)

lemma portable_block_xor:
  assumes "portable_session d K iv n a" and "64 \<le> length data"
  shows "\<exists>d'. chacha_block_xor d data = (memxor data (key_block K iv n) 64, d')
    \<and> portable_session d' K iv (n + 1) a"
  using assms by (simp add: portable_session_def chacha_block_xor_spec matrix_count key_block_def)

lemma portable_chacha:
  assumes "portable_session d K iv n a"
  shows "\<exists>d'. drv_chacha d = (True, key_block K iv n, d') \<and> portable_session d' K iv (n + 1) a"
proof -
  have len: "length (key_block K iv n) = 64" using assms by (simp add: portable_session_def)
  have "memxor (replicate 64 0) (key_block K iv n) 64 = key_block K iv n"
    unfolding memxor_def by (rule nth_equalityI) (use len in simp_all)
  then show ?thesis
    using portable_block_xor [OF assms, of "replicate 64 0"] by (auto simp: drv_chacha_def)
qed

lemma portable_finish:
  assumes "portable_session d K iv n a"
  shows "\<exists>d'. drv_finish d = (True, nat_le 16 (a + otk_s K iv), d') \<and> portable_keyed d' K"
  using assms drv_finish_spec [of d] by (auto simp: portable_session_def portable_keyed_def)

text \<open>Splitting the authenticated data and the key stream.\<close>

lemma poly_steps_add:
  "poly_steps r a data (m + n) = poly_steps r (poly_steps r a data m) (drop (16 * m) data) n"
  by (induction m arbitrary: a data) (simp_all add: add.commute)

lemma poly_steps_append:
  "16 * n \<le> length xs \<Longrightarrow> poly_steps r a (xs @ ys) n = poly_steps r a xs n"
  by (induction n arbitrary: a xs) simp_all

lemma poly_steps_take: "16 * n \<le> m \<Longrightarrow> m \<le> length xs \<Longrightarrow> poly_steps r a (take m xs) n = poly_steps r a xs n"
  using poly_steps_append [of n "take m xs" r a "drop m xs"] by simp

lemma key_stream_Suc: "key_stream K iv n (Suc b) = key_block K iv n @ key_stream K iv (n + 1) b"
  unfolding key_stream_def
  by (simp only: upt_conv_Cons [OF zero_less_Suc] list.map concat.simps map_Suc_upt [symmetric])
    (simp add: comp_def algebra_simps)

lemma length_key_stream [simp]: "key_ok K \<Longrightarrow> length iv = 8 \<Longrightarrow> length (key_stream K iv n b) = 64 * b"
  by (induction b arbitrary: n) (simp_all add: key_stream_Suc, simp add: key_stream_def)

lemma memxor_split:
  assumes "length k1 = m" and "m \<le> length data"
  shows "memxor data (k1 @ k2) (m + n) = memxor (take m data) k1 m @ memxor (drop m data) k2 n"
  using assms by (simp add: memxor_def take_add add.commute)

lemma memxor_0 [simp]: "memxor data k 0 = data"
  by (simp add: memxor_def)

lemma memxor_take_drop:
  assumes "length k = m" and "m \<le> length data"
  shows "take m (memxor data k m) = memxor (take m data) k m" and "drop m (memxor data k m) = drop m data"
  using assms by (simp_all add: memxor_def)

lemma portable_encrypt_blocks:
  assumes "portable_session d K iv n a" and "64 * b \<le> length data"
  shows "\<exists>d'. encrypt_blocks d data b = (memxor data (key_stream K iv n b) (64 * b), d')
    \<and> portable_session d' K iv (n + of_nat b)
        (poly_steps (otk_r K iv) a (memxor data (key_stream K iv n b) (64 * b)) (4 * b))"
  using assms
proof (induction b arbitrary: d data n a)
  case (Suc b)
  let ?kb = "key_block K iv n" and ?ks = "key_stream K iv (n + 1) b"
  have ok: "key_ok K" "length iv = 8" using Suc.prems(1) by (simp_all add: portable_session_def)
  have len: "64 \<le> length data" and len2: "64 * b \<le> length (drop 64 data)"
    using Suc.prems(2) by simp_all
  let ?out1 = "memxor data ?kb 64"
  obtain d1 where d1: "chacha_block_xor d data = (?out1, d1)" "portable_session d1 K iv (n + 1) a"
    using portable_block_xor [OF Suc.prems(1) len] by blast
  have l1: "length ?out1 = length data" using ok by simp
  let ?a2 = "poly_steps (otk_r K iv) a ?out1 4"
  obtain d2 where d2: "drv_poly d1 ?out1 4 = (True, d2)" "portable_session d2 K iv (n + 1) ?a2"
    using portable_poly [OF d1(2), of 4 ?out1] len l1 by auto
  let ?out2 = "memxor (drop 64 data) ?ks (64 * b)"
  obtain d3 where d3: "encrypt_blocks d2 (drop 64 data) b = (?out2, d3)"
      "portable_session d3 K iv (n + 1 + of_nat b) (poly_steps (otk_r K iv) ?a2 ?out2 (4 * b))"
    using Suc.IH [OF d2(2) len2] by blast
  have td: "take 64 ?out1 = memxor (take 64 data) ?kb 64" "drop 64 ?out1 = drop 64 data"
    using memxor_take_drop [of ?kb 64 data] ok len by simp_all
  let ?out = "memxor data (key_stream K iv n (Suc b)) (64 * Suc b)"
  have out: "?out = take 64 ?out1 @ ?out2"
    using memxor_split [of ?kb 64 data ?ks "64 * b"] ok len by (simp add: key_stream_Suc td)
  have lt: "length (take 64 ?out1) = 64" using l1 len by simp
  have "poly_steps (otk_r K iv) a ?out (4 * Suc b)
      = poly_steps (otk_r K iv) (poly_steps (otk_r K iv) a ?out 4) (drop 64 ?out) (4 * b)"
    using poly_steps_add [of "otk_r K iv" a ?out 4 "4 * b"] by simp
  also have "poly_steps (otk_r K iv) a ?out 4 = ?a2"
    using poly_steps_append [of 4 "take 64 ?out1" "otk_r K iv" a ?out2] poly_steps_take [of 4 64 ?out1] l1 len
    unfolding out by (simp add: lt)
  also have "drop 64 ?out = ?out2" unfolding out using lt by simp
  finally have acc: "poly_steps (otk_r K iv) a ?out (4 * Suc b) = poly_steps (otk_r K iv) ?a2 ?out2 (4 * b)" .
  have "encrypt_blocks d data (Suc b) = (?out, d3)"
    using d1(1) d2(1) d3(1) td out by (simp add: Let_def)
  moreover have "portable_session d3 K iv (n + of_nat (Suc b)) (poly_steps (otk_r K iv) a ?out (4 * Suc b))"
    unfolding acc using d3(2) by (simp add: algebra_simps)
  ultimately show ?case by blast
qed simp

lemma portable_decrypt_blocks:
  assumes "portable_session d K iv n a" and "64 * b \<le> length data"
  shows "\<exists>d'. decrypt_blocks d data b = (memxor data (key_stream K iv n b) (64 * b), d')
    \<and> portable_session d' K iv (n + of_nat b) (poly_steps (otk_r K iv) a data (4 * b))"
  using assms
proof (induction b arbitrary: d data n a)
  case (Suc b)
  let ?kb = "key_block K iv n" and ?ks = "key_stream K iv (n + 1) b"
  have ok: "key_ok K" "length iv = 8" using Suc.prems(1) by (simp_all add: portable_session_def)
  have len: "64 \<le> length data" and len2: "64 * b \<le> length (drop 64 data)"
    using Suc.prems(2) by simp_all
  let ?a2 = "poly_steps (otk_r K iv) a data 4"
  obtain d1 where d1: "drv_poly d data 4 = (True, d1)" "portable_session d1 K iv n ?a2"
    using portable_poly [OF Suc.prems(1), of 4 data] len by auto
  let ?out1 = "memxor data ?kb 64"
  obtain d2 where d2: "chacha_block_xor d1 data = (?out1, d2)" "portable_session d2 K iv (n + 1) ?a2"
    using portable_block_xor [OF d1(2) len] by blast
  let ?out2 = "memxor (drop 64 data) ?ks (64 * b)"
  obtain d3 where d3: "decrypt_blocks d2 (drop 64 data) b = (?out2, d3)"
      "portable_session d3 K iv (n + 1 + of_nat b) (poly_steps (otk_r K iv) ?a2 (drop 64 data) (4 * b))"
    using Suc.IH [OF d2(2) len2] by blast
  have td: "take 64 ?out1 = memxor (take 64 data) ?kb 64" "drop 64 ?out1 = drop 64 data"
    using memxor_take_drop [of ?kb 64 data] ok len by simp_all
  have out: "memxor data (key_stream K iv n (Suc b)) (64 * Suc b) = take 64 ?out1 @ ?out2"
    using memxor_split [of ?kb 64 data ?ks "64 * b"] ok len by (simp add: key_stream_Suc td)
  have acc: "poly_steps (otk_r K iv) a data (4 * Suc b) = poly_steps (otk_r K iv) ?a2 (drop 64 data) (4 * b)"
    using poly_steps_add [of "otk_r K iv" a data 4 "4 * b"] by simp
  have "decrypt_blocks d data (Suc b) = (memxor data (key_stream K iv n (Suc b)) (64 * Suc b), d3)"
    using d1(1) d2(1) d3(1) td out by (simp add: Let_def)
  moreover have "portable_session d3 K iv (n + of_nat (Suc b)) (poly_steps (otk_r K iv) a data (4 * Suc b))"
    unfolding acc using d3(2) by (simp add: algebra_simps)
  ultimately show ?case by blast
qed simp

text \<open>Authenticating padded data block by block, and the cipher text piece by piece.\<close>

definition poly_padded :: "nat \<Rightarrow> nat \<Rightarrow> chunk \<Rightarrow> nat" where
  "poly_padded r a xs = poly_steps r a (pad16 xs) (length (pad16 xs) div 16)"

lemma length_pad16_dvd: "16 dvd length (pad16 xs)"
  unfolding pad16_def length_append length_replicate by (rule pad_len_dvd) simp

lemma poly_padded_split:
  fixes xs
  defines "q \<equiv> length xs div 16" and "m \<equiv> length xs mod 16"
  shows "poly_padded r a xs = (if m = 0 then poly_steps r a xs q
    else poly_steps r (poly_steps r a xs q) (drop (16 * q) xs @ replicate (16 - m) 0) 1)"
proof (cases "m = 0")
  case True
  then show ?thesis by (simp add: poly_padded_def pad16_def pad_len_def m_def q_def)
next
  case False
  have p: "pad16 xs = xs @ replicate (16 - m) 0" using False by (simp add: pad16_def pad_len_def m_def)
  have len: "16 * q + m = length xs" "m < 16" by (simp_all add: q_def m_def)
  have "length (pad16 xs) = 16 * (q + 1)" unfolding p using len by simp
  then have "poly_padded r a xs = poly_steps r a (pad16 xs) (q + 1)" by (simp add: poly_padded_def)
  also have "\<dots> = poly_steps r (poly_steps r a (pad16 xs) q) (drop (16 * q) (pad16 xs)) 1"
    by (rule poly_steps_add)
  also have "poly_steps r a (pad16 xs) q = poly_steps r a xs q"
    unfolding p using len by (intro poly_steps_append) simp
  also have "drop (16 * q) (pad16 xs) = drop (16 * q) xs @ replicate (16 - m) 0"
    unfolding p using len by simp
  finally show ?thesis using False by simp
qed

lemma poly_padded_append:
  assumes "length xs = 16 * n"
  shows "poly_padded r a (xs @ ys) = poly_padded r (poly_steps r a xs n) ys"
proof -
  have p: "pad16 (xs @ ys) = xs @ pad16 ys" using assms by (simp add: pad16_def pad_len_def)
  have "length (pad16 (xs @ ys)) div 16 = n + length (pad16 ys) div 16" unfolding p using assms by simp
  then show ?thesis
    unfolding poly_padded_def p using assms by (simp add: poly_steps_add poly_steps_append)
qed

lemma tag_by_parts:
  assumes "length assoc < 2 ^ 64" and "length ct < 2 ^ 64"
  shows "chacha20_poly1305_tag K iv assoc ct = nat_le 16 (poly_steps (otk_r K iv)
    (poly_padded (otk_r K iv) (poly_padded (otk_r K iv) 0 assoc) ct)
    (htole64 (of_nat (length assoc)) @ htole64 (of_nat (length ct))) 1 + otk_s K iv)"
proof -
  let ?a = "pad16 assoc" and ?c = "pad16 ct"
  obtain i j where l: "length ?a = 16 * i" "length ?c = 16 * j" using length_pad16_dvd by (metis dvd_def)
  let ?tl = "nat_le 8 (length assoc) @ nat_le 8 (length ct)"
  have "htole64 (of_nat (length assoc)) @ htole64 (of_nat (length ct)) = ?tl"
    using assms by (simp add: htole64_def unat_of_nat)
  moreover have "length (?a @ ?c @ ?tl) div 16 = i + (j + 1)" using l by simp
  moreover have "poly_steps r 0 (?a @ ?c @ ?tl) (i + (j + 1)) = poly_steps r (poly_padded r (poly_padded r 0 assoc) ct) ?tl 1" for r
    unfolding poly_steps_add poly_padded_def using l by (simp add: poly_steps_append poly_steps_add)
  ultimately show ?thesis by (simp add: chacha20_poly1305_tag_def Let_def)
qed

lemma chacha20_xor_split:
  fixes data :: chunk
  assumes "key_ok K" and "length iv = 8"
  defines "B \<equiv> length data div 64" and "m \<equiv> length data mod 64"
  shows "chacha20_xor K iv data = memxor (take (64 * B) data) (key_stream K iv 1 B) (64 * B)
    @ memxor (drop (64 * B) data) (key_block K iv (1 + of_nat B)) m"
proof -
  have ks: "key_stream K iv 1 (B + 1) = key_stream K iv 1 B @ key_block K iv (1 + of_nat B)"
    by (simp add: key_stream_def)
  have len: "64 * B + m = length data" "m < 64" by (simp_all add: B_def m_def)
  have "chacha20_xor K iv data
      = map2 (XOR) (take (64 * B) data @ drop (64 * B) data) (key_stream K iv 1 B @ key_block K iv (1 + of_nat B))"
    using ks by (simp add: chacha20_xor_def B_def)
  also have "\<dots> = map2 (XOR) (take (64 * B) data) (key_stream K iv 1 B)
      @ map2 (XOR) (drop (64 * B) data) (key_block K iv (1 + of_nat B))"
    using len assms(1,2) by (subst zip_append) simp_all
  also have "map2 (XOR) (drop (64 * B) data) (key_block K iv (1 + of_nat B))
      = memxor (drop (64 * B) data) (key_block K iv (1 + of_nat B)) m"
    by (rule nth_equalityI) (use len assms(1,2) in \<open>simp_all add: memxor_def\<close>)
  finally show ?thesis using len assms(1,2) by (simp add: memxor_def)
qed

text \<open>Lengths as the code computes them.\<close>

lemma length_words:
  assumes "len < 2 ^ 32"
  shows "unat (of_nat (len div 64) :: u32) = len div 64"
    and "unat (of_nat (len div 64) * of_nat 64 :: u32) = 64 * (len div 64)"
    and "unat (of_nat (len mod 64) :: u32) = len mod 64"
    and "unat ((of_nat (len mod 64) :: u32) div of_nat 16) = len mod 64 div 16"
    and "unat ((of_nat (len mod 64) :: u32) mod of_nat 16) = len mod 64 mod 16"
    and "unat ((of_nat (len mod 64) :: u32) div of_nat 16 * of_nat 16) = 16 * (len mod 64 div 16)"
proof -
  have lt: "len div 64 < 2 ^ 32" "64 * (len div 64) < 2 ^ 32" using assms by linarith+
  show "unat (of_nat (len div 64) :: u32) = len div 64"
    and "unat (of_nat (len div 64) * of_nat 64 :: u32) = 64 * (len div 64)"
    using lt by (simp_all add: unat_of_nat unat_word_ariths mult.commute)
  have m: "len mod 64 < 64" by simp
  show r: "unat (of_nat (len mod 64) :: u32) = len mod 64"
    by (simp add: unat_of_nat)
  then show d: "unat ((of_nat (len mod 64) :: u32) div of_nat 16) = len mod 64 div 16"
    and "unat ((of_nat (len mod 64) :: u32) mod of_nat 16) = len mod 64 mod 16"
    by (simp_all add: unat_div_distrib unat_mod_distrib)
  have "len mod 64 div 16 < 4" using m by linarith
  then have "16 * (len mod 64 div 16) < 2 ^ 32" by simp
  then show "unat ((of_nat (len mod 64) :: u32) div of_nat 16 * of_nat 16) = 16 * (len mod 64 div 16)"
    using d by (simp add: unat_word_ariths mult.commute)
qed

text \<open>The cipher text in the two pieces the code produces.\<close>

lemma stream_parts:
  fixes data :: chunk
  assumes "key_ok K" and "length iv = 8" and "length data < 2 ^ 32"
  defines "b \<equiv> of_nat (length data div 64) :: u32" and "rem \<equiv> of_nat (length data mod 64) :: u32"
  defines "off \<equiv> unat (b * of_nat 64)" and "out \<equiv> memxor data (key_stream K iv 1 (unat b)) (64 * unat b)"
  defines "rst \<equiv> memxor (drop off data) (key_block K iv (1 + b)) (unat rem)"
  shows "off = 64 * unat b" and "64 * unat b \<le> length data" and "drop off out = drop off data"
    and "length out = length data" and "length (drop off data) = length data mod 64"
    and "length rst = length data mod 64" and "chacha20_xor K iv data = take off out @ rst"
    and "rem = 0 \<Longrightarrow> chacha20_xor K iv data = out \<and> drop off data = []"
proof -
  note w = length_words [OF assms(3), folded b_def rem_def]
  show off: "off = 64 * unat b" and le: "64 * unat b \<le> length data" using w(1,2) by (simp_all add: off_def)
  have lks: "length (key_stream K iv 1 (unat b)) = 64 * unat b" using assms(1,2) by simp
  have out: "take off out = memxor (take off data) (key_stream K iv 1 (unat b)) off"
    using memxor_take_drop [OF lks le] off by (simp add: out_def)
  show "drop off out = drop off data" and lo: "length out = length data"
    using memxor_take_drop [OF lks le] lks le off by (simp_all add: out_def)
  show d: "length (drop off data) = length data mod 64"
    using off w(1) by (simp add: minus_mult_div_eq_mod)
  show "length rst = length data mod 64" using d w(3) assms(1,2) by (simp add: rst_def)
  have "1 + b = 1 + of_nat (length data div 64)" by (simp add: b_def)
  then show ct: "chacha20_xor K iv data = take off out @ rst"
    using chacha20_xor_split [OF assms(1,2), of data] w(1,3) out off by (simp add: rst_def)
  show "chacha20_xor K iv data = out \<and> drop off data = []" if "rem = 0"
  proof -
    have m: "length data mod 64 = 0" using w(3) that by simp
    then have "drop off data = []" using d by simp
    then show ?thesis using ct lo by (simp add: rst_def memxor_def)
  qed
qed

lemma length_chacha20_xor [simp]:
  "key_ok K \<Longrightarrow> length iv = 8 \<Longrightarrow> length (chacha20_xor K iv data) = length data"
proof -
  assume "key_ok K" "length iv = 8"
  then have "length (key_stream K iv 1 (length data div 64 + 1)) = 64 * (length data div 64 + 1)"
    by (rule length_key_stream)
  moreover have "length data \<le> 64 * (length data div 64 + 1)" by simp
  ultimately show ?thesis by (simp add: chacha20_xor_def)
qed

section \<open>What the AEAD relies on\<close>

text \<open>
  \<open>ready\<close> drivers accept a key, \<open>keyed\<close> ones start sessions; \<open>session d K iv n a\<close> says that the
  next key stream block of \<open>d\<close> is number \<open>n\<close> under key and nonce, and that its authenticator
  has accumulated \<open>a\<close>.
\<close>

locale chapoly_driver =
  fixes V :: "'d chapoly_drv_t"
    and ready :: "'d \<Rightarrow> bool"
    and keyed :: "'d \<Rightarrow> chacha_key \<Rightarrow> bool"
    and session :: "'d \<Rightarrow> chacha_key \<Rightarrow> chunk \<Rightarrow> u32 \<Rightarrow> nat \<Rightarrow> bool"
  assumes keyed_ready: "keyed d K \<Longrightarrow> ready d"
    and session_keyed: "session d K iv n a \<Longrightarrow> keyed d K"
    and set_key_law: "ready d \<Longrightarrow> key_ok (const, key, slt) \<Longrightarrow>
      \<exists>d'. d_set_key V d const key slt = (True, d') \<and> keyed d' (const, key, slt)"
    and init_law: "keyed d K \<Longrightarrow> length iv = 8 \<Longrightarrow> \<exists>d'. d_init V d iv = (True, d') \<and> session d' K iv 1 0"
    and poly_law: "session d K iv n a \<Longrightarrow> 16 * unat b \<le> length data \<Longrightarrow>
      \<exists>d'. d_poly V d data b = (True, d') \<and> session d' K iv n (poly_steps (otk_r K iv) a data (unat b))"
    and chacha_law: "session d K iv n a \<Longrightarrow>
      \<exists>d'. d_chacha V d = (True, key_block K iv n, d') \<and> session d' K iv (n + 1) a"
    and encrypt_law: "session d K iv n a \<Longrightarrow> 64 * unat b \<le> length data \<Longrightarrow>
      \<exists>d'. d_encrypt V d data b = (True, memxor data (key_stream K iv n (unat b)) (64 * unat b), d')
        \<and> session d' K iv (n + b) (poly_steps (otk_r K iv) a
            (memxor data (key_stream K iv n (unat b)) (64 * unat b)) (4 * unat b))"
    and decrypt_law: "session d K iv n a \<Longrightarrow> 64 * unat b \<le> length data \<Longrightarrow>
      \<exists>d'. d_decrypt V d data b = (True, memxor data (key_stream K iv n (unat b)) (64 * unat b), d')
        \<and> session d' K iv (n + b) (poly_steps (otk_r K iv) a data (4 * unat b))"
    and finish_law: "session d K iv n a \<Longrightarrow>
      \<exists>d'. d_finish V d = (True, nat_le 16 (a + otk_s K iv), d') \<and> keyed d' K"
    and keyed_ok: "keyed d K \<Longrightarrow> key_ok K"
begin

lemma update_padded:
  assumes "session d K iv n a" and "length xs < 16"
  shows "\<exists>d'. poly_update_padded V d xs (length xs) = (True, d')
    \<and> session d' K iv n (poly_steps (otk_r K iv) a (xs @ replicate (16 - length xs) 0) 1)"
proof -
  have "memcpy_at (replicate 16 0) 0 (take (length xs) xs) = xs @ replicate (16 - length xs) 0"
    by (simp add: memcpy_at_def)
  then show ?thesis
    using poly_law [OF assms(1), of 1 "xs @ replicate (16 - length xs) 0"] assms(2)
    by (simp add: poly_update_padded_def)
qed

text \<open>The shared pattern of \<open>poly_head\<close> and of the remainder: whole blocks, then a padded one.\<close>

lemma blocks_then_padded:
  assumes "session d K iv n a" and "unat blocks = length xs div 16" and "unat prem = length xs mod 16"
    and "unat off = 16 * (length xs div 16)"
  shows "\<exists>d1 d2. d_poly V d xs blocks = (True, d1)
    \<and> (prem \<noteq> 0 \<longrightarrow> poly_update_padded V d1 (drop (unat off) xs) (unat prem) = (True, d2))
    \<and> (prem = 0 \<longrightarrow> d2 = d1) \<and> session d2 K iv n (poly_padded (otk_r K iv) a xs)"
proof -
  have len: "16 * (length xs div 16) + length xs mod 16 = length xs" by simp
  obtain d1 where d1: "d_poly V d xs blocks = (True, d1)"
      "session d1 K iv n (poly_steps (otk_r K iv) a xs (length xs div 16))"
    using poly_law [OF assms(1), of blocks xs] assms(2) by auto
  show ?thesis
  proof (cases "prem = 0")
    case True
    then have "length xs mod 16 = 0" using assms(3) by simp
    then show ?thesis using d1 True by (auto simp: poly_padded_split)
  next
    case False
    then have m: "length xs mod 16 \<noteq> 0" using assms(3) by (metis unat_eq_zero)
    let ?rst = "drop (unat off) xs"
    have rst: "length ?rst = length xs mod 16" using assms(4) by (simp add: minus_mult_div_eq_mod)
    then obtain d2 where "poly_update_padded V d1 ?rst (length xs mod 16) = (True, d2)"
        "session d2 K iv n (poly_steps (otk_r K iv) (poly_steps (otk_r K iv) a xs (length xs div 16))
          (?rst @ replicate (16 - length xs mod 16) 0) 1)"
      using update_padded [OF d1(2), of ?rst, unfolded rst] by auto
    then show ?thesis using d1(1) m assms(3,4) False by (auto simp: poly_padded_split)
  qed
qed

lemma rest_padded:
  assumes "session d K iv n a" and "unat blocks = length xs div 16" and "unat prem = length xs mod 16"
    and "unat off = 16 * (length xs div 16)"
  shows "\<exists>d1 d2. d_poly V d xs blocks = (True, d1)
    \<and> (if prem \<noteq> 0 then snd (poly_update_padded V d1 (drop (unat off) xs) (unat prem)) else d1) = d2
    \<and> session d2 K iv n (poly_padded (otk_r K iv) a xs)"
  using blocks_then_padded [OF assms] by (auto split: if_splits)

lemma poly_head_session:
  assumes "session d K iv n a" and "length assoc < 2 ^ 32"
  shows "\<exists>d'. poly_head V d assoc (length assoc) = (True, d')
    \<and> session d' K iv n (poly_padded (otk_r K iv) a assoc)"
proof -
  let ?blocks = "of_nat (length assoc div 16) :: u32" and ?rem = "of_nat (length assoc mod 16) :: u32"
  have lt: "length assoc div 16 < 2 ^ 32" "16 * (length assoc div 16) < 2 ^ 32"
    using assms(2) by linarith+
  have u: "unat ?blocks = length assoc div 16" "unat ?rem = length assoc mod 16"
      "unat (?blocks * of_nat 16) = 16 * (length assoc div 16)"
    using lt by (simp_all add: unat_of_nat unat_word_ariths mult.commute)
  obtain d1 d2 where *: "d_poly V d assoc ?blocks = (True, d1)"
      "?rem \<noteq> 0 \<longrightarrow> poly_update_padded V d1 (drop (unat (?blocks * of_nat 16)) assoc) (unat ?rem) = (True, d2)"
      "?rem = 0 \<longrightarrow> d2 = d1" "session d2 K iv n (poly_padded (otk_r K iv) a assoc)"
    using blocks_then_padded [OF assms(1) u] by blast
  then show ?thesis unfolding poly_head_def Let_def by (cases "?rem = 0") auto
qed

lemma start:
  assumes "keyed d K" and "length iv = 8" and "length assoc < 2 ^ 32"
  shows "\<exists>d1 d2. d_init V d iv = (True, d1) \<and> poly_head V d1 assoc (length assoc) = (True, d2)
    \<and> session d2 K iv 1 (poly_padded (otk_r K iv) 0 assoc)"
  using init_law [OF assms(1,2)] poly_head_session [OF _ assms(3)] by blast

lemma finalize:
  assumes "session d K iv n (poly_padded (otk_r K iv) (poly_padded (otk_r K iv) 0 assoc) ct)"
    and "length assoc < 2 ^ 32" and "length ct < 2 ^ 32"
  shows "\<exists>d1 d2. poly_tail V d (length assoc) (length ct) = (True, d1)
    \<and> d_finish V d1 = (True, chacha20_poly1305_tag K iv assoc ct, d2) \<and> keyed d2 K"
proof -
  obtain d1 where d1: "poly_tail V d (length assoc) (length ct) = (True, d1)"
      "session d1 K iv n (poly_steps (otk_r K iv) (poly_padded (otk_r K iv) (poly_padded (otk_r K iv) 0 assoc) ct)
        (htole64 (of_nat (length assoc)) @ htole64 (of_nat (length ct))) 1)"
    using poly_law [OF assms(1), of 1 "htole64 (of_nat (length assoc)) @ htole64 (of_nat (length ct))"]
    by (auto simp: poly_tail_def)
  have "length assoc < 2 ^ 64" "length ct < 2 ^ 64" using assms(2,3) by simp_all
  then show ?thesis
    using d1(1) finish_law [OF d1(2)] by (auto simp: tag_by_parts)
qed

lemma finish_session:
  assumes "session d K iv n (poly_padded (otk_r K iv) (poly_padded (otk_r K iv) 0 assoc) ct)"
    and "length assoc < 2 ^ 32" and "length ct < 2 ^ 32"
  obtains d1 d2 where "poly_tail V d (length assoc) (length ct) = (True, d1)"
    and "d_finish V d1 = (True, chacha20_poly1305_tag K iv assoc ct, d2)" and "keyed d2 K"
  using finalize [OF assms] by blast

lemma do_encrypt_seals:
  assumes "keyed d K" and "length iv = 8" and "length data < 2 ^ 32" and "length assoc < 2 ^ 32"
  shows "\<exists>d'. do_encrypt V d (length data) data iv (length assoc) assoc icv
      = (True, chacha20_xor K iv data, chacha20_poly1305_tag K iv assoc (chacha20_xor K iv data), d')
    \<and> keyed d' K"
proof -
  note ok = keyed_ok [OF assms(1)]
  define b where "b = (of_nat (length data div 64) :: u32)"
  define rem where "rem = (of_nat (length data mod 64) :: u32)"
  define off where "off = unat (b * of_nat 64)"
  define out where "out = memxor data (key_stream K iv 1 (unat b)) (64 * unat b)"
  define rst where "rst = memxor (drop off data) (key_block K iv (1 + b)) (unat rem)"
  note defs = b_def [symmetric] rem_def [symmetric]
  note w = length_words [OF assms(3), folded b_def rem_def]
  note parts = stream_parts [OF ok assms(2,3), folded b_def rem_def, folded off_def out_def, folded rst_def]
  let ?r = "otk_r K iv" and ?ct = "chacha20_xor K iv data" and ?a0 = "poly_padded (otk_r K iv) 0 assoc"
  obtain d1 d2 where d12: "d_init V d iv = (True, d1)" "poly_head V d1 assoc (length assoc) = (True, d2)"
      "session d2 K iv 1 ?a0"
    using start [OF assms(1,2,4)] by blast
  obtain d3 where d3: "d_encrypt V d2 data b = (True, out, d3)"
      "session d3 K iv (1 + b) (poly_steps ?r ?a0 out (4 * unat b))"
    using encrypt_law [OF d12(3) parts(2)] by (auto simp: out_def)
  have lo: "length (take off out) = 16 * (4 * unat b)" using parts(1,2,4) by simp
  have acc: "poly_padded ?r ?a0 ?ct = poly_padded ?r (poly_steps ?r ?a0 out (4 * unat b)) rst"
    unfolding parts(7) using poly_padded_append [OF lo] poly_steps_take [of "4 * unat b" off out] parts(1,2,4)
    by simp
  have lct: "length ?ct = length data" "length ?ct < 2 ^ 32" using ok assms(2,3) by simp_all
  show ?thesis
  proof (cases "rem = 0")
    case True
    have "rst = []" using parts(8) [OF True] by (simp add: rst_def memxor_def)
    then have "session d3 K iv (1 + b) (poly_padded ?r ?a0 ?ct)"
      unfolding acc using d3(2) by (simp add: poly_padded_split)
    from finish_session [OF this assms(4) lct(2)] show ?thesis
      using d12(1,2) d3(1) True parts(8) [OF True] lct(1) unfolding do_encrypt_def Let_def defs by fastforce
  next
    case False
    obtain d4 where d4: "d_chacha V d3 = (True, key_block K iv (1 + b), d4)"
        "session d4 K iv (1 + b + 1) (poly_steps ?r ?a0 out (4 * unat b))"
      using chacha_law [OF d3(2)] by blast
    have u: "unat (rem div of_nat 16) = length rst div 16" "unat (rem mod of_nat 16) = length rst mod 16"
        "unat (rem div of_nat 16 * of_nat 16) = 16 * (length rst div 16)"
      unfolding parts(6) by (rule w)+
    obtain d5 d6 where d56: "d_poly V d4 rst (rem div of_nat 16) = (True, d5)"
        "(if rem mod of_nat 16 \<noteq> 0 then snd (poly_update_padded V d5
          (drop (unat (rem div of_nat 16 * of_nat 16)) rst) (unat (rem mod of_nat 16))) else d5) = d6"
        "session d6 K iv (1 + b + 1) (poly_padded ?r ?a0 ?ct)"
      using rest_padded [OF d4(2) u, folded acc] by blast
    obtain d7 d8 where d78: "poly_tail V d6 (length assoc) (length data) = (True, d7)"
        "d_finish V d7 = (True, chacha20_poly1305_tag K iv assoc ?ct, d8)" "keyed d8 K"
      using finish_session [OF d56(3) assms(4) lct(2)] lct(1) by metis
    have "do_encrypt V d (length data) data iv (length assoc) assoc icv
        = (True, ?ct, chacha20_poly1305_tag K iv assoc ?ct, d8)"
      unfolding do_encrypt_def Let_def defs off_def [symmetric]
      using d12(1,2) d3(1) d4(1) d56(1,2) d78 False parts(3,7)
      by (simp only: prod.case rst_def [symmetric] if_True if_False simp_thms not_False_eq_True)
    then show ?thesis using d78(3) by blast
  qed
qed

lemma do_decrypt_opens:
  assumes "keyed d K" and "length iv = 8" and "length data < 2 ^ 32" and "length assoc < 2 ^ 32"
  shows "\<exists>d'. do_decrypt V d (length data) data iv (length assoc) assoc icv
      = (True, chacha20_xor K iv data, chacha20_poly1305_tag K iv assoc data, d') \<and> keyed d' K"
proof -
  note ok = keyed_ok [OF assms(1)]
  define b where "b = (of_nat (length data div 64) :: u32)"
  define rem where "rem = (of_nat (length data mod 64) :: u32)"
  define off where "off = unat (b * of_nat 64)"
  define out where "out = memxor data (key_stream K iv 1 (unat b)) (64 * unat b)"
  define rst where "rst = drop off data"
  note defs = b_def [symmetric] rem_def [symmetric]
  note w = length_words [OF assms(3), folded b_def rem_def]
  note parts = stream_parts [OF ok assms(2,3), folded b_def rem_def, folded off_def out_def, folded rst_def]
  let ?r = "otk_r K iv" and ?pt = "chacha20_xor K iv data" and ?a0 = "poly_padded (otk_r K iv) 0 assoc"
  obtain d1 d2 where d12: "d_init V d iv = (True, d1)" "poly_head V d1 assoc (length assoc) = (True, d2)"
      "session d2 K iv 1 ?a0"
    using start [OF assms(1,2,4)] by blast
  obtain d3 where d3: "d_decrypt V d2 data b = (True, out, d3)"
      "session d3 K iv (1 + b) (poly_steps ?r ?a0 data (4 * unat b))"
    using decrypt_law [OF d12(3) parts(2)] by (auto simp: out_def)
  have lo: "length (take off data) = 16 * (4 * unat b)" using parts(1,2) by simp
  have acc: "poly_padded ?r ?a0 data = poly_padded ?r (poly_steps ?r ?a0 data (4 * unat b)) rst"
    using poly_padded_append [OF lo, of ?r ?a0 rst] poly_steps_take [of "4 * unat b" off data] parts(1,2)
    by (simp add: rst_def)
  show ?thesis
  proof (cases "rem = 0")
    case True
    have "rst = []" using parts(8) [OF True] by simp
    then have "session d3 K iv (1 + b) (poly_padded ?r ?a0 data)"
      unfolding acc using d3(2) by (simp add: poly_padded_split)
    from finish_session [OF this assms(4,3)] show ?thesis
      using d12(1,2) d3(1) True parts(8) [OF True] unfolding do_decrypt_def Let_def defs by fastforce
  next
    case False
    have u: "unat (rem div of_nat 16) = length rst div 16" "unat (rem mod of_nat 16) = length rst mod 16"
        "unat (rem div of_nat 16 * of_nat 16) = 16 * (length rst div 16)"
      unfolding parts(5) by (rule w)+
    obtain d4 d5 where d45: "d_poly V d3 rst (rem div of_nat 16) = (True, d4)"
        "(if rem mod of_nat 16 \<noteq> 0 then snd (poly_update_padded V d4
          (drop (unat (rem div of_nat 16 * of_nat 16)) rst) (unat (rem mod of_nat 16))) else d4) = d5"
        "session d5 K iv (1 + b) (poly_padded ?r ?a0 data)"
      using rest_padded [OF d3(2) u, folded acc] by blast
    obtain d6 where d6: "d_chacha V d5 = (True, key_block K iv (1 + b), d6)"
        "session d6 K iv (1 + b + 1) (poly_padded ?r ?a0 data)"
      using chacha_law [OF d45(3)] by blast
    obtain d7 d8 where d78: "poly_tail V d6 (length assoc) (length data) = (True, d7)"
        "d_finish V d7 = (True, chacha20_poly1305_tag K iv assoc data, d8)" "keyed d8 K"
      using finish_session [OF d6(2) assms(4,3)] by metis
    have "do_decrypt V d (length data) data iv (length assoc) assoc icv
        = (True, ?pt, chacha20_poly1305_tag K iv assoc data, d8)"
      unfolding do_decrypt_def Let_def defs off_def [symmetric]
      using d12(1,2) d3(1) d45(1,2) d6(1) d78 False parts(3,7)
      by (simp only: prod.case rst_def [symmetric] if_True if_False simp_thms not_False_eq_True)
    then show ?thesis using d78(3) by blast
  qed
qed

end

interpretation portable: chapoly_driver portable_drv portable_ready portable_keyed portable_session
proof
  show "portable_keyed d K \<Longrightarrow> portable_ready d" for d K
    by (auto simp: portable_keyed_def portable_ready_def)
  show "portable_session d K iv n a \<Longrightarrow> portable_keyed d K" for d K iv n a
    by (auto simp: portable_keyed_def portable_session_def)
  show "\<exists>d'. d_encrypt portable_drv d data b = (True, memxor data (key_stream K iv n (unat b)) (64 * unat b), d')
      \<and> portable_session d' K iv (n + b) (poly_steps (otk_r K iv) a
          (memxor data (key_stream K iv n (unat b)) (64 * unat b)) (4 * unat b))"
    if "portable_session d K iv n a" "64 * unat b \<le> length data" for d K iv n a b data
    using portable_encrypt_blocks [OF that] by (auto simp: portable_drv_def drv_encrypt_def)
  show "\<exists>d'. d_decrypt portable_drv d data b = (True, memxor data (key_stream K iv n (unat b)) (64 * unat b), d')
      \<and> portable_session d' K iv (n + b) (poly_steps (otk_r K iv) a data (4 * unat b))"
    if "portable_session d K iv n a" "64 * unat b \<le> length data" for d K iv n a b data
    using portable_decrypt_blocks [OF that] by (auto simp: portable_drv_def drv_decrypt_def)
  show "portable_keyed d K \<Longrightarrow> key_ok K" for d K by (simp add: portable_keyed_def)
qed (use portable_set_key portable_init portable_poly portable_chacha portable_finish
     in \<open>simp_all add: portable_drv_def\<close>)

section \<open>The AEAD meets its contract\<close>

definition chapoly_methods :: "'d chapoly_drv_t \<Rightarrow> chunk \<Rightarrow> (('d, 'r) chapoly_aead, 'r) aead_t" where
  "chapoly_methods V uninit =
     \<lparr>a_encrypt = chapoly_encrypt V uninit, a_decrypt = chapoly_decrypt V uninit,
      a_get_block_size = chapoly_get_block_size, a_get_icv_size = chapoly_get_icv_size,
      a_get_iv_size = chapoly_get_iv_size, a_get_iv_gen = (\<lambda>this. Some (chapoly_iv_gen this)),
      a_put_iv_gen = (\<lambda>this g. this\<lparr>chapoly_iv_gen := g\<rparr>),
      a_get_key_size = chapoly_get_key_size, a_set_key = chapoly_set_key V\<rparr>"

lemma chacha20_xor_twice:
  assumes "key_ok K" and "length iv = 8"
  shows "chacha20_xor K iv (chacha20_xor K iv d) = d"
proof -
  let ?ks = "key_stream K iv 1 (length d div 64 + 1)"
  have ks: "length d \<le> length ?ks" using assms by simp
  then have "chacha20_xor K iv d = map2 (XOR) d (take (length d) ?ks)"
    by (intro nth_equalityI) (simp_all add: chacha20_xor_def)
  then show ?thesis
    using assms ks by (intro nth_equalityI) (simp_all add: chacha20_xor_def xor.assoc)
qed

lemma length_tag [simp]: "length (chacha20_poly1305_tag K iv assoc ct) = 16"
  by (simp add: chacha20_poly1305_tag_def Let_def)

context chapoly_driver
begin

lemma encrypt_seals:
  assumes "keyed (chapoly_drv this) K" and "length iv = 8" and "length plain < 2 ^ 32" and "length assoc < 2 ^ 32"
  shows "\<exists>d'. chapoly_encrypt V uninit this plain assoc iv alloc
      = (Some (chacha20_poly1305_seal K iv assoc plain), this\<lparr>chapoly_drv := d'\<rparr>) \<and> keyed d' K"
  using do_encrypt_seals [OF assms, of uninit] assms(2,3)
  by (auto simp: chapoly_encrypt_def chacha20_poly1305_seal_def Let_def)

lemma decrypt_opens:
  assumes "keyed (chapoly_drv this) K" and "length iv = 8" and "length c < 2 ^ 32" and "length assoc < 2 ^ 32"
  shows "\<exists>res d'. chapoly_decrypt V uninit this c assoc iv alloc = (res, this\<lparr>chapoly_drv := d'\<rparr>) \<and> keyed d' K
    \<and> (\<forall>p. res = Some p \<longleftrightarrow> c = chacha20_poly1305_seal K iv assoc p)"
proof (cases "length c < 16")
  case True
  have "c \<noteq> chacha20_poly1305_seal K iv assoc p" for p
  proof
    assume "c = chacha20_poly1305_seal K iv assoc p"
    then have "length c \<ge> 16" by (simp add: chacha20_poly1305_seal_def Let_def)
    then show False using True by simp
  qed
  moreover have "chapoly_decrypt V uninit this c assoc iv alloc
      = (None, this\<lparr>chapoly_drv := chapoly_drv this\<rparr>)"
    using True by (simp add: chapoly_decrypt_def)
  ultimately show ?thesis
    using assms(1) by (intro exI [of _ None] exI [of _ "chapoly_drv this"]) simp
next
  case False
  let ?ct = "take (length c - 16) c" and ?tag = "drop (length c - 16) c"
  have ok: "key_ok K" by (rule keyed_ok [OF assms(1)])
  have "length ?ct < 2 ^ 32" using assms(3) by simp
  then obtain d' where d': "do_decrypt V (chapoly_drv this) (length ?ct) ?ct iv (length assoc) assoc uninit
      = (True, chacha20_xor K iv ?ct, chacha20_poly1305_tag K iv assoc ?ct, d')" "keyed d' K"
    using do_decrypt_opens [OF assms(1,2) _ assms(4)] by blast
  let ?res = "if chacha20_poly1305_tag K iv assoc ?ct = ?tag then Some (chacha20_xor K iv ?ct) else None"
  have "length ?ct = length c - 16" "\<not> P_MAX < length c - 16" using assms(3) by simp_all
  then have "chapoly_decrypt V uninit this c assoc iv alloc = (?res, this\<lparr>chapoly_drv := d'\<rparr>)"
    using d'(1) False assms(2) by (simp add: chapoly_decrypt_def Let_def memeq_def)
  moreover have "?res = Some p \<longleftrightarrow> c = chacha20_poly1305_seal K iv assoc p" for p
  proof
    assume "?res = Some p"
    then have t: "chacha20_poly1305_tag K iv assoc ?ct = ?tag" and p: "p = chacha20_xor K iv ?ct"
      by (auto split: if_splits)
    have "chacha20_poly1305_seal K iv assoc p = ?ct @ ?tag"
      using ok assms(2) t by (simp add: chacha20_poly1305_seal_def Let_def p chacha20_xor_twice)
    then show "c = chacha20_poly1305_seal K iv assoc p" by simp
  next
    assume c: "c = chacha20_poly1305_seal K iv assoc p"
    then have "?ct = chacha20_xor K iv p" "?tag = chacha20_poly1305_tag K iv assoc (chacha20_xor K iv p)"
      by (simp_all add: chacha20_poly1305_seal_def Let_def)
    then show "?res = Some p" using ok assms(2) by (simp add: chacha20_xor_twice)
  qed
  ultimately show ?thesis using d'(2) by blast
qed

end

text \<open>The interpretation on the portable driver.\<close>

interpretation chapoly: aead_contract "chapoly_methods portable_drv uninit"
  "\<lambda>this K. portable_keyed (chapoly_drv this) K" chacha20_poly1305_seal 1 16 8 "2 ^ 32" for uninit
proof
  fix this :: "(chapoly_drv_portable, 'r) chapoly_aead" and K and iv assoc p c :: chunk and g :: "'r iv_gen_t"
  assume k: "portable_keyed (chapoly_drv this) K"
  show "portable_keyed (chapoly_drv (a_put_iv_gen (chapoly_methods portable_drv uninit) this g)) K"
    using k by (simp add: chapoly_methods_def)
  assume iv: "length iv = 8"
  show "length (chacha20_poly1305_seal K iv assoc p) = length p + 16"
    using portable.keyed_ok [OF k] iv by (simp add: chacha20_poly1305_seal_def Let_def)
  assume l: "length assoc < 2 ^ 32"
  show "\<exists>a'. a_encrypt (chapoly_methods portable_drv uninit) this plain assoc iv False
      = (Some (chacha20_poly1305_seal K iv assoc plain), a') \<and> portable_keyed (chapoly_drv a') K
      \<and> a_get_iv_gen (chapoly_methods portable_drv uninit) a' = a_get_iv_gen (chapoly_methods portable_drv uninit) this"
    if "length plain < 2 ^ 32" for plain
    using portable.encrypt_seals [OF k iv that l] by (fastforce simp: chapoly_methods_def)
  assume "length c < 2 ^ 32"
  from portable.decrypt_opens [OF k iv this l, of uninit]
  show "\<exists>res a'. a_decrypt (chapoly_methods portable_drv uninit) this c assoc iv al = (res, a')
      \<and> portable_keyed (chapoly_drv a') K
      \<and> a_get_iv_gen (chapoly_methods portable_drv uninit) a' = a_get_iv_gen (chapoly_methods portable_drv uninit) this
      \<and> (\<forall>p. res = Some p \<longleftrightarrow> 1 dvd length p \<and> c = chacha20_poly1305_seal K iv assoc p)" for al
    by (fastforce simp: chapoly_methods_def)
qed (simp_all add: chapoly_methods_def chapoly_get_block_size_def chapoly_get_icv_size_def chapoly_get_iv_size_def)

section \<open>Correctness of the driver and of the AEAD\<close>

lemma portable_create_ready: "portable_ready chapoly_drv_portable_create"
  by (simp add: portable_ready_def chapoly_drv_portable_create_def)

text \<open>
  C7: The authenticator of the portable driver is Poly1305. After keying a new driver and
  starting a session, feeding any number of blocks and finishing yields the little endian
  sixteen byte value of the polynomial of the blocks, evaluated modulo \<open>2\<^sup>1\<^sup>3\<^sup>0 - 5\<close> at
  the clamped first half of the one-time key block, plus its second half modulo \<open>2\<^sup>1\<^sup>2\<^sup>8\<close>:
  none of the 32-bit and 64-bit limb operations loses a carry.
\<close>

theorem drv_poly1305_correct:
  assumes "length const = 16" and "length key = 32" and "length slt = 4" and "length iv = 8"
    and "16 * unat n \<le> length data"
  shows "let d1 = snd (drv_set_key chapoly_drv_portable_create const key slt);
             d2 = snd (drv_init d1 iv); d3 = snd (drv_poly d2 data n);
             block = chacha20_block (chacha20_matrix (const, key, slt) iv 0)
         in fst (snd (drv_finish d3)) = nat_le 16
              (poly_steps (clamp (le_nat (take 16 block))) 0 data (unat n) + le_nat (take 16 (drop 16 block)))"
proof -
  have ok: "key_ok (const, key, slt)" using assms by (simp add: key_ok_def)
  obtain d1 where d1: "drv_set_key chapoly_drv_portable_create const key slt = (True, d1)"
      "portable_keyed d1 (const, key, slt)"
    using portable_set_key [OF portable_create_ready ok] by blast
  obtain d2 where d2: "drv_init d1 iv = (True, d2)" "portable_session d2 (const, key, slt) iv 1 0"
    using portable_init [OF d1(2) assms(4)] by blast
  obtain d3 where d3: "drv_poly d2 data n = (True, d3)"
      "portable_session d3 (const, key, slt) iv 1 (poly_steps (otk_r (const, key, slt) iv) 0 data (unat n))"
    using portable_poly [OF d2(2) assms(5)] by blast
  show ?thesis
    using d1(1) d2(1) d3(1) portable_finish [OF d3(2)] by (auto simp: otk_r_def otk_s_def key_block_def)
qed

theorem drv_poly1305_correct_witness:
  "let d1 = snd (drv_set_key chapoly_drv_portable_create (replicate 16 1) (replicate 32 2) (replicate 4 3));
       d2 = snd (drv_init d1 (replicate 8 4)); d3 = snd (drv_poly d2 (replicate 40 5) 2);
       block = chacha20_block (chacha20_matrix (replicate 16 1, replicate 32 2, replicate 4 3) (replicate 8 4) 0)
   in fst (snd (drv_finish d3)) = nat_le 16
        (poly_steps (clamp (le_nat (take 16 block))) 0 (replicate 40 5) (unat (2 :: u32))
         + le_nat (take 16 (drop 16 block)))"
  by (rule drv_poly1305_correct) simp_all

text \<open>The key of a ChaCha20-Poly1305 AEAD, as \<open>set_key\<close> splits it.\<close>

definition chapoly_key :: "chunk \<Rightarrow> chacha_key" where
  "chapoly_key key = (map of_char ''expand 32-byte k'', take 32 key, drop 32 key)"

lemma chapoly_set_key_keyed:
  assumes "portable_ready (chapoly_drv this)" and "length key = 36"
  shows "fst (chapoly_set_key portable_drv this key)"
    and "portable_keyed (chapoly_drv (snd (chapoly_set_key portable_drv this key))) (chapoly_key key)"
proof -
  have "key_ok (chapoly_key key)" using assms(2) by (simp add: key_ok_def chapoly_key_def)
  then obtain d' where "drv_set_key (chapoly_drv this) (map of_char ''expand 32-byte k'') (take 32 key) (drop 32 key)
      = (True, d')" "portable_keyed d' (chapoly_key key)"
    using portable_set_key [OF assms(1)] unfolding chapoly_key_def by blast
  then show "fst (chapoly_set_key portable_drv this key)"
    and "portable_keyed (chapoly_drv (snd (chapoly_set_key portable_drv this key))) (chapoly_key key)"
    using assms(2) by (simp_all add: chapoly_set_key_def portable_drv_def)
qed

text \<open>
  C6: Encryption with ChaCha20-Poly1305 is the standard's construction. For a keyed object with
  the portable driver and every message below 4 GiB, the result is the plain text combined with
  the key stream that starts at block one, followed by the Poly1305 tag over the padded
  associated data, the padded cipher text and both lengths; the object stays usable with the key.
\<close>

theorem chapoly_encrypt_correct:
  assumes "portable_ready (chapoly_drv this)" and "length key = 36" and "length iv = 8"
    and "length plain < 2 ^ 32" and "length assoc < 2 ^ 32"
  shows "let keyed = snd (chapoly_set_key portable_drv this key);
             (res, this') = chapoly_encrypt portable_drv uninit keyed plain assoc iv alloc
         in res = Some (chacha20_poly1305_seal (chapoly_key key) iv assoc plain)
            \<and> portable_keyed (chapoly_drv this') (chapoly_key key)"
  using portable.encrypt_seals [OF chapoly_set_key_keyed(2) [OF assms(1,2)] assms(3-5), of uninit alloc]
  by (auto simp: Let_def)

theorem chapoly_encrypt_correct_witness:
  "let keyed = snd (chapoly_set_key portable_drv
         \<lparr>chapoly_iv_gen = IV_GEN_NULL, chapoly_drv = chapoly_drv_portable_create\<rparr> (replicate 36 7));
       (res, this') = chapoly_encrypt portable_drv [] keyed (replicate 100 1) [1, 2, 3] (replicate 8 9) False
   in res = Some (chacha20_poly1305_seal (chapoly_key (replicate 36 7)) (replicate 8 9) [1, 2, 3] (replicate 100 1))
      \<and> portable_keyed (chapoly_drv this') (chapoly_key (replicate 36 7))"
  by (rule chapoly_encrypt_correct) (simp_all add: portable_create_ready)

text \<open>
  C5: Decryption accepts exactly what encryption produces: a cipher text below 4 GiB decrypts to
  \<open>p\<close> if and only if it is the sealed form of \<open>p\<close> under the same key, IV and associated data,
  and every other input, short ones included, is rejected.
\<close>

theorem chapoly_decrypt_exact:
  assumes "portable_ready (chapoly_drv this)" and "length key = 36" and "length iv = 8"
    and "length c < 2 ^ 32" and "length assoc < 2 ^ 32"
  shows "fst (chapoly_decrypt portable_drv uninit (snd (chapoly_set_key portable_drv this key)) c assoc iv alloc)
      = Some p \<longleftrightarrow> c = chacha20_poly1305_seal (chapoly_key key) iv assoc p"
  using portable.decrypt_opens [OF chapoly_set_key_keyed(2) [OF assms(1,2)] assms(3-5), of uninit alloc]
  by fastforce

theorem chapoly_decrypt_exact_witness:
  "fst (chapoly_decrypt portable_drv [] (snd (chapoly_set_key portable_drv
       \<lparr>chapoly_iv_gen = IV_GEN_NULL, chapoly_drv = chapoly_drv_portable_create\<rparr> (replicate 36 7)))
       (replicate 20 1) [] (replicate 8 9) False) = Some [1, 2, 3, 4]
    \<longleftrightarrow> replicate 20 1 = chacha20_poly1305_seal (chapoly_key (replicate 36 7)) (replicate 8 9) [] [1, 2, 3, 4]"
  by (rule chapoly_decrypt_exact) (simp_all add: portable_create_ready)

end
