(* ===== verification/Esp_Context.thy ===== *)
theory Esp_Context
  imports Chapoly_Aead
begin

unbundle bit_operations_syntax

text \<open>
  \<open>libipsec/esp_context.c\<close>: the cryptographic context of an ESP SA with its sequence
  numbers. An inbound context keeps the highest authenticated sequence number and a ring
  of window bits; \<open>verify_seqno\<close> is asked before a packet is decrypted,
  \<open>set_authenticated_seqno\<close> records it afterwards. The abstract specification is a
  highest number and the set of numbers seen; the locale \<open>replay_protection\<close> derives
  from it what a receiver relies on, and the ring buffer is shown to implement it.
\<close>

section \<open>The context and its window\<close>

record 'a esp_context =
  aead :: 'a
  last_seqno :: u32
  seqno_index :: u32
  window_size :: u32
  window :: chunk
  inbound :: bool

abbreviation CHAR_BIT :: u32 where "CHAR_BIT \<equiv> 8"

definition set_window_bit :: "'a esp_context \<Rightarrow> u32 \<Rightarrow> bool \<Rightarrow> 'a esp_context" where
  "set_window_bit this index on =
     (let i = unat (index div CHAR_BIT); b = window this ! i;
          m = push_bit (unat (index mod CHAR_BIT)) 1
      in this\<lparr>window := (window this)[i := (if on then b OR m else b AND NOT m)]\<rparr>)"

definition get_window_bit :: "'a esp_context \<Rightarrow> u32 \<Rightarrow> bool" where
  "get_window_bit this index =
     (let i = unat (index div CHAR_BIT)
      in window this ! i AND push_bit (unat (index mod CHAR_BIT)) 1 \<noteq> 0)"

definition check_window :: "'a esp_context \<Rightarrow> u32 \<Rightarrow> bool" where
  "check_window this seqno =
     (let offset = last_seqno this - seqno;
          offset = (seqno_index this - offset) mod window_size this
      in \<not> get_window_bit this offset)"

definition verify_seqno :: "'a esp_context \<Rightarrow> u32 \<Rightarrow> bool" where
  "verify_seqno this seqno =
     (if \<not> inbound this then False
      else if seqno > last_seqno this then True
      else if seqno > 0 \<and> window_size this > last_seqno this - seqno then check_window this seqno
      else False)"

text \<open>The loop of \<open>set_authenticated_seqno\<close> that advances and clears the ring.\<close>

fun shift_window :: "nat \<Rightarrow> 'a esp_context \<Rightarrow> 'a esp_context" where
  "shift_window 0 this = this"
| "shift_window (Suc n) this =
     (let this = this\<lparr>seqno_index := (seqno_index this + 1) mod window_size this\<rparr>
      in shift_window n (set_window_bit this (seqno_index this) False))"

definition set_authenticated_seqno :: "'a esp_context \<Rightarrow> u32 \<Rightarrow> 'a esp_context" where
  "set_authenticated_seqno this seqno =
     (if \<not> inbound this then this
      else if seqno > last_seqno this
      then let shift = seqno - last_seqno this;
               shift = (if shift < window_size this then shift else window_size this);
               this = shift_window (unat shift) this;
               this = set_window_bit this (seqno_index this) True
           in this\<lparr>last_seqno := seqno\<rparr>
      else let i = last_seqno this - seqno
           in set_window_bit this ((seqno_index this - i) mod window_size this) True)"

definition get_seqno :: "'a esp_context \<Rightarrow> u32" where
  "get_seqno this = last_seqno this"

definition next_seqno :: "'a esp_context \<Rightarrow> u32 option \<times> 'a esp_context" where
  "next_seqno this =
     (if inbound this \<or> last_seqno this = - 1 then (None, this)
      else let this = this\<lparr>last_seqno := last_seqno this + 1\<rparr>
           in (Some (last_seqno this), this))"

definition get_aead :: "'a esp_context \<Rightarrow> 'a" where
  "get_aead this = aead this"

section \<open>Construction\<close>

text \<open>
  The factory methods of the crypto library that \<open>esp_context_create\<close> calls; which plugin serves
  them is decided at run time.
\<close>

record ('r, 'c, 's, 'a) crypto_factory =
  create_rng :: "rng_quality_t \<Rightarrow> 'r option"
  create_crypter :: "encryption_algorithm_t \<Rightarrow> nat \<Rightarrow> 'c option"
  create_signer :: "u16 \<Rightarrow> 's option"
  create_aead_alg :: "encryption_algorithm_t \<Rightarrow> nat \<Rightarrow> nat \<Rightarrow> 'a option"

abbreviation (input) ESP_DEFAULT_WINDOW_SIZE :: u32 where "ESP_DEFAULT_WINDOW_SIZE \<equiv> 128"

text \<open>The salt is part of the key; the key length passed on is a \<open>size_t\<close>.\<close>

definition create_aead ::
  "('a, 'r) aead_t \<Rightarrow> ('r, 'c, 's, 'a) crypto_factory \<Rightarrow> encryption_algorithm_t \<Rightarrow> chunk \<Rightarrow> 'a option" where
  "create_aead A F alg key =
     (let slt = (if alg \<in> {ENCR_AES_GCM_ICV8, ENCR_AES_GCM_ICV12, ENCR_AES_GCM_ICV16, ENCR_CHACHA20_POLY1305} then 4
                 else if alg \<in> {ENCR_AES_CCM_ICV8, ENCR_AES_CCM_ICV12, ENCR_AES_CCM_ICV16,
                   ENCR_CAMELLIA_CCM_ICV8, ENCR_CAMELLIA_CCM_ICV12, ENCR_CAMELLIA_CCM_ICV16} then 3
                 else 0) :: nat
      in case (if slt \<noteq> 0 then create_aead_alg F alg (unat (of_nat (length key) - of_nat slt :: u64)) slt
               else None) of
           None \<Rightarrow> None
         | Some a \<Rightarrow> case a_set_key A a key of (False, _) \<Rightarrow> None | (True, a) \<Rightarrow> Some a)"

definition create_traditional ::
  "'c crypter_t \<Rightarrow> 's signer_t \<Rightarrow> 'r rng_t \<Rightarrow> ('r, 'c, 's, 'a) crypto_factory \<Rightarrow> encryption_algorithm_t \<Rightarrow> chunk
    \<Rightarrow> u16 \<Rightarrow> chunk \<Rightarrow> ('c, 's, 'r) private_aead option" where
  "create_traditional C S R F enc_alg enc_key int_alg int_key =
     (case (if enc_alg \<in> {ENCR_AES_CTR, ENCR_CAMELLIA_CTR}
            then create_crypter F enc_alg (unat (of_nat (length enc_key) - 4 :: u64))
            else create_crypter F enc_alg (length enc_key)) of
        None \<Rightarrow> None
      | Some c \<Rightarrow> case c_set_key C c enc_key of (False, _) \<Rightarrow> None | (True, c) \<Rightarrow>
        case create_signer F int_alg of None \<Rightarrow> None | Some s \<Rightarrow>
        case s_set_key S s int_key of (False, _) \<Rightarrow> None | (True, s) \<Rightarrow>
        case iv_gen_create_for_alg R (create_rng F) enc_alg of None \<Rightarrow> None | Some ivg \<Rightarrow>
        Some (aead_create c s ivg))"

definition esp_context_create ::
  "('a, 'r) aead_t \<Rightarrow> 'c crypter_t \<Rightarrow> 's signer_t \<Rightarrow> 'r rng_t \<Rightarrow> ('r, 'c, 's, 'a) crypto_factory
    \<Rightarrow> encryption_algorithm_t \<Rightarrow> chunk \<Rightarrow> u16 \<Rightarrow> chunk \<Rightarrow> bool
    \<Rightarrow> ('a, ('c, 's, 'r) private_aead) aead_obj esp_context option" where
  "esp_context_create A C S R F enc_alg enc_key int_alg int_key inb =
     (case (if encryption_algorithm_is_aead enc_alg
            then map_option Plugin (create_aead A F enc_alg enc_key)
            else map_option Wrapper (create_traditional C S R F enc_alg enc_key int_alg int_key)) of
        None \<Rightarrow> None
      | Some a \<Rightarrow> Some
          \<lparr>aead = a, last_seqno = 0, seqno_index = 0, window_size = ESP_DEFAULT_WINDOW_SIZE,
           window = (if inb then replicate (unat (ESP_DEFAULT_WINDOW_SIZE div CHAR_BIT + 1)) 0 else chunk_empty),
           inbound = inb\<rparr>)"

section \<open>Abstract anti-replay protection\<close>

record replay =
  highest :: nat
  seen :: "nat set"

definition replay_init :: replay where
  "replay_init = \<lparr>highest = 0, seen = {}\<rparr>"

definition replay_accepts :: "nat \<Rightarrow> replay \<Rightarrow> nat \<Rightarrow> bool" where
  "replay_accepts W s q \<longleftrightarrow>
     highest s < q \<or> (0 < q \<and> highest s - q < W \<and> q \<notin> seen s)"

definition replay_record :: "replay \<Rightarrow> nat \<Rightarrow> replay" where
  "replay_record s q = \<lparr>highest = max (highest s) q, seen = insert q (seen s)\<rparr>"

text \<open>
  A receiver offers each arriving number to \<open>verify\<close> and records those it accepts (every
  accepted packet here is one that also authenticates). The result lists the accepted
  numbers in order of arrival.
\<close>

fun replay_run :: "('c \<Rightarrow> u32 \<Rightarrow> bool) \<Rightarrow> ('c \<Rightarrow> u32 \<Rightarrow> 'c) \<Rightarrow> 'c \<Rightarrow> u32 list \<Rightarrow> u32 list \<times> 'c" where
  "replay_run verify record_seqno c [] = ([], c)"
| "replay_run verify record_seqno c (q # qs) =
     (if verify c q then apfst ((#) q) (replay_run verify record_seqno (record_seqno c q) qs)
      else replay_run verify record_seqno c qs)"

locale replay_protection =
  fixes verify :: "'c \<Rightarrow> u32 \<Rightarrow> bool" and record_seqno :: "'c \<Rightarrow> u32 \<Rightarrow> 'c"
    and implements :: "'c \<Rightarrow> replay \<Rightarrow> bool" and W :: nat
  assumes verify_iff: "implements c s \<Longrightarrow> verify c q \<longleftrightarrow> replay_accepts W s (unat q)"
    and record_implements: "implements c s \<Longrightarrow> verify c q \<Longrightarrow>
      implements (record_seqno c q) (replay_record s (unat q))"
    and seen_below: "implements c s \<Longrightarrow> seen s \<subseteq> {0<..highest s}"
begin

text \<open>What a run accepts is recorded, and nothing recorded before is accepted.\<close>

lemma run_implements:
  assumes "implements c s"
  shows "implements (snd (replay_run verify record_seqno c qs))
    (fold (\<lambda>q s. replay_record s (unat q)) (fst (replay_run verify record_seqno c qs)) s)"
  using assms by (induction qs arbitrary: c s) (auto simp: record_implements)

lemma run_fresh:
  assumes "implements c s"
  shows "distinct (fst (replay_run verify record_seqno c qs))
    \<and> unat ` set (fst (replay_run verify record_seqno c qs)) \<inter> seen s = {}"
  using assms
proof (induction qs arbitrary: c s)
  case Nil
  then show ?case by simp
next
  case (Cons q qs)
  show ?case
  proof (cases "verify c q")
    case False
    then show ?thesis using Cons by simp
  next
    case True
    let ?r = "fst (replay_run verify record_seqno (record_seqno c q) qs)"
    have IH: "distinct ?r \<and> unat ` set ?r \<inter> seen (replay_record s (unat q)) = {}"
      using Cons record_implements True by blast
    have "unat q \<notin> seen s"
      using True Cons.prems verify_iff seen_below [of c s] by (fastforce simp: replay_accepts_def)
    moreover have "q \<notin> set ?r"
      using IH by (auto simp: replay_record_def)
    ultimately show ?thesis
      using True IH by (auto simp: replay_record_def)
  qed
qed

lemma fold_record:
  "highest (fold (\<lambda>q s. replay_record s (unat q)) qs s) = Max (insert (highest s) (unat ` set qs))"
  "seen (fold (\<lambda>q s. replay_record s (unat q)) qs s) = seen s \<union> unat ` set qs"
proof (induction qs arbitrary: s)
  case (Cons q qs)
  { case 1
    have "Max (insert (max (highest s) (unat q)) (unat ` set qs))
        = Max (insert (highest s) (insert (unat q) (unat ` set qs)))"
      by (cases "set qs = {}") (simp_all add: ac_simps)
    then show ?case using Cons.IH(1) by (simp add: replay_record_def)
  next
    case 2
    then show ?case using Cons.IH(2) by (auto simp: replay_record_def) }
qed simp_all

end

section \<open>The ring buffer implements it\<close>

definition ring_wf :: "'a esp_context \<Rightarrow> bool" where
  "ring_wf this \<longleftrightarrow> inbound this \<and> 0 < window_size this \<and> unat (window_size this) dvd 2 ^ 32
     \<and> seqno_index this < window_size this \<and> unat (window_size this) \<le> 8 * length (window this)"

text \<open>The bit \<open>d\<close> places behind the newest one.\<close>

definition ring_bit :: "'a esp_context \<Rightarrow> nat \<Rightarrow> bool" where
  "ring_bit this d = get_window_bit this ((seqno_index this - of_nat d) mod window_size this)"

definition implements_replay :: "'a esp_context \<Rightarrow> replay \<Rightarrow> bool" where
  "implements_replay this s \<longleftrightarrow> ring_wf this \<and> unat (last_seqno this) = highest s
     \<and> seen s \<subseteq> {0<..highest s}
     \<and> (\<forall>d < unat (window_size this). ring_bit this d \<longleftrightarrow> d < highest s \<and> highest s - d \<in> seen s)"

lemma unat_div_mod_8: "unat (i div CHAR_BIT) = unat i div 8" "unat (i mod CHAR_BIT) = unat i mod 8"
  by (simp_all add: unat_div_distrib unat_mod_distrib)

lemma get_window_bit_alt: "get_window_bit this i = bit (window this ! (unat i div 8)) (unat i mod 8)"
  by (simp add: get_window_bit_def unat_div_mod_8 bit_iff_and_push_bit_not_eq_0)

lemma get_set_window_bit:
  assumes "unat i < 8 * length (window this)"
  shows "get_window_bit (set_window_bit this i v) j = (if i = j then v else get_window_bit this j)"
proof -
  have i: "unat i div 8 < length (window this)" using assms by linarith
  have eq: "i = j \<longleftrightarrow> unat i div 8 = unat j div 8 \<and> unat i mod 8 = unat j mod 8"
    by (metis div_mult_mod_eq word_unat_eq_iff)
  show ?thesis
    using i by (auto simp: get_window_bit_alt set_window_bit_def unat_div_mod_8 nth_list_update
        bit_or_iff bit_and_iff bit_not_iff bit_exp_iff Let_def eq split: if_splits)
qed

lemma set_window_bit_fields [simp]:
  "last_seqno (set_window_bit this i v) = last_seqno this"
  "seqno_index (set_window_bit this i v) = seqno_index this"
  "window_size (set_window_bit this i v) = window_size this"
  "inbound (set_window_bit this i v) = inbound this"
  "length (window (set_window_bit this i v)) = length (window this)"
  by (simp_all add: set_window_bit_def Let_def)

text \<open>Word arithmetic on ring positions agrees with the integers modulo the window size.\<close>

lemma uint_ring:
  fixes a b w :: u32
  assumes "unat w dvd 2 ^ 32"
  shows "uint ((a - b) mod w) = (uint a - uint b) mod uint w"
    and "uint ((a + b) mod w) = (uint a + uint b) mod uint w"
proof -
  have "int (unat w) dvd int (2 ^ 32)" using assms by (simp only: of_nat_dvd_iff)
  then have "uint w dvd 2 ^ 32" by simp
  then show "uint ((a - b) mod w) = (uint a - uint b) mod uint w"
    and "uint ((a + b) mod w) = (uint a + uint b) mod uint w"
    by (simp_all add: uint_mod_distrib uint_word_ariths mod_mod_cancel)
qed

lemma ring_bit_pos:
  assumes "ring_wf this" and "d < unat (window_size this)"
  shows "uint ((seqno_index this - of_nat d) mod window_size this)
    = (uint (seqno_index this) - int d) mod uint (window_size this)"
proof -
  have "d < 2 ^ 32" using less_trans [OF assms(2) unat_lt_pow256(3)] by simp
  then have "uint (of_nat d :: u32) = int d"
    by (simp add: unsigned_of_nat take_bit_nat_eq_self)
  then show ?thesis
    using uint_ring(1) [of "window_size this"] assms(1) by (simp add: ring_wf_def)
qed

text \<open>Every position the code touches is inside the window buffer.\<close>

lemma ring_mod_in_window:
  assumes "ring_wf this"
  shows "unat (x mod window_size this) < 8 * length (window this)"
proof -
  have "unat (x mod window_size this) < unat (window_size this)"
    using assms by (simp add: ring_wf_def unat_mod_distrib word_less_nat_alt)
  then show ?thesis using assms by (simp add: ring_wf_def)
qed

lemma ring_wf_set_bit [simp]: "ring_wf (set_window_bit this i v) = ring_wf this"
  by (simp add: ring_wf_def)

lemma ring_bit_set:
  assumes "ring_wf this" and "d < unat (window_size this)" and "e < unat (window_size this)"
  shows "ring_bit (set_window_bit this ((seqno_index this - of_nat d) mod window_size this) v) e
    = (if d = e then v else ring_bit this e)"
proof -
  let ?W = "uint (window_size this)" and ?i = "uint (seqno_index this)"
  have "(seqno_index this - of_nat d) mod window_size this
      = (seqno_index this - of_nat e) mod window_size this
    \<longleftrightarrow> (?i - int d) mod ?W = (?i - int e) mod ?W"
    using ring_bit_pos [OF assms(1)] assms(2,3) by (metis word_uint_eq_iff)
  also have "\<dots> \<longleftrightarrow> int d mod ?W = int e mod ?W"
    by (simp add: mod_eq_dvd_iff dvd_diff_commute)
  also have "\<dots> \<longleftrightarrow> d = e"
  proof -
    have "int d < int (unat (window_size this))" "int e < int (unat (window_size this))"
      using assms(2,3) by (simp_all only: of_nat_less_iff)
    then show ?thesis by simp
  qed
  finally show ?thesis
    using get_set_window_bit [OF ring_mod_in_window [OF assms(1)]] by (simp add: ring_bit_def)
qed

text \<open>One step of the loop moves every bit one place back and clears the newest.\<close>

lemma shift_step:
  assumes "ring_wf this"
  defines "this1 \<equiv> this\<lparr>seqno_index := (seqno_index this + 1) mod window_size this\<rparr>"
  defines "this2 \<equiv> set_window_bit this1 (seqno_index this1) False"
  shows "ring_wf this2"
    and "e < unat (window_size this) \<Longrightarrow> ring_bit this2 e = (e > 0 \<and> ring_bit this (e - 1))"
proof -
  let ?W = "uint (window_size this)"
  have pos: "0 < ?W" using assms(1) by (simp add: ring_wf_def word_less_def)
  have i1: "uint (seqno_index this1) = (uint (seqno_index this) + 1) mod ?W"
    using uint_ring(2) [of "window_size this" "seqno_index this" 1] assms(1)
    by (simp add: this1_def ring_wf_def)
  have lt1: "seqno_index this1 < window_size this"
    using i1 pos by (simp add: word_less_def)
  then have wf1: "ring_wf this1" using assms(1) by (simp add: ring_wf_def this1_def)
  then show wf2: "ring_wf this2" by (simp add: this2_def)
  have W0: "0 < unat (window_size this1)"
    using assms(1) by (simp add: this1_def ring_wf_def word_less_nat_alt)
  have self: "seqno_index this1 = (seqno_index this1 - of_nat 0) mod window_size this1"
    using lt1 by (simp add: this1_def mod_word_less)
  assume e: "e < unat (window_size this)"
  have "ring_bit this2 e = (if 0 = e then False else ring_bit this1 e)"
    using ring_bit_set [OF wf1 W0, of e False] e self
    by (simp add: this2_def this1_def)
  moreover have "ring_bit this1 e = ring_bit this (e - 1)" if "0 < e"
  proof -
    have "(uint (seqno_index this1) - int e) mod ?W = (uint (seqno_index this) + 1 - int e) mod ?W"
      unfolding i1 by (simp add: mod_diff_left_eq)
    also have "\<dots> = (uint (seqno_index this) - int (e - 1)) mod ?W"
      using that by (simp add: of_nat_diff algebra_simps)
    finally have "(seqno_index this1 - of_nat e) mod window_size this1
        = (seqno_index this - of_nat (e - 1)) mod window_size this"
      using ring_bit_pos [OF wf1, of e] ring_bit_pos [OF assms(1), of "e - 1"] e
      by (intro word_uint_eq_iff [THEN iffD2]) (simp add: this1_def)
    then show ?thesis
      by (simp add: ring_bit_def get_window_bit_def this1_def)
  qed
  ultimately show "ring_bit this2 e = (e > 0 \<and> ring_bit this (e - 1))" by auto
qed

lemma shift_window_fields [simp]:
  "last_seqno (shift_window n this) = last_seqno this"
  "window_size (shift_window n this) = window_size this"
  by (induction n arbitrary: this) (simp_all add: Let_def)

lemma shift_window_spec:
  assumes "ring_wf this"
  shows "ring_wf (shift_window n this)
    \<and> (\<forall>e < unat (window_size this). ring_bit (shift_window n this) e = (n \<le> e \<and> ring_bit this (e - n)))"
  using assms
proof (induction n arbitrary: this)
  case 0
  then show ?case by simp
next
  case (Suc n)
  let ?t1 = "this\<lparr>seqno_index := (seqno_index this + 1) mod window_size this\<rparr>"
  let ?t2 = "set_window_bit ?t1 (seqno_index ?t1) False"
  have t2: "ring_wf ?t2"
    and b: "\<And>e. e < unat (window_size this) \<Longrightarrow> ring_bit ?t2 e = (e > 0 \<and> ring_bit this (e - 1))"
    using shift_step [OF Suc.prems] by simp_all
  have "ring_bit (shift_window n ?t2) e = (Suc n \<le> e \<and> ring_bit this (e - Suc n))"
    if "e < unat (window_size this)" for e
    using Suc.IH [OF t2] that b [of "e - n"] by auto
  then show ?case
    using Suc.IH [OF t2] by (simp add: Let_def)
qed

section \<open>Refinement\<close>

lemma implements_verify:
  assumes "implements_replay this s"
  shows "verify_seqno this q \<longleftrightarrow> replay_accepts (unat (window_size this)) s (unat q)"
proof (cases "q > last_seqno this")
  case True
  then show ?thesis
    using assms
    by (auto simp: verify_seqno_def replay_accepts_def implements_replay_def ring_wf_def word_less_nat_alt)
next
  case False
  let ?d = "unat (last_seqno this) - unat q"
  have d: "unat (last_seqno this - q) = ?d" "last_seqno this - q = of_nat ?d"
    using False by (simp_all add: unat_sub word_le_nat_alt not_less of_nat_diff)
  have h: "unat (last_seqno this) = highest s" using assms by (simp add: implements_replay_def)
  have "check_window this q \<longleftrightarrow> unat q \<notin> seen s" if "0 < q" "?d < unat (window_size this)"
  proof -
    have q: "unat q \<le> highest s" "0 < unat q"
      using False that h by (simp_all add: word_le_nat_alt not_less word_less_nat_alt)
    have "check_window this q \<longleftrightarrow> \<not> ring_bit this ?d"
      using d(2) by (simp add: check_window_def ring_bit_def)
    also have "\<dots> \<longleftrightarrow> \<not> (?d < highest s \<and> highest s - ?d \<in> seen s)"
      using assms that(2) by (simp add: implements_replay_def)
    also have "\<dots> \<longleftrightarrow> unat q \<notin> seen s" using q h by simp
    finally show ?thesis .
  qed
  then show ?thesis
    using assms False d h
    by (auto simp: verify_seqno_def replay_accepts_def implements_replay_def ring_wf_def word_less_nat_alt)
qed

lemma implements_record_new:
  assumes "implements_replay this s" and "q > last_seqno this"
  shows "implements_replay (set_authenticated_seqno this q) (replay_record s (unat q))"
proof -
  let ?W = "unat (window_size this)" and ?h = "highest s"
  have wf: "ring_wf this" and h: "unat (last_seqno this) = ?h" and seen: "seen s \<subseteq> {0<..?h}"
    and bits: "\<And>d. d < ?W \<Longrightarrow> ring_bit this d \<longleftrightarrow> d < ?h \<and> ?h - d \<in> seen s"
    using assms(1) by (simp_all add: implements_replay_def)
  have lt: "?h < unat q" using assms(2) h by (simp add: word_less_nat_alt)
  define n where "n = unat (if q - last_seqno this < window_size this then q - last_seqno this
    else window_size this)"
  have "unat (q - last_seqno this) = unat q - ?h"
    using assms(2) h by (simp add: unat_sub)
  then have n: "n = min (unat q - ?h) ?W"
    by (auto simp: n_def word_less_nat_alt)
  let ?t = "shift_window n this"
  have t: "ring_wf ?t" "\<And>e. e < ?W \<Longrightarrow> ring_bit ?t e = (n \<le> e \<and> ring_bit this (e - n))"
    using shift_window_spec [OF wf, of n] by simp_all
  have W0: "0 < ?W" using wf by (simp add: ring_wf_def word_less_nat_alt)
  let ?u = "set_window_bit ?t (seqno_index ?t) True"
  have "seqno_index ?t < window_size ?t" using t(1) by (simp add: ring_wf_def)
  then have "seqno_index ?t = (seqno_index ?t - of_nat 0) mod window_size ?t"
    by (simp add: mod_word_less)
  then have u: "ring_bit ?u e = (e = 0 \<or> ring_bit ?t e)" if "e < ?W" for e
    using ring_bit_set [OF t(1), of 0 e True] that W0 by auto
  have eq: "set_authenticated_seqno this q = ?u\<lparr>last_seqno := q\<rparr>"
    using assms(2) wf by (simp add: set_authenticated_seqno_def Let_def n_def ring_wf_def)
  have "ring_bit (?u\<lparr>last_seqno := q\<rparr>) e \<longleftrightarrow> e < unat q \<and> unat q - e \<in> insert (unat q) (seen s)"
    if e: "e < ?W" for e
  proof -
    have "ring_bit (?u\<lparr>last_seqno := q\<rparr>) e = ring_bit ?u e"
      by (simp add: ring_bit_def get_window_bit_def)
    also have "\<dots> \<longleftrightarrow> e = 0 \<or> (n \<le> e \<and> e - n < ?h \<and> ?h - (e - n) \<in> seen s)"
      using u t(2) bits [of "e - n"] e by auto
    also have "\<dots> \<longleftrightarrow> e < unat q \<and> unat q - e \<in> insert (unat q) (seen s)"
    proof (cases "n \<le> e")
      case True
      then have "n = unat q - ?h" using e n by simp
      then have "unat q - e = ?h - (e - n)" "e - n < ?h \<longleftrightarrow> e < unat q" using True lt by linarith+
      then show ?thesis using True lt by auto
    next
      case False
      then have "e < unat q - ?h" using n by simp
      then show ?thesis using False seen lt by auto
    qed
    finally show ?thesis .
  qed
  moreover have "ring_wf (?u\<lparr>last_seqno := q\<rparr>)"
    using t(1) by (simp add: ring_wf_def)
  ultimately show ?thesis
    using seen lt by (auto simp: implements_replay_def eq replay_record_def max_def)
qed

lemma implements_record_old:
  assumes "implements_replay this s" and "\<not> q > last_seqno this" and "verify_seqno this q"
  shows "implements_replay (set_authenticated_seqno this q) (replay_record s (unat q))"
proof -
  let ?W = "unat (window_size this)" and ?h = "highest s" and ?d = "unat (last_seqno this) - unat q"
  have wf: "ring_wf this" and h: "unat (last_seqno this) = ?h" and seen: "seen s \<subseteq> {0<..?h}"
    and bits: "\<And>d. d < ?W \<Longrightarrow> ring_bit this d \<longleftrightarrow> d < ?h \<and> ?h - d \<in> seen s"
    using assms(1) by (simp_all add: implements_replay_def)
  have q: "unat q \<le> ?h" using assms(2) h by (simp add: word_le_nat_alt not_less)
  have acc: "0 < unat q" "?d < ?W"
    using assms(3) q h implements_verify [OF assms(1)] by (simp_all add: replay_accepts_def)
  have "last_seqno this - q = of_nat ?d"
    using assms(2) by (simp add: word_le_nat_alt not_less of_nat_diff)
  then have eq: "set_authenticated_seqno this q
      = set_window_bit this ((seqno_index this - of_nat ?d) mod window_size this) True"
    using assms(2) wf by (simp add: set_authenticated_seqno_def ring_wf_def)
  have "ring_bit (set_authenticated_seqno this q) e \<longleftrightarrow> e < ?h \<and> ?h - e \<in> insert (unat q) (seen s)"
    if "e < ?W" for e
  proof -
    have "ring_bit (set_authenticated_seqno this q) e \<longleftrightarrow> ?d = e \<or> ring_bit this e"
      unfolding eq using ring_bit_set [OF wf acc(2) that, of True] by simp
    then show ?thesis using bits [OF that] q acc(1) h by auto
  qed
  then show ?thesis
    using wf seen acc(1) q h by (auto simp: implements_replay_def replay_record_def eq)
qed

lemma window_size_set [simp]: "window_size (set_authenticated_seqno this q) = window_size this"
  by (simp add: set_authenticated_seqno_def Let_def)

interpretation ring: replay_protection verify_seqno set_authenticated_seqno
  "\<lambda>c s. window_size c = w \<and> implements_replay c s" "unat w" for w
proof
  fix c :: "'a esp_context" and s q
  assume c: "window_size c = w \<and> implements_replay c s"
  show "verify_seqno c q \<longleftrightarrow> replay_accepts (unat w) s (unat q)"
    using c implements_verify by blast
  show "seen s \<subseteq> {0<..highest s}" using c by (simp add: implements_replay_def)
  assume "verify_seqno c q"
  then show "window_size (set_authenticated_seqno c q) = w
      \<and> implements_replay (set_authenticated_seqno c q) (replay_record s (unat q))"
    using c implements_record_new implements_record_old by (cases "q > last_seqno c") auto
qed

lemma created_fields:
  assumes "esp_context_create A C S R F enc_alg enc_key int_alg int_key inb = Some c"
  shows "last_seqno c = 0" "window_size c = 128" "inbound c = inb" "seqno_index c = 0"
    "inb \<Longrightarrow> window c = replicate 17 0"
  using assms by (auto simp: esp_context_create_def split: option.splits)

lemma created_implements:
  assumes "esp_context_create A C S R F enc_alg enc_key int_alg int_key True = Some c"
  shows "window_size c = 128 \<and> implements_replay c replay_init"
proof -
  note f = created_fields [OF assms]
  have "\<not> get_window_bit c i" if "unat i < 128" for i
    using f(5) that by (simp add: get_window_bit_alt)
  moreover have "unat ((0 - of_nat d) mod 128 :: u32) < 128" for d by (simp add: unat_mod_distrib)
  ultimately have "\<not> ring_bit c d" for d using f by (simp add: ring_bit_def)
  moreover have "(128 :: nat) dvd 2 ^ 32" by simp
  ultimately show ?thesis
    using f by (simp add: implements_replay_def ring_wf_def replay_init_def)
qed

lemma seqno_run:
  assumes "esp_context_create A C S R F enc_alg enc_key int_alg int_key True = Some c"
    and "replay_run verify_seqno set_authenticated_seqno c qs = (acc, c')"
  shows "distinct acc" "implements_replay c' \<lparr>highest = Max (insert 0 (unat ` set acc)), seen = unat ` set acc\<rparr>"
    "window_size c' = 128"
proof -
  note i = created_implements [OF assms(1)]
  show "distinct acc" using ring.run_fresh [OF i, of qs] assms(2) by simp
  have "window_size c' = 128 \<and> implements_replay c' (fold (\<lambda>q s. replay_record s (unat q)) acc replay_init)"
    using ring.run_implements [OF i, of qs] assms(2) by simp
  moreover have "fold (\<lambda>q s. replay_record s (unat q)) acc replay_init
      = \<lparr>highest = Max (insert 0 (unat ` set acc)), seen = unat ` set acc\<rparr>"
    using ring.fold_record [of acc replay_init] by (simp add: replay_init_def)
  ultimately show "implements_replay c' \<lparr>highest = Max (insert 0 (unat ` set acc)), seen = unat ` set acc\<rparr>"
    "window_size c' = 128"
    by simp_all
qed

text \<open>Numbering outbound packets: the results of calling \<open>next_seqno\<close> repeatedly.\<close>

fun next_seqnos :: "nat \<Rightarrow> 'a esp_context \<Rightarrow> u32 option list" where
  "next_seqnos 0 this = []"
| "next_seqnos (Suc n) this = (case next_seqno this of (r, this) \<Rightarrow> r # next_seqnos n this)"

lemma next_seqnos_spec:
  assumes "\<not> inbound this"
  shows "next_seqnos n this = map (\<lambda>i. if unat (last_seqno this) + i < 2 ^ 32 - 1
    then Some (last_seqno this + of_nat i + 1) else None) [0..<n]"
  using assms
proof (induction n arbitrary: this)
  case (Suc n)
  let ?l = "last_seqno this"
  have map: "map f [0..<Suc n] = f 0 # map (\<lambda>i. f (Suc i)) [0..<n]" for f :: "nat \<Rightarrow> u32 option"
    by (simp only: upt_conv_Cons [OF zero_less_Suc] list.map map_Suc_upt [symmetric]) (simp add: comp_def)
  show ?case
  proof (cases "?l = - 1")
    case True
    then have "unat ?l = 2 ^ 32 - 1" by (simp add: unsigned_minus_1_eq_mask mask_eq_exp_minus_1)
    then show ?thesis unfolding map using True Suc by (simp add: next_seqno_def)
  next
    case False
    then have "?l + 1 \<noteq> 0" by (metis add.commute add_eq_0_iff2 minus_equation_iff)
    then have u: "unat (?l + 1) = unat ?l + 1" using unatSuc [of ?l] by (simp add: add.commute)
    have "unat ?l + 1 < 2 ^ 32" using unat_lt_pow256(3) [of "?l + 1"] unfolding u by simp
    then show ?thesis
      unfolding map using False Suc.prems Suc.IH [of "this\<lparr>last_seqno := ?l + 1\<rparr>"] u
      by (simp add: next_seqno_def Let_def algebra_simps)
  qed
qed simp

text \<open>
  A factory that offers the ChaCha20-Poly1305 plugin with the portable driver and nothing else;
  crypters and signers come from other plugins.
\<close>

definition chapoly_factory ::
  "'r rng_t \<Rightarrow> (rng_quality_t \<Rightarrow> 'r option) \<Rightarrow> ('r, 'c, 's, (chapoly_drv_portable, 'r) chapoly_aead) crypto_factory" where
  "chapoly_factory R rngs = \<lparr>create_rng = rngs, create_crypter = (\<lambda>_ _. None), create_signer = (\<lambda>_. None),
     create_aead_alg = (\<lambda>alg ks ss. chapoly_aead_create R rngs [None, Some chapoly_drv_portable_create] alg ks ss)\<rparr>"

definition constant_rng :: "unit rng_t" where
  "constant_rng = \<lparr>get_bytes = \<lambda>r n. (Some (replicate n 7), r), allocate_bytes = \<lambda>r n. (Some (replicate n 7), r)\<rparr>"

definition no_crypter :: "unit crypter_t" where
  "no_crypter = \<lparr>c_encrypt = \<lambda>c d iv. (None, c), c_decrypt = \<lambda>c d iv. (None, c), c_get_block_size = \<lambda>c. 1,
     c_get_iv_size = \<lambda>c. 0, c_get_key_size = \<lambda>c. 0, c_set_key = \<lambda>c k. (False, c)\<rparr>"

definition no_signer :: "unit signer_t" where
  "no_signer = \<lparr>s_get_signature = \<lambda>s d b. (None, s), s_allocate_signature = \<lambda>s d b. (None, s),
     s_verify_signature = \<lambda>s d g. (False, s), s_get_block_size = \<lambda>s. 0, s_get_key_size = \<lambda>s. 0,
     s_set_key = \<lambda>s k. (False, s)\<rparr>"

definition demo_context ::
  "chunk \<Rightarrow> bool \<Rightarrow> ((chapoly_drv_portable, unit) chapoly_aead, (unit, unit, unit) private_aead) aead_obj esp_context option" where
  "demo_context key inb = esp_context_create (chapoly_methods portable_drv []) no_crypter no_signer constant_rng
     (chapoly_factory constant_rng (\<lambda>q. Some ())) ENCR_CHACHA20_POLY1305 key 0 [] inb"

lemma demo_context_created:
  assumes "length key = 36"
  obtains c where "demo_context key inb = Some c"
proof -
  let ?a = "\<lparr>chapoly_iv_gen = IV_GEN_SEQ (iv_gen_seq_create constant_rng (\<lambda>q. Some ())),
    chapoly_drv = chapoly_drv_portable_create\<rparr> :: (chapoly_drv_portable, unit) chapoly_aead"
  have "fst (chapoly_set_key portable_drv ?a key)"
    using chapoly_set_key_keyed(1) [of ?a key] assms portable_create_ready by simp
  then obtain a' where "chapoly_set_key portable_drv ?a key = (True, a')"
    by (metis prod.collapse)
  moreover have "unat (of_nat 36 - of_nat 4 :: u64) = 32" by simp
  ultimately have "\<exists>c. demo_context key inb = Some c"
    using assms
    by (simp add: demo_context_def esp_context_create_def create_aead_def chapoly_factory_def
        encryption_algorithm_is_aead_def chapoly_aead_create_def chapoly_methods_def)
  then show ?thesis using that by blast
qed

section \<open>Properties\<close>

text \<open>
  C9: No replay gets through. Whatever sequence numbers arrive at a newly created inbound
  context, each checked with \<open>verify_seqno\<close> and, when accepted, recorded with
  \<open>set_authenticated_seqno\<close>, the accepted numbers are pairwise distinct and never zero.
\<close>

theorem esp_no_replay:
  assumes "esp_context_create A C S R F enc_alg enc_key int_alg int_key True = Some c"
  shows "distinct (fst (replay_run verify_seqno set_authenticated_seqno c qs))
    \<and> 0 \<notin> set (fst (replay_run verify_seqno set_authenticated_seqno c qs))"
proof -
  obtain acc c' where r: "replay_run verify_seqno set_authenticated_seqno c qs = (acc, c')"
    by (cases "replay_run verify_seqno set_authenticated_seqno c qs")
  note s = seqno_run [OF assms r]
  have "0 \<notin> set acc" using s(2) by (auto simp: implements_replay_def)
  then show ?thesis using s(1) r by simp
qed

text \<open>
  C10: The anti-replay window is exact. After any arrivals at a new inbound context, a number is
  accepted next if and only if it is above every accepted one, or positive, less than 128 below
  the highest accepted one, and not accepted before: nothing inside the window is lost when the
  ring buffer is shifted, wraps around or is cleared.
\<close>

theorem esp_window_exact:
  assumes "esp_context_create A C S R F enc_alg enc_key int_alg int_key True = Some c"
  shows "let (acc, c') = replay_run verify_seqno set_authenticated_seqno c qs;
             top = Max (insert 0 (unat ` set acc))
         in verify_seqno c' q \<longleftrightarrow> top < unat q \<or> (0 < q \<and> top - unat q < 128 \<and> q \<notin> set acc)"
proof -
  obtain acc c' where r: "replay_run verify_seqno set_authenticated_seqno c qs = (acc, c')"
    by (cases "replay_run verify_seqno set_authenticated_seqno c qs")
  note s = seqno_run [OF assms r]
  have "unat q \<in> unat ` set acc \<longleftrightarrow> q \<in> set acc"
    by (auto dest: word_unat_eq_iff [THEN iffD2])
  then show ?thesis
    using implements_verify [OF s(2), of q] s(3) by (simp add: r replay_accepts_def Let_def word_less_nat_alt)
qed

theorem esp_no_replay_witness:
  "\<exists>c. demo_context (replicate 36 7) True = Some c
    \<and> distinct (fst (replay_run verify_seqno set_authenticated_seqno c [1, 2, 2, 500, 400, 1, 500]))
    \<and> 0 \<notin> set (fst (replay_run verify_seqno set_authenticated_seqno c [1, 2, 2, 500, 400, 1, 500]))"
proof -
  obtain c where c: "demo_context (replicate 36 7) True = Some c"
    by (rule demo_context_created [of "replicate 36 7" True]) simp
  show ?thesis
    by (intro exI [of _ c] conjI [OF c]) (rule esp_no_replay [OF c [unfolded demo_context_def]])
qed

theorem esp_window_exact_witness:
  "\<exists>c. demo_context (replicate 36 7) True = Some c
    \<and> (let (acc, c') = replay_run verify_seqno set_authenticated_seqno c [1, 2, 500];
           top = Max (insert 0 (unat ` set acc))
       in verify_seqno c' 400 \<longleftrightarrow> top < unat (400 :: u32) \<or> (0 < (400 :: u32) \<and> top - unat (400 :: u32) < 128 \<and> 400 \<notin> set acc))"
proof -
  obtain c where c: "demo_context (replicate 36 7) True = Some c"
    by (rule demo_context_created [of "replicate 36 7" True]) simp
  show ?thesis
    by (intro exI [of _ c] conjI [OF c]) (rule esp_window_exact [OF c [unfolded demo_context_def]])
qed

text \<open>
  C29: Outbound sequence numbers start at one, increase by one and never wrap: the first
  \<open>2\<^sup>3\<^sup>2 - 1\<close> calls of \<open>next_seqno\<close> on a new outbound context return 1, 2, 3 and so on, and
  every later call fails.
\<close>

theorem esp_next_seqno_sequence:
  assumes "esp_context_create A C S R F enc_alg enc_key int_alg int_key False = Some c"
  shows "next_seqnos n c = map (\<lambda>i. if i < 2 ^ 32 - 1 then Some (of_nat (i + 1)) else None) [0..<n]"
  using next_seqnos_spec [of c n] created_fields [OF assms] by (simp add: algebra_simps)

theorem esp_next_seqno_sequence_witness:
  "\<exists>c. demo_context (replicate 36 7) False = Some c
    \<and> next_seqnos 3 c = map (\<lambda>i. if i < 2 ^ 32 - 1 then Some (of_nat (i + 1)) else None) [0..<3]"
proof -
  obtain c where c: "demo_context (replicate 36 7) False = Some c"
    by (rule demo_context_created [of "replicate 36 7" False]) simp
  show ?thesis
    by (intro exI [of _ c] conjI [OF c]) (rule esp_next_seqno_sequence [OF c [unfolded demo_context_def]])
qed

end
