(* ===== verification/Esp_Packet.thy ===== *)
theory Esp_Packet
  imports Bio Packet Ip_Packet Esp_Context
begin

unbundle bit_operations_syntax

text \<open>
  \<open>libipsec/esp_packet.c\<close>: ESP encapsulation. \<open>encrypt\<close> writes SPI, sequence number, IV, payload,
  padding and trailer into one buffer and seals it in place; \<open>decrypt\<close> takes such a packet apart
  again. Both run on an ESP context and any AEAD behind the interface; the lemmas rest on the
  contract of the AEAD only and are applied to ChaCha20-Poly1305 at the end.
\<close>

abbreviation (input) IPPROTO_IPIP :: u8 where "IPPROTO_IPIP \<equiv> 4"
abbreviation (input) IPPROTO_IPV6 :: u8 where "IPPROTO_IPV6 \<equiv> 41"
abbreviation (input) IPPROTO_NONE :: u8 where "IPPROTO_NONE \<equiv> 59"

record esp_packet =
  ep_packet :: packet
  ep_payload :: "ip_packet option"
  ep_next_header :: u8

section \<open>Construction and parsing of the header\<close>

definition esp_packet_create_internal :: "packet \<Rightarrow> esp_packet" where
  "esp_packet_create_internal packet =
     \<lparr>ep_packet = packet, ep_payload = None, ep_next_header = IPPROTO_NONE\<rparr>"

definition esp_packet_create_from_packet :: "packet \<Rightarrow> esp_packet" where
  "esp_packet_create_from_packet packet = esp_packet_create_internal packet"

definition esp_packet_create_from_payload :: "host \<Rightarrow> host \<Rightarrow> ip_packet option \<Rightarrow> esp_packet" where
  "esp_packet_create_from_payload src dst payload =
     (let packet = packet_create_from_data (Some src) (Some dst) chunk_empty;
          this = (esp_packet_create_internal packet)\<lparr>ep_payload := payload\<rparr>
      in case payload of
           Some p \<Rightarrow> this\<lparr>ep_next_header := (if ip_version p = 4 then IPPROTO_IPIP else IPPROTO_IPV6)\<rparr>
         | None \<Rightarrow> this\<lparr>ep_next_header := IPPROTO_NONE\<rparr>)"

definition esp_packet_clone :: "esp_packet \<Rightarrow> esp_packet" where
  "esp_packet_clone this =
     (esp_packet_create_internal (packet_clone (ep_packet this)))
       \<lparr>ep_payload := (case ep_payload this of Some p \<Rightarrow> ip_packet_clone p | None \<Rightarrow> None),
        ep_next_header := ep_next_header this\<rparr>"

definition extract_payload :: "esp_packet \<Rightarrow> ip_packet option \<times> esp_packet" where
  "extract_payload this = (ep_payload this, this\<lparr>ep_payload := None\<rparr>)"

text \<open>The SPI is returned in network order.\<close>

definition parse_header :: "esp_packet \<Rightarrow> u32 option" where
  "parse_header this =
     (case read_uint32 (bio_reader_create (get_data (ep_packet this))) of
        (None, _) \<Rightarrow> None
      | (Some spi, reader) \<Rightarrow>
          (case read_uint32 reader of (None, _) \<Rightarrow> None | (Some seq, _) \<Rightarrow> Some (htonl spi)))"

section \<open>Decryption\<close>

text \<open>The loop over the padding, at index \<open>i\<close>.\<close>

fun check_padding_from :: "nat \<Rightarrow> chunk \<Rightarrow> bool" where
  "check_padding_from i [] = True"
| "check_padding_from i (b # padding) =
     (if b \<noteq> of_nat (i + 1) then False else check_padding_from (i + 1) padding)"

definition check_padding :: "chunk \<Rightarrow> bool" where
  "check_padding padding = check_padding_from 0 padding"

definition remove_padding :: "esp_packet \<Rightarrow> chunk \<Rightarrow> bool \<times> esp_packet" where
  "remove_padding this plaintext =
     (case read_uint8_end (bio_reader_create plaintext) of
        (None, _) \<Rightarrow> (False, this)
      | (Some next_header, reader) \<Rightarrow>
          (case read_uint8_end reader of
            (None, _) \<Rightarrow> (False, this)
          | (Some pad_length, reader) \<Rightarrow>
              (case read_data_end reader (ucast pad_length) of
                (None, _) \<Rightarrow> (False, this)
              | (Some padding, reader) \<Rightarrow>
                  if \<not> check_padding padding then (False, this)
                  else let this = this\<lparr>ep_payload := ip_packet_create (peek reader)\<rparr>
                       in if ep_payload this = None then (False, this)
                          else (True, this\<lparr>ep_next_header := next_header\<rparr>))))"

text \<open>
  The fields of a received packet: SPI, sequence number, IV, cipher text and ICV, or nothing when
  the length is invalid.
\<close>

definition split_packet :: "('a, 'r) aead_t \<Rightarrow> 'a \<Rightarrow> chunk \<Rightarrow> (u32 \<times> u32 \<times> chunk \<times> chunk \<times> chunk) option" where
  "split_packet A a data =
     (case read_uint32 (bio_reader_create data) of (None, _) \<Rightarrow> None | (Some spi, reader) \<Rightarrow>
      (case read_uint32 reader of (None, _) \<Rightarrow> None | (Some seq, reader) \<Rightarrow>
      (case read_data reader (of_nat (a_get_iv_size A a)) of (None, _) \<Rightarrow> None | (Some iv, reader) \<Rightarrow>
      (case read_data_end reader (of_nat (a_get_icv_size A a)) of (None, _) \<Rightarrow> None | (Some icv, reader) \<Rightarrow>
      if unat (remaining reader) mod a_get_block_size A a \<noteq> 0 then None
      else Some (spi, seq, iv, peek reader, icv)))))"

text \<open>
  The cipher text chunk is extended by the length of the ICV, which follows it in the received
  data. But when the cipher text is empty the reader has no buffer left: \<open>peek\<close> returns a chunk
  at the \<open>NULL\<close> pointer, and the AEAD is handed \<open>icv.len\<close> bytes at that address. The result
  \<open>None\<close> is this access through \<open>NULL\<close>.
\<close>

definition esp_decrypt ::
  "('a, 'r) aead_t \<Rightarrow> esp_packet \<Rightarrow> 'a esp_context \<Rightarrow> (status_t \<times> esp_packet \<times> 'a esp_context) option" where
  "esp_decrypt A this ctx =
     (let this = this\<lparr>ep_payload := None\<rparr>;
          data = get_data (ep_packet this);
          a = get_aead ctx
      in case split_packet A a data of
           None \<Rightarrow> Some (PARSE_ERROR, this, ctx)
         | Some (spi, seq, iv, ciphertext, icv) \<Rightarrow>
             if \<not> verify_seqno ctx seq then Some (VERIFY_ERROR, this, ctx)
             else if ciphertext = [] \<and> icv \<noteq> [] then None
             else (case a_decrypt A a (ciphertext @ icv) (take 8 data) iv True of
                    (None, a) \<Rightarrow> Some (FAILED, this, ctx\<lparr>aead := a\<rparr>)
                  | (Some plaintext, a) \<Rightarrow>
                      let ctx = set_authenticated_seqno (ctx\<lparr>aead := a\<rparr>) seq
                      in (case remove_padding this plaintext of
                           (False, this) \<Rightarrow> Some (PARSE_ERROR, this, ctx)
                         | (True, this) \<Rightarrow> Some (SUCCESS, this, ctx))))"

section \<open>Encryption\<close>

definition generate_padding :: "nat \<Rightarrow> chunk" where
  "generate_padding n = map (\<lambda>i. of_nat (i + 1)) [0..<n]"

text \<open>A store through a pointer into the buffer of a writer.\<close>

definition store_at :: "bio_writer \<Rightarrow> nat \<Rightarrow> chunk \<Rightarrow> bio_writer" where
  "store_at w pos d = w\<lparr>w_buf := memcpy_at (w_buf w) pos d\<rparr>"

text \<open>The length of the padding: up to the block size, with the ICV on a 4 byte boundary.\<close>

definition esp_padding_len :: "nat \<Rightarrow> nat \<Rightarrow> nat \<Rightarrow> nat" where
  "esp_padding_len plainlen ivlen blocksize =
     (let padding = pad_len plainlen blocksize
      in padding + pad_len (ivlen + plainlen + padding) 4)"

text \<open>The writer after SPI, sequence number and the room for the IV, with the position of that room.\<close>

definition write_esp_header :: "(nat \<Rightarrow> u8) \<Rightarrow> nat \<Rightarrow> u32 \<Rightarrow> u32 \<Rightarrow> nat \<Rightarrow> (nat \<times> nat) \<times> bio_writer" where
  "write_esp_header uninit len spi seqno ivlen =
     (let writer = bio_writer_create uninit (of_nat len);
          writer = write_uint32 writer (ntohl spi);
          writer = write_uint32 writer seqno
      in skip writer ivlen)"

text \<open>Payload, padding, pad length and next header behind the IV.\<close>

definition write_esp_plain :: "bio_writer \<Rightarrow> chunk \<Rightarrow> nat \<Rightarrow> u8 \<Rightarrow> bio_writer" where
  "write_esp_plain writer payload padding next_header =
     (let writer = write_data writer payload;
          (pad, writer) = skip writer padding;
          writer = store_at writer (fst pad) (generate_padding padding);
          writer = write_uint8 writer (of_nat padding)
      in write_uint8 writer next_header)"

definition esp_encrypt ::
  "('a, 'r) aead_t \<Rightarrow> 'r rng_t \<Rightarrow> (nat \<Rightarrow> u8) \<Rightarrow> esp_packet \<Rightarrow> 'a esp_context \<Rightarrow> u32
    \<Rightarrow> status_t \<times> esp_packet \<times> 'a esp_context" where
  "esp_encrypt A R uninit this ctx spi =
     (let this = this\<lparr>ep_packet := set_data (ep_packet this) chunk_empty\<rparr>
      in case next_seqno ctx of
        (None, ctx) \<Rightarrow> (FAILED, this, ctx)
      | (Some seqno, ctx) \<Rightarrow>
         let a = get_aead ctx
         in (case a_get_iv_gen A a of
           None \<Rightarrow> (NOT_FOUND, this, ctx)
         | Some ivg \<Rightarrow>
            let blocksize = a_get_block_size A a; ivlen = a_get_iv_size A a; icvlen = a_get_icv_size A a;
                payload = (case ep_payload this of Some p \<Rightarrow> ip_packet p | None \<Rightarrow> chunk_empty);
                plainlen = length payload + 2;
                padding = esp_padding_len plainlen ivlen blocksize;
                plainlen = plainlen + padding;
                (ivpos, writer) = write_esp_header uninit (8 + ivlen + plainlen + icvlen) spi seqno ivlen
            in (case get_iv R ivg (ucast seqno) ivlen of
              (None, ivg) \<Rightarrow> (FAILED, this, ctx\<lparr>aead := a_put_iv_gen A a ivg\<rparr>)
            | (Some iv, ivg) \<Rightarrow>
               let a = a_put_iv_gen A a ivg;
                   writer = store_at writer (fst ivpos) iv;
                   cpos = length (get_buf writer);
                   writer = write_esp_plain writer payload padding (ep_next_header this);
                   aad = take 8 (get_buf writer);
                   writer = snd (skip writer icvlen);
                   plain = take plainlen (drop cpos (get_buf writer))
               in (case a_encrypt A a plain aad iv False of
                 (None, a) \<Rightarrow> (FAILED, this, ctx\<lparr>aead := a\<rparr>)
               | (Some encr, a) \<Rightarrow>
                   (SUCCESS, this\<lparr>ep_packet := set_data (ep_packet this) (fst (extract_buf (store_at writer cpos encr)))\<rparr>,
                    ctx\<lparr>aead := a\<rparr>)))))"

section \<open>Reading from either end\<close>

lemma read_uint8_end_snoc:
  "read_uint8_end \<lparr>r_buf = xs @ [b], r_cleanup = c\<rparr> = (Some b, \<lparr>r_buf = xs, r_cleanup = c\<rparr>)"
  by (simp add: read_uint8_end_def read_uint8_internal_def get_ptr_end_def chunk_skip_end_def)

lemma read_data_end_append:
  assumes "unat len = length ys"
  shows "read_data_end \<lparr>r_buf = xs @ ys, r_cleanup = c\<rparr> len = (Some ys, \<lparr>r_buf = xs, r_cleanup = c\<rparr>)"
  using assms by (simp add: read_data_end_def read_data_internal_def get_ptr_end_def chunk_skip_end_def)

lemma read_data_end_short: "length xs < unat len \<Longrightarrow> read_data_end \<lparr>r_buf = xs, r_cleanup = c\<rparr> len = (None, \<lparr>r_buf = xs, r_cleanup = c\<rparr>)"
  by (simp add: read_data_end_def read_data_internal_def)

lemma read_data_append:
  assumes "unat len = length xs"
  shows "read_data \<lparr>r_buf = xs @ ys, r_cleanup = c\<rparr> len = (Some xs, \<lparr>r_buf = ys, r_cleanup = c\<rparr>)"
  using assms by (simp add: read_data_def read_data_internal_def get_ptr_end_def chunk_skip_end_def)

lemma read_data_short: "length xs < unat len \<Longrightarrow> read_data \<lparr>r_buf = xs, r_cleanup = c\<rparr> len = (None, \<lparr>r_buf = xs, r_cleanup = c\<rparr>)"
  by (simp add: read_data_def read_data_internal_def)

lemma read_uint32_buf:
  "read_uint32 \<lparr>r_buf = xs, r_cleanup = c\<rparr> =
    (if length xs < 4 then (None, \<lparr>r_buf = xs, r_cleanup = c\<rparr>)
     else (Some (untoh32 xs), \<lparr>r_buf = drop 4 xs, r_cleanup = c\<rparr>))"
  by (simp add: read_uint32_def read_uint32_internal_def get_ptr_end_def chunk_skip_end_def)

text \<open>The layout of a received packet.\<close>

lemma split_packet_spec:
  assumes "a_get_iv_size A a = ivs" and "a_get_icv_size A a = icvs" and "a_get_block_size A a = bs"
    and "ivs < 2 ^ 32" and "icvs < 2 ^ 32" and "length data < 2 ^ 32"
  shows "split_packet A a data =
    (if 8 + ivs + icvs \<le> length data \<and> (length data - (8 + ivs + icvs)) mod bs = 0
     then Some (untoh32 data, untoh32 (drop 4 data), take ivs (drop 8 data),
       take (length data - (8 + ivs + icvs)) (drop (8 + ivs) data), drop (length data - icvs) data)
     else None)"
proof -
  have u: "unat (of_nat ivs :: u32) = ivs" "unat (of_nat icvs :: u32) = icvs"
    "\<And>n. n \<le> length data \<Longrightarrow> unat (of_nat n :: u32) = n"
    using assms(4-6) by (simp_all add: unat_of_nat)
  consider (short) "length data < 8 + ivs" | (noicv) "8 + ivs \<le> length data" "length data < 8 + ivs + icvs"
    | (full) "8 + ivs + icvs \<le> length data" by linarith
  then show ?thesis
  proof cases
    case short
    then show ?thesis
      by (auto simp: split_packet_def bio_reader_create_def read_uint32_buf assms(1) u(1) read_data_short)
  next
    case noicv
    have "drop 8 data = take ivs (drop 8 data) @ drop (8 + ivs) data"
      by (metis append_take_drop_id drop_drop add.commute)
    then have "read_data \<lparr>r_buf = drop 8 data, r_cleanup = []\<rparr> (of_nat ivs)
        = (Some (take ivs (drop 8 data)), \<lparr>r_buf = drop (8 + ivs) data, r_cleanup = []\<rparr>)"
      using read_data_append [of "of_nat ivs" "take ivs (drop 8 data)" "drop (8 + ivs) data"] noicv u(1) by simp
    then show ?thesis
      using noicv
      by (simp add: split_packet_def bio_reader_create_def read_uint32_buf assms(1,2) read_data_end_short u(2))
  next
    case full
    let ?m = "length data - (8 + ivs + icvs)"
    have "drop 8 data = take ivs (drop 8 data) @ drop (8 + ivs) data"
      by (metis append_take_drop_id drop_drop add.commute)
    then have r: "read_data \<lparr>r_buf = drop 8 data, r_cleanup = []\<rparr> (of_nat ivs)
        = (Some (take ivs (drop 8 data)), \<lparr>r_buf = drop (8 + ivs) data, r_cleanup = []\<rparr>)"
      using read_data_append [of "of_nat ivs" "take ivs (drop 8 data)" "drop (8 + ivs) data"] full u(1) by simp
    have "drop (length data - icvs) data = drop ?m (drop (8 + ivs) data)" using full by simp
    then have "drop (8 + ivs) data = take ?m (drop (8 + ivs) data) @ drop (length data - icvs) data"
      by (metis append_take_drop_id)
    then have e: "read_data_end \<lparr>r_buf = drop (8 + ivs) data, r_cleanup = []\<rparr> (of_nat icvs)
        = (Some (drop (length data - icvs) data), \<lparr>r_buf = take ?m (drop (8 + ivs) data), r_cleanup = []\<rparr>)"
      using read_data_end_append [of "of_nat icvs" "drop (length data - icvs) data" "take ?m (drop (8 + ivs) data)"] full u(2)
      by simp
    show ?thesis
      using full u(3) [of ?m]
      by (simp add: split_packet_def bio_reader_create_def read_uint32_buf assms(1-3) r e remaining_def peek_def)
  qed
qed

section \<open>Padding\<close>

lemma length_generate_padding [simp]: "length (generate_padding n) = n"
  by (simp add: generate_padding_def)

lemma check_padding_from_iff:
  "check_padding_from i p \<longleftrightarrow> p = map (\<lambda>j. of_nat (j + 1)) [i..<i + length p]"
proof (induction p arbitrary: i)
  case (Cons b p)
  have "[i..<i + length (b # p)] = i # [i + 1..<i + 1 + length p]"
    by (simp add: upt_conv_Cons del: upt_Suc)
  then show ?case using Cons [of "i + 1"] by (simp del: upt_Suc)
qed simp

lemma check_padding_iff: "check_padding p \<longleftrightarrow> p = generate_padding (length p)"
  by (simp add: check_padding_def check_padding_from_iff generate_padding_def)

lemma remove_padding_trailer:
  "remove_padding this (q @ [l, nh]) =
    (if length q < unat l \<or> drop (length q - unat l) q \<noteq> generate_padding (unat l) then (False, this)
     else case ip_packet_create (take (length q - unat l) q) of
         None \<Rightarrow> (False, this\<lparr>ep_payload := None\<rparr>)
       | Some p \<Rightarrow> (True, this\<lparr>ep_payload := Some p, ep_next_header := nh\<rparr>))"
proof -
  let ?n = "unat l"
  have n: "unat (ucast l :: u32) = ?n"
    by (simp add: unsigned_ucast_eq take_bit_nat_eq_self less_trans [OF unat_lt_pow256(1)])
  have r: "read_data_end \<lparr>r_buf = q, r_cleanup = []\<rparr> (ucast l :: u32)
      = (if length q < ?n then (None, \<lparr>r_buf = q, r_cleanup = []\<rparr>)
         else (Some (drop (length q - ?n) q), \<lparr>r_buf = take (length q - ?n) q, r_cleanup = []\<rparr>))"
    using n read_data_end_short [of q "ucast l"]
      read_data_end_append [of "ucast l" "drop (length q - ?n) q" "take (length q - ?n) q" "[]"] by simp
  show ?thesis
    by (simp add: remove_padding_def bio_reader_create_def read_uint8_end_snoc [of "q @ [l]" nh "[]", simplified]
        read_uint8_end_snoc r Let_def peek_def check_padding_iff split: option.split)
qed

lemma remove_padding_spec:
  assumes "n < 256"
  shows "remove_padding this (payload @ generate_padding n @ [of_nat n, nh]) =
    (case ip_packet_create payload of
       None \<Rightarrow> (False, this\<lparr>ep_payload := None\<rparr>)
     | Some p \<Rightarrow> (True, this\<lparr>ep_payload := Some p, ep_next_header := nh\<rparr>))"
proof -
  have "unat (of_nat n :: u8) = n" using assms by (simp add: unat_of_nat)
  then show ?thesis
    using remove_padding_trailer [of this "payload @ generate_padding n" "of_nat n" nh] by simp
qed

text \<open>Only well-formed trailers are accepted.\<close>

lemma remove_padding_inverse:
  assumes "remove_padding this plain = (True, this')"
  obtains payload n nh p where "n < 256" and "plain = payload @ generate_padding n @ [of_nat n, nh]"
    and "ip_packet_create payload = Some p"
    and "this' = this\<lparr>ep_payload := Some p, ep_next_header := nh\<rparr>"
proof -
  have "\<exists>q l nh. plain = q @ [l, nh]"
  proof (cases plain rule: rev_cases)
    case Nil
    then show ?thesis using assms
      by (simp add: remove_padding_def bio_reader_create_def read_uint8_end_def read_uint8_internal_def)
  next
    case (snoc ys nh)
    then show ?thesis
    proof (cases ys rule: rev_cases)
      case Nil
      then show ?thesis using assms snoc
        by (simp add: remove_padding_def bio_reader_create_def read_uint8_end_def read_uint8_internal_def chunk_skip_end_def)
    qed auto
  qed
  then obtain q l nh where q: "plain = q @ [l, nh]" by auto
  let ?n = "unat l"
  have "drop (length q - ?n) q = generate_padding ?n"
    and "\<exists>p. ip_packet_create (take (length q - ?n) q) = Some p \<and> this' = this\<lparr>ep_payload := Some p, ep_next_header := nh\<rparr>"
    using assms unfolding q remove_padding_trailer by (auto split: if_splits option.splits)
  moreover have "plain = take (length q - ?n) q @ drop (length q - ?n) q @ [of_nat ?n, nh]"
    unfolding q by simp
  ultimately show ?thesis using that unat_lt_pow256(1) [of l] by (metis power_one_right)
qed

section \<open>The written packet\<close>

lemma w_used_length: "wf_bio_writer w \<Longrightarrow> w_used w = length (get_buf w)"
  by (simp add: wf_bio_writer_def get_buf_def)

lemma store_at_spec:
  assumes "wf_bio_writer w" and "pos + length d \<le> length (get_buf w)"
  shows "get_buf (store_at w pos d) = memcpy_at (get_buf w) pos d" and "wf_bio_writer (store_at w pos d)"
proof -
  have "pos + length d \<le> w_used w" "w_used w \<le> length (w_buf w)"
    using assms by (simp_all add: wf_bio_writer_def get_buf_def)
  moreover from this have "min (w_used w) pos = pos" "min pos (w_used w) = pos" "min (length (w_buf w)) pos = pos"
    "min (w_used w - pos) (length d) = length d" by simp_all
  ultimately show "get_buf (store_at w pos d) = memcpy_at (get_buf w) pos d" "wf_bio_writer (store_at w pos d)"
    using assms(1) by (simp_all add: store_at_def get_buf_def memcpy_at_def wf_bio_writer_def take_drop)
qed

lemma skip_spec:
  assumes "wf_bio_writer w"
  shows "fst (skip w n) = (length (get_buf w), n)" and "wf_bio_writer (snd (skip w n))"
    and "\<exists>junk. length junk = n \<and> get_buf (snd (skip w n)) = get_buf w @ junk"
proof -
  note i = increase_spec [OF assms, of n]
  show "fst (skip w n) = (length (get_buf w), n)" using i(4) w_used_length [OF assms] by (simp add: skip_def Let_def)
  show "wf_bio_writer (snd (skip w n))" using i by (simp add: skip_def Let_def wf_bio_writer_def)
  let ?w = "increase w n"
  have "get_buf (snd (skip w n)) = get_buf w @ take n (drop (w_used ?w) (w_buf ?w))"
    using i(2) by (simp add: skip_def Let_def get_buf_def take_add)
  moreover have "length (take n (drop (w_used ?w) (w_buf ?w))) = n" using i(3) by simp
  ultimately show "\<exists>junk. length junk = n \<and> get_buf (snd (skip w n)) = get_buf w @ junk" by blast
qed

lemma skip_store:
  assumes "wf_bio_writer w" and "skip w n = (pos, w')" and "length d = n"
  shows "get_buf (store_at w' (fst pos) d) = get_buf w @ d" and "wf_bio_writer (store_at w' (fst pos) d)"
proof -
  obtain junk where j: "length junk = n" "get_buf w' = get_buf w @ junk" and p: "fst pos = length (get_buf w)"
    and w: "wf_bio_writer w'"
    using skip_spec [OF assms(1), of n] assms(2) by auto
  note st = store_at_spec [OF w, of "fst pos" d]
  show "get_buf (store_at w' (fst pos) d) = get_buf w @ d" "wf_bio_writer (store_at w' (fst pos) d)"
    using st j p assms(3) by (simp_all add: memcpy_at_def)
qed

lemma write_esp_plain_spec:
  assumes "wf_bio_writer w"
  shows "get_buf (write_esp_plain w payload n nh) = get_buf w @ payload @ generate_padding n @ [of_nat n, nh]"
    and "wf_bio_writer (write_esp_plain w payload n nh)"
proof -
  obtain pos w' where sk: "skip (write_data w payload) n = (pos, w')" by (cases "skip (write_data w payload) n")
  note w = write_wf(6) [OF assms, of payload]
  note st = skip_store [OF w sk, of "generate_padding n", simplified]
  show "get_buf (write_esp_plain w payload n nh) = get_buf w @ payload @ generate_padding n @ [of_nat n, nh]"
    "wf_bio_writer (write_esp_plain w payload n nh)"
    using st by (simp_all add: write_esp_plain_def Let_def sk write_spec write_wf assms)
qed

text \<open>
  The packet on the wire: header, IV and the sealed plain text. The plain text is followed by
  its trailer.
\<close>

definition esp_plain :: "chunk \<Rightarrow> nat \<Rightarrow> u8 \<Rightarrow> chunk" where
  "esp_plain payload n nh = payload @ generate_padding n @ [of_nat n, nh]"

definition esp_wire :: "(chunk \<Rightarrow> chunk \<Rightarrow> chunk \<Rightarrow> chunk) \<Rightarrow> u32 \<Rightarrow> u32 \<Rightarrow> chunk \<Rightarrow> chunk \<Rightarrow> chunk" where
  "esp_wire sealing spi seqno iv plain =
     (let aad = htoun32 (ntohl spi) @ htoun32 seqno in aad @ iv @ sealing iv aad plain)"

lemma esp_padding_len_dvd:
  assumes "0 < bs" and "(bs dvd 4 \<and> bs dvd ivs) \<or> (4 dvd bs \<and> 4 dvd ivs)"
  shows "bs dvd n + esp_padding_len n ivs bs" and "4 dvd ivs + (n + esp_padding_len n ivs bs)"
    and "esp_padding_len n ivs bs < bs + 4"
proof -
  let ?p = "pad_len n bs" and ?q = "pad_len (ivs + n + pad_len n bs) 4"
  have p: "bs dvd n + ?p" by (rule pad_len_dvd [OF assms(1)])
  have q: "4 dvd ivs + n + ?p + ?q" by (rule pad_len_dvd) simp
  then show "4 dvd ivs + (n + esp_padding_len n ivs bs)" by (simp add: esp_padding_len_def Let_def add.assoc)
  show "esp_padding_len n ivs bs < bs + 4"
    using pad_len_less [OF assms(1), of n] pad_len_less [of 4 "ivs + n + ?p"] by (simp add: esp_padding_len_def Let_def)
  from assms(2) have "bs dvd ?q"
  proof
    assume *: "bs dvd 4 \<and> bs dvd ivs"
    then have "bs dvd ivs + n + ?p + ?q" using q dvd_trans by blast
    then have "bs dvd (ivs + (n + ?p)) + ?q" by (simp add: add.assoc)
    then show ?thesis using * p by (metis dvd_add dvd_add_right_iff)
  next
    assume *: "4 dvd bs \<and> 4 dvd ivs"
    then have "4 dvd n + ?p" using p dvd_trans by blast
    then have "4 dvd ivs + n + ?p" using * by (simp add: add.assoc)
    then have "?q = 0" by (simp add: pad_len_def Let_def dvd_eq_mod_eq_0)
    then show ?thesis by simp
  qed
  with p have "bs dvd (n + ?p) + ?q" by (rule dvd_add)
  then show "bs dvd n + esp_padding_len n ivs bs" by (simp add: esp_padding_len_def Let_def add.assoc)
qed

text \<open>
  The outcome of \<open>decrypt\<close> as a function of what was received, of the plain text \<open>res\<close> whose
  sealed form it carries (if there is one) and of the AEAD state \<open>a\<close> afterwards.
\<close>

definition esp_outcome :: "nat \<Rightarrow> nat \<Rightarrow> nat \<Rightarrow> esp_packet \<Rightarrow> 'a esp_context \<Rightarrow> 'a \<Rightarrow> chunk option
    \<Rightarrow> (status_t \<times> esp_packet \<times> 'a esp_context) option" where
  "esp_outcome bs ivs icvs this ctx a res =
     (let data = get_data (ep_packet this); this0 = this\<lparr>ep_payload := None\<rparr>;
          seqno = untoh32 (drop 4 data); m = length data - (8 + ivs + icvs)
      in if \<not> (8 + ivs + icvs \<le> length data \<and> bs dvd m) then Some (PARSE_ERROR, this0, ctx)
         else if \<not> verify_seqno ctx seqno then Some (VERIFY_ERROR, this0, ctx)
         else if m = 0 \<and> icvs \<noteq> 0 then None
         else (case res of
             None \<Rightarrow> Some (FAILED, this0, ctx\<lparr>aead := a\<rparr>)
           | Some plain \<Rightarrow>
               let (ok, this') = remove_padding this0 plain
               in Some (if ok then SUCCESS else PARSE_ERROR, this',
                    set_authenticated_seqno (ctx\<lparr>aead := a\<rparr>) seqno)))"

lemma esp_encrypt_steps:
  assumes "next_seqno ctx = (Some q, ctx1)" and "a_get_iv_gen A (aead ctx1) = Some ivg"
    and "a_get_block_size A (aead ctx1) = bs" and "a_get_iv_size A (aead ctx1) = ivs"
    and "a_get_icv_size A (aead ctx1) = icvs" and "ep_payload this = Some p"
    and "esp_padding_len (length (ip_packet p) + 2) ivs bs = n"
    and "write_esp_header uninit (8 + ivs + (length (ip_packet p) + 2 + n) + icvs) spi q ivs = (pos, w1)"
    and "get_iv R ivg (ucast q) ivs = (Some iv, ivg')"
    and "store_at w1 (fst pos) iv = w2"
    and "write_esp_plain w2 (ip_packet p) n (ep_next_header this) = w3"
    and "a_encrypt A (a_put_iv_gen A (aead ctx1) ivg')
      (take (length (ip_packet p) + 2 + n) (drop (length (get_buf w2)) (get_buf (snd (skip w3 icvs)))))
      (take 8 (get_buf w3)) iv False = (Some encr, a)"
  shows "esp_encrypt A R uninit this ctx spi =
    (SUCCESS, this\<lparr>ep_packet := set_data (ep_packet this)
       (get_buf (store_at (snd (skip w3 icvs)) (length (get_buf w2)) encr))\<rparr>, ctx1\<lparr>aead := a\<rparr>)"
proof -
  have "ep_payload (this\<lparr>ep_packet := x\<rparr>) = ep_payload this" "ep_next_header (this\<lparr>ep_packet := x\<rparr>) = ep_next_header this"
    "this\<lparr>ep_packet := set_data (ep_packet this) chunk_empty, ep_packet :=
       set_data (ep_packet (this\<lparr>ep_packet := set_data (ep_packet this) chunk_empty\<rparr>)) d\<rparr>
     = this\<lparr>ep_packet := set_data (ep_packet this) d\<rparr>" for x d
    by (simp_all add: set_data_def)
  then show ?thesis
    unfolding esp_encrypt_def Let_def
    by (simp only: get_aead_def assms prod.case option.case extract_buf_def fst_conv)
qed

context aead_contract
begin

text \<open>
  What one call of \<open>encrypt\<close> does on a keyed outbound context: with the IV from the generator the
  packet is sealed under the next sequence number.
\<close>

lemma esp_encrypt_spec:
  assumes "keyed (aead ctx) k" and "\<not> inbound ctx" and "last_seqno ctx \<noteq> - 1"
    and "a_get_iv_gen A (aead ctx) = Some ivg"
    and "get_iv R ivg (ucast (last_seqno ctx + 1)) ivs = (Some iv, ivg')" and "length iv = ivs"
    and "(bs dvd 4 \<and> bs dvd ivs) \<or> (4 dvd bs \<and> 4 dvd ivs)"
    and "ep_payload this = Some p" and "8 + ivs + (length (ip_packet p) + 2 + (bs + 4)) + icvs < lim"
  defines "n \<equiv> esp_padding_len (length (ip_packet p) + 2) ivs bs"
    and "q \<equiv> last_seqno ctx + 1"
  obtains a where "esp_encrypt A R uninit this ctx spi =
      (SUCCESS, this\<lparr>ep_packet := set_data (ep_packet this)
         (esp_wire (seal k) spi q iv (esp_plain (ip_packet p) n (ep_next_header this)))\<rparr>,
       ctx\<lparr>last_seqno := q, aead := a\<rparr>)"
    and "keyed a k" and "a_get_iv_gen A a = Some ivg'"
proof -
  let ?payload = "ip_packet p" and ?a = "aead ctx" and ?nh = "ep_next_header this"
  let ?plain = "esp_plain ?payload n ?nh" and ?len = "length (ip_packet p) + 2 + n"
  let ?aad = "htoun32 (ntohl spi) @ htoun32 q" and ?b = "a_put_iv_gen A (aead ctx) ivg'"
  note sz = sizes [OF assms(1)]
  have pl: "length ?plain = ?len" by (simp add: esp_plain_def)
  have dv: "bs dvd length ?plain" unfolding pl unfolding n_def by (rule esp_padding_len_dvd [OF bs_pos assms(7)])
  have n: "n < bs + 4" unfolding n_def by (rule esp_padding_len_dvd [OF bs_pos assms(7)])
  have b: "keyed ?b k" "a_get_iv_gen A ?b = Some ivg'" using put_iv_gen [OF assms(1)] assms(4) by simp_all
  have "length ?plain < lim" "length ?aad < lim" using n assms(9) pl by simp_all
  from encrypt_law [OF b(1) assms(6) dv this]
  obtain a where a: "a_encrypt A ?b ?plain ?aad iv False = (Some (seal k iv ?aad ?plain), a)"
      "keyed a k" "a_get_iv_gen A a = Some ivg'"
    using b(2) by auto
  define w0 where "w0 = write_uint32 (write_uint32 (bio_writer_create uninit (of_nat (8 + ivs + ?len + icvs))) (ntohl spi)) q"
  have w0: "wf_bio_writer w0" "get_buf w0 = ?aad" by (simp_all add: w0_def write_spec write_wf)
  obtain pos w1 where w1: "skip w0 ivs = (pos, w1)" by (cases "skip w0 ivs")
  define w2 where "w2 = store_at w1 (fst pos) iv"
  have w2: "get_buf w2 = ?aad @ iv" "wf_bio_writer w2"
    using skip_store [OF w0(1) w1 assms(6)] by (simp_all add: w2_def w0(2))
  define w3 where "w3 = write_esp_plain w2 ?payload n ?nh"
  have w3: "get_buf w3 = ?aad @ iv @ ?plain" "wf_bio_writer w3"
    using write_esp_plain_spec [OF w2(2)] by (simp_all add: w3_def w2(1) esp_plain_def)
  note w4' = skip_spec(2,3) [OF w3(2), of icvs]
  from w4'(2) obtain junk where w4: "length junk = icvs" "get_buf (snd (skip w3 icvs)) = ?aad @ iv @ ?plain @ junk"
    by (auto simp: w3(1))
  have "length (seal k iv ?aad ?plain) = length ?plain + icvs" by (rule seal_length [OF b(1) assms(6)])
  then have st: "get_buf (store_at (snd (skip w3 icvs)) (length (?aad @ iv)) (seal k iv ?aad ?plain))
      = ?aad @ iv @ seal k iv ?aad ?plain"
    using store_at_spec(1) [OF w4'(1), of "length (?aad @ iv)" "seal k iv ?aad ?plain"] w4(1,2)
    by (simp add: memcpy_at_def)
  have f1: "next_seqno ctx = (Some q, ctx\<lparr>last_seqno := q\<rparr>)" using assms(2,3) by (simp add: next_seqno_def q_def)
  have f2: "a_get_iv_gen A (aead (ctx\<lparr>last_seqno := q\<rparr>)) = Some ivg"
    "a_get_block_size A (aead (ctx\<lparr>last_seqno := q\<rparr>)) = bs" "a_get_iv_size A (aead (ctx\<lparr>last_seqno := q\<rparr>)) = ivs"
    "a_get_icv_size A (aead (ctx\<lparr>last_seqno := q\<rparr>)) = icvs" using sz assms(4) by simp_all
  have f3: "write_esp_header uninit (8 + ivs + ?len + icvs) spi q ivs = (pos, w1)"
    unfolding write_esp_header_def Let_def w0_def [symmetric] by (rule w1)
  have "take ?len (drop (length (get_buf w2)) (get_buf (snd (skip w3 icvs)))) = ?plain" "take 8 (get_buf w3) = ?aad"
    unfolding w4(2) w2(1) w3(1) using pl by simp_all
  then have f4: "a_encrypt A (a_put_iv_gen A (aead (ctx\<lparr>last_seqno := q\<rparr>)) ivg')
      (take ?len (drop (length (get_buf w2)) (get_buf (snd (skip w3 icvs))))) (take 8 (get_buf w3)) iv False
      = (Some (seal k iv ?aad ?plain), a)"
    using a(1) by simp
  note esp_encrypt_steps [OF f1 f2 assms(8) n_def [THEN meta_eq_to_obj_eq, symmetric] f3 assms(5) [folded q_def]
      w2_def [symmetric] w3_def [symmetric] f4]
  then have "esp_encrypt A R uninit this ctx spi =
      (SUCCESS, this\<lparr>ep_packet := set_data (ep_packet this) (?aad @ iv @ seal k iv ?aad ?plain)\<rparr>,
       ctx\<lparr>last_seqno := q, aead := a\<rparr>)"
    unfolding w2(1) st by simp
  then show ?thesis using that a(2,3) by (simp add: esp_wire_def Let_def)
qed

text \<open>
  Every outcome of \<open>decrypt\<close> on a keyed context, by what was received: \<open>res\<close> is the plain text whose
  sealed form the packet carries, if there is one.
\<close>

lemma esp_decrypt_spec:
  assumes "keyed (aead ctx) k" and "lim \<le> 2 ^ 32" and "8 + ivs + icvs < lim"
    and "length (get_data (ep_packet this)) < lim"
  defines "data \<equiv> get_data (ep_packet this)"
  obtains res a where "keyed a k" and "a_get_iv_gen A a = a_get_iv_gen A (aead ctx)"
    and "\<And>plain. 8 + ivs + icvs \<le> length data \<Longrightarrow>
      res = Some plain \<longleftrightarrow> bs dvd length plain \<and> drop (8 + ivs) data = seal k (take ivs (drop 8 data)) (take 8 data) plain"
    and "esp_decrypt A this ctx = esp_outcome bs ivs icvs this ctx a res"
proof -
  define this0 seqno where "this0 = this\<lparr>ep_payload := None\<rparr>" and "seqno = untoh32 (drop 4 data)"
  define iv m where "iv = take ivs (drop 8 data)" and "m = length data - (8 + ivs + icvs)"
  define c icv where "c = take m (drop (8 + ivs) data)" and "icv = drop (length data - icvs) data"
  have data: "get_data (ep_packet this) = data" "get_data (ep_packet this0) = data" by (simp_all add: data_def this0_def)
  note sz = sizes [OF assms(1)]
  have bounds: "ivs < 2 ^ 32" "icvs < 2 ^ 32" "length data < 2 ^ 32"
    using assms(2-4) unfolding data(1) by linarith+
  have split: "split_packet A (aead ctx) data =
    (if 8 + ivs + icvs \<le> length data \<and> bs dvd m then Some (untoh32 data, seqno, iv, c, icv) else None)"
    using split_packet_spec [OF _ _ _ bounds, of A "aead ctx" bs] sz
    by (simp add: m_def seqno_def iv_def dvd_eq_mod_eq_0 c_def icv_def)
  show ?thesis
  proof (cases "8 + ivs + icvs \<le> length data")
    case False
    then show ?thesis
      using that [OF assms(1) refl, of None] split data
      by (simp add: esp_decrypt_def esp_outcome_def Let_def this0_def [symmetric] get_aead_def)
  next
    case True
    have iv: "length iv = ivs" using True by (simp add: iv_def)
    have "icv = drop m (drop (8 + ivs) data)" using True by (simp add: m_def icv_def)
    then have ci: "c @ icv = drop (8 + ivs) data" unfolding c_def by (metis append_take_drop_id)
    then have lens: "length (drop (8 + ivs) data) < lim" "length (take 8 data) < lim"
      using assms(4) by (simp_all add: data)
    obtain res a where r: "a_decrypt A (aead ctx) (drop (8 + ivs) data) (take 8 data) iv True = (res, a)"
        "keyed a k" "a_get_iv_gen A a = a_get_iv_gen A (aead ctx)"
        "\<forall>p. res = Some p \<longleftrightarrow> bs dvd length p \<and> drop (8 + ivs) data = seal k iv (take 8 data) p"
      using decrypt_law [OF assms(1) iv lens, of True] by blast
    have e: "c = [] \<longleftrightarrow> m = 0" "icv = [] \<longleftrightarrow> icvs = 0" using True by (auto simp: m_def c_def icv_def)
    have "esp_decrypt A this ctx =
      (case split_packet A (aead ctx) data of
         None \<Rightarrow> Some (PARSE_ERROR, this0, ctx)
       | Some (spi, seq, iv, ciphertext, icv) \<Rightarrow>
           if \<not> verify_seqno ctx seq then Some (VERIFY_ERROR, this0, ctx)
           else if ciphertext = [] \<and> icv \<noteq> [] then None
           else (case a_decrypt A (aead ctx) (ciphertext @ icv) (take 8 data) iv True of
                  (None, a) \<Rightarrow> Some (FAILED, this0, ctx\<lparr>aead := a\<rparr>)
                | (Some plaintext, a) \<Rightarrow>
                    let (ok, this') = remove_padding this0 plaintext
                    in Some (if ok then SUCCESS else PARSE_ERROR, this', set_authenticated_seqno (ctx\<lparr>aead := a\<rparr>) seq)))"
      unfolding esp_decrypt_def Let_def this0_def [symmetric] data get_aead_def
      by (auto split: option.split prod.split bool.split)
    then show ?thesis
      unfolding split using r(1) e True ci data
      by (intro that [OF r(2,3), of res])
        (simp_all add: r(4) iv_def esp_outcome_def Let_def this0_def [symmetric] seqno_def [symmetric] m_def [symmetric]
          cong: option.case_cong)
  qed
qed

end

end
