(* ===== verification/Esp_Channel.thy ===== *)
theory Esp_Channel
  imports Esp_Packet "HOL-Library.Sublist"
begin

unbundle bit_operations_syntax

text \<open>
  What a pair of ESP contexts with one key does for the packets that travel between them: the
  composition of encapsulation, transport and decapsulation. The lemmas are proved for any AEAD
  that keeps its contract and any IV generator that serves consecutive numbers, and then applied
  to ChaCha20-Poly1305 with its sequential IV generator.
\<close>

section \<open>The window ignores the AEAD\<close>

lemma window_aead [simp]:
  "verify_seqno (ctx\<lparr>aead := a\<rparr>) q = verify_seqno ctx q"
  by (simp add: verify_seqno_def check_window_def get_window_bit_def Let_def)

lemma set_window_bit_aead: "set_window_bit (ctx\<lparr>aead := a\<rparr>) i v = (set_window_bit ctx i v)\<lparr>aead := a\<rparr>"
  by (simp add: set_window_bit_def Let_def)

lemma shift_window_aead: "shift_window n (ctx\<lparr>aead := a\<rparr>) = (shift_window n ctx)\<lparr>aead := a\<rparr>"
proof (induction n arbitrary: ctx)
  case (Suc n)
  have "set_window_bit (ctx\<lparr>aead := a, seqno_index := i\<rparr>) j v = (set_window_bit (ctx\<lparr>seqno_index := i\<rparr>) j v)\<lparr>aead := a\<rparr>" for i j v
    by (simp add: set_window_bit_def Let_def)
  then show ?case using Suc by (simp add: Let_def)
qed simp

lemma set_authenticated_aead [simp]:
  "set_authenticated_seqno (ctx\<lparr>aead := a\<rparr>) q = (set_authenticated_seqno ctx q)\<lparr>aead := a\<rparr>"
proof -
  have "ctx'\<lparr>aead := a, last_seqno := q\<rparr> = ctx'\<lparr>last_seqno := q, aead := a\<rparr>" for ctx' :: "'a esp_context" by simp
  then show ?thesis by (simp add: set_authenticated_seqno_def Let_def shift_window_aead set_window_bit_aead)
qed

lemma authenticated_fields [simp]: "aead (set_authenticated_seqno ctx q) = aead ctx"
proof -
  have "aead (shift_window n c) = aead c" for n and c :: "'a esp_context"
    by (induction n arbitrary: c) (simp_all add: Let_def set_window_bit_def)
  then show ?thesis by (simp add: set_authenticated_seqno_def Let_def set_window_bit_def)
qed

section \<open>Single packets\<close>

lemma htoun_untoh_take: "4 \<le> length p \<Longrightarrow> htoun32 (untoh32 p) = take 4 p"
  using htoun_untoh(2) [of "take 4 p"] by (simp add: untoh32_def)

lemma esp_wire_parts:
  fixes spi q :: u32
  assumes "length iv = ivs"
  defines "aad \<equiv> htoun32 (ntohl spi) @ htoun32 q"
  shows "take 8 (esp_wire sealing spi q iv plain) = aad" "untoh32 (drop 4 (esp_wire sealing spi q iv plain)) = q"
    "take ivs (drop 8 (esp_wire sealing spi q iv plain)) = iv"
    "drop (8 + ivs) (esp_wire sealing spi q iv plain) = sealing iv aad plain"
    "untoh32 (esp_wire sealing spi q iv plain) = ntohl spi"
    "length (esp_wire sealing spi q iv plain) = 8 + ivs + length (sealing iv aad plain)"
proof -
  have "aad @ r = htoun32 (ntohl spi) @ htoun32 q @ r" for r by (simp add: aad_def)
  then have w: "esp_wire sealing spi q iv plain = htoun32 (ntohl spi) @ htoun32 q @ iv @ sealing iv aad plain"
    unfolding esp_wire_def Let_def aad_def by simp
  show "take 8 (esp_wire sealing spi q iv plain) = aad" "take ivs (drop 8 (esp_wire sealing spi q iv plain)) = iv"
    "drop (8 + ivs) (esp_wire sealing spi q iv plain) = sealing iv aad plain"
    "length (esp_wire sealing spi q iv plain) = 8 + ivs + length (sealing iv aad plain)"
    unfolding w using assms(1) by (simp_all add: aad_def)
  show "untoh32 (drop 4 (esp_wire sealing spi q iv plain)) = q" "untoh32 (esp_wire sealing spi q iv plain) = ntohl spi"
    unfolding w by simp_all
qed

text \<open>The SPI of a packet on the wire is the one it was encapsulated with.\<close>

lemma parse_header_wire:
  "get_data (ep_packet this) = esp_wire sealing spi q iv plain \<Longrightarrow> parse_header this = Some spi"
  using esp_wire_parts(5,6) [of iv "length iv" sealing spi q plain]
  by (simp add: parse_header_def bio_reader_create_def read_uint32_buf)

section \<open>Streams of packets\<close>

text \<open>
  One side encapsulates packets one after the other; the other side handles what arrives. A
  delivered packet is one that \<open>decrypt\<close> reports success for.
\<close>

fun encrypt_all ::
  "('a, 'r) aead_t \<Rightarrow> 'r rng_t \<Rightarrow> (nat \<Rightarrow> u8) \<Rightarrow> u32 \<Rightarrow> 'a esp_context \<Rightarrow> esp_packet list
    \<Rightarrow> (status_t \<times> chunk) list \<times> 'a esp_context" where
  "encrypt_all A R uninit spi ctx [] = ([], ctx)"
| "encrypt_all A R uninit spi ctx (e # es) =
     (case esp_encrypt A R uninit e ctx spi of
        (st, e', ctx') \<Rightarrow> apfst ((#) (st, get_data (ep_packet e'))) (encrypt_all A R uninit spi ctx' es))"

definition received :: "chunk \<Rightarrow> esp_packet" where
  "received data = esp_packet_create_from_packet (packet_create_from_data None None data)"

fun decrypt_all ::
  "('a, 'r) aead_t \<Rightarrow> 'a esp_context \<Rightarrow> chunk list \<Rightarrow> ((status_t \<times> ip_packet option) list \<times> 'a esp_context) option" where
  "decrypt_all A ctx [] = Some ([], ctx)"
| "decrypt_all A ctx (d # ds) =
     (case esp_decrypt A (received d) ctx of
        None \<Rightarrow> None
      | Some (st, e, ctx') \<Rightarrow> map_option (apfst ((#) (st, ep_payload e))) (decrypt_all A ctx' ds))"

fun delivered :: "(status_t \<times> ip_packet option) list \<Rightarrow> ip_packet list" where
  "delivered [] = []"
| "delivered ((st, p) # rs) = (if st = SUCCESS then the p # delivered rs else delivered rs)"

lemma get_data_received [simp]: "get_data (ep_packet (received data)) = data"
  by (simp add: received_def esp_packet_create_from_packet_def esp_packet_create_internal_def
      packet_create_from_data_def get_data_def)

lemma replay_run_aead:
  "replay_run verify_seqno set_authenticated_seqno (ctx\<lparr>aead := a\<rparr>) qs
    = apsnd (\<lambda>c. c\<lparr>aead := a\<rparr>) (replay_run verify_seqno set_authenticated_seqno ctx qs)"
  by (induction qs arbitrary: ctx) (simp_all add: apsnd_def apfst_def map_prod_def split: prod.split)

lemma replay_run_subseq: "subseq (fst (replay_run v r c qs)) qs"
  by (induction qs arbitrary: c) auto

locale esp_channel = aead_contract A keyed seal bs icvs ivs lim
  for A :: "('a, 'r) aead_t" and keyed :: "'a \<Rightarrow> 'k \<Rightarrow> bool" and seal and bs icvs ivs lim +
  fixes R :: "'r rng_t" and iv_ready :: "'r iv_gen_t \<Rightarrow> u32 \<Rightarrow> bool"
  assumes iv_step: "iv_ready g q \<Longrightarrow> q \<noteq> - 1 \<Longrightarrow>
      \<exists>iv g'. get_iv R g (ucast (q + 1)) ivs = (Some iv, g') \<and> length iv = ivs \<and> iv_ready g' (q + 1)"
    and alignment: "(bs dvd 4 \<and> bs dvd ivs) \<or> (4 dvd bs \<and> 4 dvd ivs)" and bs_small: "bs \<le> 252"
    and lim_word: "lim \<le> 2 ^ 32" and lim_header: "8 + ivs + icvs < lim"
begin

text \<open>A context that can send: outbound, keyed and with an IV generator in step.\<close>

definition sender :: "'a esp_context \<Rightarrow> 'k \<Rightarrow> bool" where
  "sender ctx k \<longleftrightarrow> keyed (aead ctx) k \<and> \<not> inbound ctx
     \<and> (\<exists>g. a_get_iv_gen A (aead ctx) = Some g \<and> iv_ready g (last_seqno ctx))"

definition fits :: "ip_packet \<Rightarrow> bool" where
  "fits p \<longleftrightarrow> ip_packet_create (ip_packet p) = Some p
     \<and> 8 + ivs + (length (ip_packet p) + 2 + (bs + 4)) + icvs < lim"

definition sealed :: "'k \<Rightarrow> u32 \<Rightarrow> u32 \<Rightarrow> ip_packet \<Rightarrow> u8 \<Rightarrow> chunk \<Rightarrow> bool" where
  "sealed k spi q p nh data \<longleftrightarrow> (\<exists>iv. length iv = ivs
     \<and> data = esp_wire (seal k) spi q iv (esp_plain (ip_packet p) (esp_padding_len (length (ip_packet p) + 2) ivs bs) nh))"

lemma encrypt_seals:
  assumes "sender ctx k" and "last_seqno ctx \<noteq> - 1" and "ep_payload this = Some p" and "fits p"
  obtains data ctx' where
    "esp_encrypt A R uninit this ctx spi = (SUCCESS, this\<lparr>ep_packet := set_data (ep_packet this) data\<rparr>, ctx')"
    and "sealed k spi (last_seqno ctx + 1) p (ep_next_header this) data"
    and "sender ctx' k" and "last_seqno ctx' = last_seqno ctx + 1"
proof -
  obtain g where s: "keyed (aead ctx) k" "\<not> inbound ctx" "a_get_iv_gen A (aead ctx) = Some g" "iv_ready g (last_seqno ctx)"
    using assms(1) by (auto simp: sender_def)
  obtain iv g' where i: "get_iv R g (ucast (last_seqno ctx + 1)) ivs = (Some iv, g')" "length iv = ivs"
      "iv_ready g' (last_seqno ctx + 1)"
    using iv_step [OF s(4) assms(2)] by blast
  have "8 + ivs + (length (ip_packet p) + 2 + (bs + 4)) + icvs < lim" using assms(4) by (simp add: fits_def)
  from esp_encrypt_spec [OF s(1,2) assms(2) s(3) i(1,2) alignment assms(3) this, of uninit spi]
  obtain a where a: "esp_encrypt A R uninit this ctx spi =
      (SUCCESS, this\<lparr>ep_packet := set_data (ep_packet this)
         (esp_wire (seal k) spi (last_seqno ctx + 1) iv (esp_plain (ip_packet p)
            (esp_padding_len (length (ip_packet p) + 2) ivs bs) (ep_next_header this)))\<rparr>,
       ctx\<lparr>last_seqno := last_seqno ctx + 1, aead := a\<rparr>)" "keyed a k" "a_get_iv_gen A a = Some g'"
    by blast
  show ?thesis using that [OF a(1)] a(2,3) i(2,3) s(2) by (auto simp: sealed_def sender_def)
qed

lemma decrypt_opens:
  assumes "keyed (aead ctx) k" and "fits p" and "sealed k spi q p nh (get_data (ep_packet this))"
  obtains a where "keyed a k"
    and "esp_decrypt A this ctx = Some
      (if verify_seqno ctx q
       then (SUCCESS, this\<lparr>ep_payload := Some p, ep_next_header := nh\<rparr>, (set_authenticated_seqno ctx q)\<lparr>aead := a\<rparr>)
       else (VERIFY_ERROR, this\<lparr>ep_payload := None\<rparr>, ctx))"
proof -
  let ?n = "esp_padding_len (length (ip_packet p) + 2) ivs bs"
  let ?plain = "esp_plain (ip_packet p) ?n nh" and ?data = "get_data (ep_packet this)"
  obtain iv where iv: "length iv = ivs" and d: "?data = esp_wire (seal k) spi q iv ?plain"
    using assms(3) by (auto simp: sealed_def)
  note w = esp_wire_parts [OF iv, of "seal k" spi q ?plain, folded d]
  note pad = esp_padding_len_dvd [OF bs_pos alignment, of "length (ip_packet p) + 2"]
  have pl: "length ?plain = length (ip_packet p) + 2 + ?n" by (simp add: esp_plain_def)
  have len: "length ?data = 8 + ivs + (length ?plain + icvs)" using w(6) seal_length [OF assms(1) iv] by simp
  have short: "length ?data < lim" using len pl pad(3) assms(2) by (simp add: fits_def)
  have m: "length ?data - (8 + ivs + icvs) = length ?plain" using len by simp
  have dv: "bs dvd length ?plain" using pad(1) pl by simp
  obtain res a where ra: "keyed a k"
    "res = Some ?plain \<longleftrightarrow> bs dvd length ?plain \<and> drop (8 + ivs) ?data = seal k (take ivs (drop 8 ?data)) (take 8 ?data) ?plain"
    "esp_decrypt A this ctx = esp_outcome bs ivs icvs this ctx a res"
  proof (rule esp_decrypt_spec [OF assms(1) lim_word lim_header short], goal_cases)
    case (1 a res)
    have "8 + ivs + icvs \<le> length ?data" using len by simp
    from 1(1) [OF 1(2) 1(4) [OF this] 1(5)] show ?case .
  qed
  have "res = Some ?plain" using ra(2) w(1,3,4) dv by simp
  moreover have "remove_padding (this\<lparr>ep_payload := None\<rparr>) ?plain
      = (True, this\<lparr>ep_payload := Some p, ep_next_header := nh\<rparr>)"
    using remove_padding_spec [of ?n "this\<lparr>ep_payload := None\<rparr>" "ip_packet p" nh] pad(3) bs_small assms(2)
    by (simp add: esp_plain_def fits_def)
  ultimately show ?thesis
    using ra(3) m dv len w(2) pl by (intro that [OF ra(1)]) (simp add: esp_outcome_def Let_def)
qed

text \<open>What \<open>decrypt\<close> accepts was sealed under the key, with a number the window admits.\<close>

lemma decrypt_authentic:
  assumes "keyed (aead ctx) k" and "length (get_data (ep_packet this)) < lim"
    and "esp_decrypt A this ctx = Some (SUCCESS, this', ctx')"
  shows "\<exists>spi q iv payload n nh p. get_data (ep_packet this) = esp_wire (seal k) spi q iv (esp_plain payload n nh)
    \<and> length iv = ivs \<and> verify_seqno ctx q \<and> ip_packet_create payload = Some p
    \<and> this' = this\<lparr>ep_payload := Some p, ep_next_header := nh\<rparr>
    \<and> ctx' = (set_authenticated_seqno ctx q)\<lparr>aead := aead ctx'\<rparr>"
proof -
  let ?data = "get_data (ep_packet this)"
  let ?q = "untoh32 (drop 4 ?data)" and ?iv = "take ivs (drop 8 ?data)"
  show ?thesis
  proof (rule esp_decrypt_spec [OF assms(1) lim_word lim_header assms(2)], goal_cases)
    case (1 res a)
    have l: "8 + ivs + icvs \<le> length ?data" "verify_seqno ctx ?q" "\<exists>plain. res = Some plain
        \<and> remove_padding (this\<lparr>ep_payload := None\<rparr>) plain = (True, this')
        \<and> ctx' = (set_authenticated_seqno ctx ?q)\<lparr>aead := a\<rparr>"
      using assms(3) 1(4) by (auto simp: esp_outcome_def Let_def split: if_splits option.splits prod.splits)
    then obtain plain where plain: "res = Some plain" "remove_padding (this\<lparr>ep_payload := None\<rparr>) plain = (True, this')"
        "ctx' = (set_authenticated_seqno ctx ?q)\<lparr>aead := a\<rparr>" by blast
    obtain payload n nh p where
        r: "plain = esp_plain payload n nh" "ip_packet_create payload = Some p"
          "this' = this\<lparr>ep_payload := Some p, ep_next_header := nh\<rparr>"
      by (rule remove_padding_inverse [OF plain(2)]) (rule that, simp_all add: esp_plain_def)
    have "take 8 ?data = take 4 ?data @ take 4 (drop 4 ?data)"
      using take_add [of 4 4 ?data] by simp
    then have aad: "take 8 ?data = htoun32 (ntohl (htonl (untoh32 ?data))) @ htoun32 ?q"
      using htoun_untoh_take [of ?data] htoun_untoh_take [of "drop 4 ?data"] l(1) by simp
    have "drop (8 + ivs) ?data = seal k ?iv (take 8 ?data) plain" using 1(3) [OF l(1)] plain(1) by blast
    moreover have "?data = take 8 ?data @ ?iv @ drop (8 + ivs) ?data"
      by (metis append_take_drop_id drop_drop add.commute)
    ultimately have "?data = esp_wire (seal k) (htonl (untoh32 ?data)) ?q ?iv plain"
      unfolding esp_wire_def Let_def using aad by metis
    then show ?case using r plain(3) l by (intro exI conjI) auto
  qed
qed

text \<open>The only packets that make \<open>decrypt\<close> access the \<open>NULL\<close> pointer are those without cipher text.\<close>

lemma decrypt_null:
  assumes "keyed (aead ctx) k" and "length (get_data (ep_packet this)) < lim"
  shows "esp_decrypt A this ctx = None \<longleftrightarrow>
    length (get_data (ep_packet this)) = 8 + ivs + icvs \<and> icvs \<noteq> 0
    \<and> verify_seqno ctx (untoh32 (drop 4 (get_data (ep_packet this))))"
  by (rule esp_decrypt_spec [OF assms(1) lim_word lim_header assms(2)])
    (auto simp: esp_outcome_def Let_def split: option.split prod.split)

text \<open>Data that no plain text was sealed to neither succeeds nor moves the window.\<close>

lemma decrypt_forged:
  assumes "keyed (aead ctx) k" and "length (get_data (ep_packet this)) < lim"
    and "\<And>plain. drop (8 + ivs) (get_data (ep_packet this))
      \<noteq> seal k (take ivs (drop 8 (get_data (ep_packet this)))) (take 8 (get_data (ep_packet this))) plain"
    and "esp_decrypt A this ctx = Some (st, this', ctx')"
  shows "st \<noteq> SUCCESS \<and> this' = this\<lparr>ep_payload := None\<rparr> \<and> ctx' = ctx\<lparr>aead := aead ctx'\<rparr>"
proof (rule esp_decrypt_spec [OF assms(1) lim_word lim_header assms(2)], goal_cases)
  case (1 res a)
  have "res = None" if "8 + ivs + icvs \<le> length (get_data (ep_packet this))"
    using 1(3) [OF that] assms(3) by (cases res) auto
  then show ?case using assms(4) 1(4) by (auto simp: esp_outcome_def Let_def split: if_splits)
qed

text \<open>A context stays keyed whatever it is given.\<close>

lemma decrypt_keeps_keyed:
  assumes "keyed (aead ctx) k" and "length (get_data (ep_packet this)) < lim"
    and "esp_decrypt A this ctx = Some (st, this', ctx')"
  shows "keyed (aead ctx') k"
proof (rule esp_decrypt_spec [OF assms(1) lim_word lim_header assms(2)], goal_cases)
  case (1 res a)
  then show ?case
    using assms(1,3) by (auto simp: esp_outcome_def Let_def split: if_splits option.splits prod.splits)
qed

lemma decrypt_all_keyed:
  assumes "keyed (aead ctx) k" and "\<forall>d \<in> set ds. length d < lim" and "decrypt_all A ctx ds = Some (rs, ctx')"
  shows "keyed (aead ctx') k"
  using assms
proof (induction ds arbitrary: ctx rs)
  case (Cons d ds)
  then obtain st e ctx1 where e: "esp_decrypt A (received d) ctx = Some (st, e, ctx1)"
    by (auto split: option.splits)
  then have "keyed (aead ctx1) k" using decrypt_keeps_keyed [OF Cons.prems(1) _ e] Cons.prems(2) by simp
  then show ?case using Cons.IH [of ctx1] Cons.prems(2,3) e by auto
qed simp

lemma encrypt_all_seals:
  assumes "sender ctx k" and "unat (last_seqno ctx) + length es < 2 ^ 32"
    and "\<forall>e \<in> set es. \<exists>p. ep_payload e = Some p \<and> fits p"
  shows "\<exists>ds ctx'. encrypt_all A R uninit spi ctx es = (map (Pair SUCCESS) ds, ctx') \<and> length ds = length es
    \<and> (\<forall>i < length es. sealed k spi (last_seqno ctx + of_nat (i + 1)) (the (ep_payload (es ! i))) (ep_next_header (es ! i)) (ds ! i))"
  using assms
proof (induction es arbitrary: ctx)
  case Nil
  then show ?case by simp
next
  case (Cons e es)
  obtain p where p: "ep_payload e = Some p" "fits p" using Cons.prems(3) by auto
  have "last_seqno ctx \<noteq> - 1"
    using Cons.prems(2) by (auto simp: unsigned_minus_1_eq_mask mask_eq_exp_minus_1)
  then obtain data ctx1 where e:
      "esp_encrypt A R uninit e ctx spi = (SUCCESS, e\<lparr>ep_packet := set_data (ep_packet e) data\<rparr>, ctx1)"
      "sealed k spi (last_seqno ctx + 1) p (ep_next_header e) data"
      "sender ctx1 k" "last_seqno ctx1 = last_seqno ctx + 1"
    using encrypt_seals [OF Cons.prems(1) _ p, of uninit spi] by blast
  have "last_seqno ctx + 1 \<noteq> 0"
    using \<open>last_seqno ctx \<noteq> - 1\<close> by (metis add.commute add_eq_0_iff2 minus_equation_iff)
  then have u: "unat (last_seqno ctx1) = unat (last_seqno ctx) + 1"
    using e(4) unatSuc [of "last_seqno ctx"] by (simp add: add.commute)
  then obtain ds ctx' where ds: "encrypt_all A R uninit spi ctx1 es = (map (Pair SUCCESS) ds, ctx')" "length ds = length es"
      "\<forall>i < length es. sealed k spi (last_seqno ctx1 + of_nat (i + 1)) (the (ep_payload (es ! i))) (ep_next_header (es ! i)) (ds ! i)"
    using Cons.IH [OF e(3)] Cons.prems(2,3) by auto
  have "sealed k spi (last_seqno ctx + of_nat (i + 1)) (the (ep_payload ((e # es) ! i))) (ep_next_header ((e # es) ! i))
      ((data # ds) ! i)" if "i < Suc (length es)" for i
    using that e(2,4) p(1) ds(3) by (cases i) (auto simp: add.assoc)
  then show ?case
    using e(1) ds(1,2) by (intro exI [of _ "data # ds"] exI [of _ ctx']) (simp add: set_data_def get_data_def)
qed

lemma decrypt_all_delivers:
  assumes "keyed (aead ctx) k" and "\<forall>q \<in> set qs. sealed k spi q (P q) (N q) (D q) \<and> fits (P q)"
  shows "\<exists>rs a. decrypt_all A ctx (map D qs) = Some (rs, (snd (replay_run verify_seqno set_authenticated_seqno ctx qs))\<lparr>aead := a\<rparr>)
    \<and> keyed a k \<and> delivered rs = map P (fst (replay_run verify_seqno set_authenticated_seqno ctx qs))"
  using assms
proof (induction qs arbitrary: ctx)
  case Nil
  then show ?case by (intro exI [of _ "[]"] exI [of _ "aead ctx"]) simp
next
  case (Cons q qs)
  let ?run = "replay_run verify_seqno set_authenticated_seqno"
  have q: "sealed k spi q (P q) (N q) (D q)" "fits (P q)" using Cons.prems(2) by auto
  obtain a where a: "keyed a k" "esp_decrypt A (received (D q)) ctx = Some
      (if verify_seqno ctx q
       then (SUCCESS, (received (D q))\<lparr>ep_payload := Some (P q), ep_next_header := N q\<rparr>, (set_authenticated_seqno ctx q)\<lparr>aead := a\<rparr>)
       else (VERIFY_ERROR, (received (D q))\<lparr>ep_payload := None\<rparr>, ctx))"
    by (rule decrypt_opens [OF Cons.prems(1) q(2), of spi q "N q" "received (D q)"]) (use q(1) in auto)
  show ?case
  proof (cases "verify_seqno ctx q")
    case True
    obtain rs a' where r: "decrypt_all A ((set_authenticated_seqno ctx q)\<lparr>aead := a\<rparr>) (map D qs)
        = Some (rs, (snd (?run ((set_authenticated_seqno ctx q)\<lparr>aead := a\<rparr>) qs))\<lparr>aead := a'\<rparr>)" "keyed a' k"
        "delivered rs = map P (fst (?run ((set_authenticated_seqno ctx q)\<lparr>aead := a\<rparr>) qs))"
      using Cons.IH [of "(set_authenticated_seqno ctx q)\<lparr>aead := a\<rparr>"] Cons.prems(2) a(1) by auto
    show ?thesis
      using True a(2) r
      by (intro exI [of _ "(SUCCESS, Some (P q)) # rs"] exI [of _ a']) (simp add: replay_run_aead)
  next
    case False
    obtain rs a' where r: "decrypt_all A ctx (map D qs) = Some (rs, (snd (?run ctx qs))\<lparr>aead := a'\<rparr>)" "keyed a' k"
        "delivered rs = map P (fst (?run ctx qs))"
      using Cons.IH [of ctx] Cons.prems by auto
    show ?thesis
      using False a(2) r by (intro exI [of _ "(VERIFY_ERROR, None) # rs"] exI [of _ a']) simp
  qed
qed

end

section \<open>Strictly increasing arrivals\<close>

text \<open>Numbers that arrive in strictly increasing order are all accepted.\<close>

lemma increasing_accepted:
  assumes "implements_replay c s" and "window_size c = 128"
    and "sorted_wrt (<) qs" and "\<forall>q \<in> set qs. highest s < unat q"
  shows "fst (replay_run verify_seqno set_authenticated_seqno c qs) = qs"
  using assms
proof (induction qs arbitrary: c s)
  case (Cons q qs)
  have v: "verify_seqno c q"
    using implements_verify [OF Cons.prems(1)] Cons.prems(2,4) by (simp add: replay_accepts_def)
  have "implements_replay (set_authenticated_seqno c q) (replay_record s (unat q))"
    using ring.record_implements [OF conjI [OF refl Cons.prems(1)] v] by simp
  moreover have "\<forall>q' \<in> set qs. highest (replay_record s (unat q)) < unat q'"
    using Cons.prems(3,4) by (auto simp: replay_record_def word_less_nat_alt)
  ultimately show ?case using Cons.IH Cons.prems(2,3) v by simp
qed simp

section \<open>ChaCha20-Poly1305 with sequential vectors\<close>

definition seq_iv_ready :: "'r iv_gen_t \<Rightarrow> u32 \<Rightarrow> bool" where
  "seq_iv_ready g q \<longleftrightarrow> (\<exists>s slt. g = IV_GEN_SEQ s \<and> seq_salt s = Some slt \<and> length slt = 8
     \<and> (prevl s = SEQ_IV_INIT_STATE \<or> prevl s \<le> ucast q))"

lemma seq_iv_step:
  assumes "seq_iv_ready g q" and "q \<noteq> - 1"
  shows "\<exists>iv g'. get_iv R g (ucast (q + 1)) 8 = (Some iv, g') \<and> length iv = 8 \<and> seq_iv_ready g' (q + 1)"
proof -
  obtain s slt where s: "g = IV_GEN_SEQ s" "seq_salt s = Some slt" "length slt = 8"
      "prevl s = SEQ_IV_INIT_STATE \<or> prevl s \<le> ucast q"
    using assms(1) by (auto simp: seq_iv_ready_def)
  let ?n = "ucast (q + 1) :: u64"
  have u: "unat (ucast w :: u64) = unat w" for w :: u32
    by (simp add: unsigned_ucast_eq take_bit_nat_eq_self less_trans [OF unat_lt_pow256(3)])
  have "q + 1 \<noteq> 0" using assms(2) by (metis add.commute add_eq_0_iff2 minus_equation_iff)
  then have q1: "unat (q + 1) = unat q + 1" using unatSuc [of q] by (simp add: add.commute)
  have n: "unat ?n = unat q + 1" by (simp only: u q1)
  then have fresh: "(prevl s \<noteq> SEQ_IV_INIT_STATE \<and> ?n \<le> prevl s) = False"
    using s(4) u [of q] by (auto simp: word_le_nat_alt)
  have "unat q + 1 < 2 ^ 32" using unat_lt_pow256(3) [of "q + 1"] q1 by simp
  then have "unat ?n < 2 ^ 32" using n by simp
  then have lo: "\<not> bit ?n i" if "32 \<le> i" for i
    using that by (simp add: bit_unsigned_iff) (auto simp: bit_ucast_iff dest: bit_imp_le_length)
  have "\<not> bit (?n OR SEQ_IV_HIGH_MASK) 62" using lo [of 62] by (simp add: bit_or_iff bit_push_bit_iff)
  then have top: "(?n OR SEQ_IV_HIGH_MASK = SEQ_IV_INIT_STATE) = False" by (auto simp: bit_not_iff)
  have high: "(?n AND SEQ_IV_HIGH_MASK \<noteq> 0) = False" unfolding high_mask_iff using lo [of 63] by simp
  have "iv_gen_seq_get_iv s ?n 8 = (Some (memxor (htoun64 ?n) slt 8), s\<lparr>prevl := ?n\<rparr>)"
    unfolding iv_gen_seq_get_iv_def Let_def s(2) option.case fresh if_False top high by (simp add: memxor_def s(3))
  then show ?thesis
    using s by (simp add: seq_iv_ready_def memxor_def)
qed

interpretation chapoly_channel: esp_channel "obj_methods (chapoly_methods portable_drv u) W"
  "plugin_keyed (\<lambda>this K. portable_keyed (chapoly_drv this) K)" chacha20_poly1305_seal 1 16 8 "2 ^ 32" R seq_iv_ready
  for u W R
  by (intro esp_channel.intro chapoly.plugin_contract esp_channel_axioms.intro) (simp_all add: seq_iv_step)

lemma chapoly_context:
  fixes R :: "'r rng_t"
  assumes "esp_context_create (chapoly_methods portable_drv u) C S R (chapoly_factory R rngs)
      ENCR_CHACHA20_POLY1305 key int_alg int_key inb = Some c"
  shows "length key = 36" "plugin_keyed (\<lambda>this K. portable_keyed (chapoly_drv this) K) (aead c) (chapoly_key key)"
    "a_get_iv_gen (obj_methods (chapoly_methods portable_drv u) W) (aead c) = Some (IV_GEN_SEQ (iv_gen_seq_create R rngs))"
proof -
  let ?a = "\<lparr>chapoly_iv_gen = IV_GEN_SEQ (iv_gen_seq_create R rngs), chapoly_drv = chapoly_drv_portable_create\<rparr>
    :: (chapoly_drv_portable, 'r) chapoly_aead"
  have fac: "create_aead_alg (chapoly_factory R rngs) ENCR_CHACHA20_POLY1305 n 4 = Some a \<Longrightarrow> a = ?a" for n a
    by (auto simp: chapoly_factory_def chapoly_aead_create_def split: if_splits)
  obtain a where a: "chapoly_set_key portable_drv ?a key = (True, a)" and c: "aead c = Plugin a"
    using assms
    by (auto dest!: fac simp: esp_context_create_def encryption_algorithm_is_aead_def create_aead_def chapoly_methods_def Let_def
        split: option.splits prod.splits bool.splits)
  show key: "length key = 36" using a by (simp add: chapoly_set_key_def split: if_splits)
  have "portable_ready (chapoly_drv ?a)" using portable_create_ready by simp
  note chapoly_set_key_keyed(2) [OF this key]
  then show "plugin_keyed (\<lambda>this K. portable_keyed (chapoly_drv this) K) (aead c) (chapoly_key key)"
    using a c by (simp add: plugin_keyed_def)
  have "chapoly_iv_gen a = chapoly_iv_gen ?a"
    using a by (auto simp: chapoly_set_key_def split: if_splits prod.splits)
  then show "a_get_iv_gen (obj_methods (chapoly_methods portable_drv u) W) (aead c) = Some (IV_GEN_SEQ (iv_gen_seq_create R rngs))"
    using c by (simp add: obj_methods_def chapoly_methods_def)
qed

section \<open>Properties\<close>

abbreviation chapoly_aeads where
  "chapoly_aeads u W \<equiv> obj_methods (chapoly_methods portable_drv u) W"

text \<open>A packet that can travel: its encoding parses back to it and fits the tunnel.\<close>

definition tunnelable :: "ip_packet \<Rightarrow> bool" where
  "tunnelable p \<longleftrightarrow> ip_packet_create (ip_packet p) = Some p \<and> length (ip_packet p) < 2 ^ 31"

lemma tunnelable_fits: "tunnelable p \<Longrightarrow> chapoly_channel.fits p"
  unfolding tunnelable_def chapoly_channel.fits_def by simp

lemma chapoly_sender:
  assumes "esp_context_create (chapoly_methods portable_drv u) C S R (chapoly_factory R rngs)
      ENCR_CHACHA20_POLY1305 key int_alg int_key False = Some c"
    and "rngs RNG_STRONG = Some r" and "fst (get_bytes R r 8) = Some slt" and "length slt = 8"
  shows "chapoly_channel.sender u W c (chapoly_key key)" and "last_seqno c = 0"
proof -
  note k = chapoly_context [OF assms(1)]
  note f = created_fields [OF assms(1)]
  have "seq_iv_ready (IV_GEN_SEQ (iv_gen_seq_create R rngs)) (last_seqno c)"
    using assms(2-4) by (simp add: seq_iv_ready_def iv_gen_seq_create_def)
  then show "chapoly_channel.sender u W c (chapoly_key key)"
    using k f by (auto simp: chapoly_channel.sender_def)
  show "last_seqno c = 0" using f by simp
qed

text \<open>The sequence number of the packet with an index, and what the window makes of arrivals in any order.\<close>

definition seqno_of :: "nat \<Rightarrow> u32" where
  "seqno_of i = of_nat (i + 1)"

lemma unat_seqno_of: "i < n \<Longrightarrow> n < 2 ^ 32 \<Longrightarrow> unat (seqno_of i) = i + 1"
  unfolding seqno_of_def unat_of_nat by simp

lemma arrivals_accepted:
  assumes create: "esp_context_create A C S R F enc_alg key ia ik True = Some inn"
    and ix: "set arrivals \<subseteq> {..<n}" "n < 2 ^ 32"
    and run: "replay_run verify_seqno set_authenticated_seqno inn (map seqno_of arrivals) = (acc, c)"
  obtains js where "acc = map seqno_of js" "subseq js arrivals" "distinct js" "sorted_wrt (<) arrivals \<longrightarrow> js = arrivals"
proof -
  have u: "unat (seqno_of i) = i + 1" if "i \<in> set arrivals" for i
    using that ix(1) by (intro unat_seqno_of [OF _ ix(2)]) auto
  obtain N where N: "acc = nths (map seqno_of arrivals) N"
    using replay_run_subseq [of verify_seqno set_authenticated_seqno inn "map seqno_of arrivals"] run by (auto simp: subseq_conv_nths)
  define js where "js = nths arrivals N"
  have js: "acc = map seqno_of js" "subseq js arrivals"
    by (auto simp: N js_def nths_map subseq_conv_nths)
  have "distinct js"
    using seqno_run(1) [OF create run] js(1) by (simp add: distinct_map)
  moreover have "js = arrivals" if "sorted_wrt (<) arrivals"
  proof -
    have "sorted_wrt (<) (map seqno_of arrivals)"
      unfolding sorted_wrt_map using that u by (rule_tac sorted_wrt_mono_rel) (auto simp: word_less_nat_alt)
    moreover have "\<forall>w \<in> set (map seqno_of arrivals). highest replay_init < unat w"
      using u by (auto simp: replay_init_def)
    ultimately have "acc = map seqno_of arrivals"
      using increasing_accepted [of inn replay_init "map seqno_of arrivals"] created_implements [OF create] run by simp
    then show ?thesis
      using js subseq_same_length by (metis length_map)
  qed
  ultimately show thesis
    using that js by blast
qed

text \<open>
  C3: Exactly-once delivery through an ESP tunnel. Take two contexts created for ChaCha20-Poly1305
  with the same key, one for sending and one for receiving, and fewer than \<open>2\<^sup>3\<^sup>2\<close> IP packets.
  Encapsulating them all succeeds. Let the network then lose, repeat and reorder the encapsulated
  packets in any way (\<open>arrivals\<close> lists the indices in order of arrival): the receiver never fails to
  handle an arrival, every packet it delivers is one of those sent, unchanged, and none is
  delivered twice; and when the packets arrive in order, with any losses, all that arrive are
  delivered.
\<close>

theorem esp_tunnel_exactly_once:
  assumes "esp_context_create (chapoly_methods portable_drv u) C S R (chapoly_factory R rngs)
      ENCR_CHACHA20_POLY1305 key ia ik False = Some out"
    and "esp_context_create (chapoly_methods portable_drv u) C S R (chapoly_factory R rngs)
      ENCR_CHACHA20_POLY1305 key ia ik True = Some inn"
    and "rngs RNG_STRONG = Some r" and "fst (get_bytes R r 8) = Some slt" and "length slt = 8"
    and "length ps < 2 ^ 32" and "\<forall>p \<in> set ps. tunnelable p"
    and "set arrivals \<subseteq> {..<length ps}"
  shows "\<exists>ds out' rs inn' js.
    encrypt_all (chapoly_aeads u (wrapper_methods C S)) R uninit spi out
      (map (\<lambda>p. esp_packet_create_from_payload src dst (Some p)) ps) = (map (Pair SUCCESS) ds, out')
    \<and> decrypt_all (chapoly_aeads u (wrapper_methods C S)) inn (map ((!) ds) arrivals) = Some (rs, inn')
    \<and> delivered rs = map ((!) ps) js \<and> subseq js arrivals \<and> distinct js
    \<and> (sorted_wrt (<) arrivals \<longrightarrow> js = arrivals)"
proof -
  let ?A = "chapoly_aeads u (wrapper_methods C S)" and ?k = "chapoly_key key"
  let ?es = "map (\<lambda>p. esp_packet_create_from_payload src dst (Some p)) ps"
  let ?nh = "\<lambda>p. if ip_version p = 4 then IPPROTO_IPIP else IPPROTO_IPV6"
  have es: "ep_payload (esp_packet_create_from_payload src dst (Some p)) = Some p"
    "ep_next_header (esp_packet_create_from_payload src dst (Some p)) = ?nh p" for p
    by (simp_all add: esp_packet_create_from_payload_def Let_def)
  note sending = chapoly_sender(1) [OF assms(1,3-5), of "wrapper_methods C S"] and seq0 = chapoly_sender(2) [OF assms(1,3-5)]
  have "\<forall>e \<in> set ?es. \<exists>p. ep_payload e = Some p \<and> chapoly_channel.fits p"
    using assms(7) tunnelable_fits es(1) by auto
  from chapoly_channel.encrypt_all_seals [OF sending _ this, where R = R and uninit = uninit and spi = spi]
  obtain ds out' where enc: "encrypt_all ?A R uninit spi out ?es = (map (Pair SUCCESS) ds, out')" "length ds = length ps"
      "\<forall>i < length ps. chapoly_channel.sealed ?k spi (of_nat (i + 1)) (ps ! i) (?nh (ps ! i)) (ds ! i)"
    using assms(6) seq0 es by auto
  have ok: "chapoly_channel.sealed ?k spi (seqno_of i) (ps ! i) (?nh (ps ! i)) (ds ! i)" "chapoly_channel.fits (ps ! i)"
      "unat (seqno_of i) - 1 = i" if "i \<in> set arrivals" for i
  proof -
    have i: "i < length ps" using that assms(8) by auto
    show "chapoly_channel.sealed ?k spi (seqno_of i) (ps ! i) (?nh (ps ! i)) (ds ! i)"
      unfolding seqno_of_def using enc(3) i by blast
    show "chapoly_channel.fits (ps ! i)" using i assms(7) by (intro tunnelable_fits) simp
    show "unat (seqno_of i) - 1 = i" using unat_seqno_of [OF i assms(6)] by simp
  qed
  let ?ix = "\<lambda>w. unat w - 1"
  have "\<forall>w \<in> set (map seqno_of arrivals). chapoly_channel.sealed ?k spi w (ps ! ?ix w) (?nh (ps ! ?ix w)) (ds ! ?ix w)
      \<and> chapoly_channel.fits (ps ! ?ix w)"
    using ok by (auto simp only: set_map image_iff)
  from chapoly_channel.decrypt_all_delivers [OF chapoly_context(2) [OF assms(2)] this, where u = u and W = "wrapper_methods C S"]
  obtain rs inn' acc c where dec: "decrypt_all ?A inn (map (\<lambda>w. ds ! ?ix w) (map seqno_of arrivals)) = Some (rs, inn')"
      "delivered rs = map (\<lambda>w. ps ! ?ix w) acc"
      and run: "replay_run verify_seqno set_authenticated_seqno inn (map seqno_of arrivals) = (acc, c)"
    by (metis prod.collapse)
  obtain js where js: "acc = map seqno_of js" "subseq js arrivals" "distinct js" "sorted_wrt (<) arrivals \<longrightarrow> js = arrivals"
    by (rule arrivals_accepted [OF assms(2,8,6) run])
  have "set js \<subseteq> set arrivals" using js(2) by (auto simp only: subseq_conv_nths dest: in_set_nthsD)
  then have "delivered rs = map ((!) ps) js" unfolding dec(2) js(1) using ok(3) by auto
  moreover have "decrypt_all ?A inn (map ((!) ds) arrivals) = Some (rs, inn')" using dec(1) ok(3) by (simp cong: map_cong)
  ultimately show ?thesis using enc(1) js(2-4) by blast
qed

definition demo_packet :: ip_packet where
  "demo_packet = \<lparr>ip_src = \<lparr>sa_family = AF_INET, sin_addr = [10, 0, 0, 1], sin_port = htons 53\<rparr>,
      ip_dst = \<lparr>sa_family = AF_INET, sin_addr = [10, 0, 0, 2], sin_port = htons 99\<rparr>,
      ip_packet = demo_udp, ip_payload = drop 20 demo_udp, ip_version = 4, ip_next_header = 17\<rparr>"

lemma demo_tunnelable: "tunnelable demo_packet"
proof -
  have "ip_packet_create demo_udp = Some demo_packet"
    by (simp add: ip_packet_create_def ip_packet_create_v4_def demo_udp_def demo_packet_def Let_def untoh16_def
      parse_transport_header_def chunk_skip_def host_create_from_chunk_def)
  then show ?thesis by (simp add: tunnelable_def demo_packet_def) (simp add: demo_udp_def)
qed

theorem esp_tunnel_exactly_once_witness:
  "\<exists>out inn ds out' rs inn' js. demo_context (replicate 36 7) False = Some out \<and> demo_context (replicate 36 7) True = Some inn
    \<and> encrypt_all (chapoly_aeads [] (wrapper_methods no_crypter no_signer)) constant_rng (\<lambda>i. 0) 1 out
      (map (\<lambda>p. esp_packet_create_from_payload (demo_host 1 4500) (demo_host 2 4500) (Some p)) [demo_packet, demo_packet])
      = (map (Pair SUCCESS) ds, out')
    \<and> decrypt_all (chapoly_aeads [] (wrapper_methods no_crypter no_signer)) inn (map ((!) ds) [0, 1]) = Some (rs, inn')
    \<and> delivered rs = [demo_packet, demo_packet]"
proof -
  obtain out inn where c: "demo_context (replicate 36 7) False = Some out" "demo_context (replicate 36 7) True = Some inn"
    by (metis demo_context_created length_replicate)
  have "fst (get_bytes constant_rng () 8) = Some (replicate 8 7)" by (simp add: constant_rng_def)
  from esp_tunnel_exactly_once [OF c(1) [unfolded demo_context_def] c(2) [unfolded demo_context_def] refl this, of "[demo_packet, demo_packet]" "[0, 1]" "\<lambda>i. 0" 1 "demo_host 1 4500" "demo_host 2 4500"]
  obtain ds out' rs inn' js where
    "encrypt_all (chapoly_aeads [] (wrapper_methods no_crypter no_signer)) constant_rng (\<lambda>i. 0) 1 out
      (map (\<lambda>p. esp_packet_create_from_payload (demo_host 1 4500) (demo_host 2 4500) (Some p)) [demo_packet, demo_packet])
      = (map (Pair SUCCESS) ds, out')"
    "decrypt_all (chapoly_aeads [] (wrapper_methods no_crypter no_signer)) inn (map ((!) ds) [0, 1]) = Some (rs, inn')"
    "delivered rs = map ((!) [demo_packet, demo_packet]) js" "js = [0, 1]"
    using demo_tunnelable by auto
  then show ?thesis using c by auto
qed

text \<open>The contexts a receiver can be in: created, then given any earlier arrivals.\<close>

definition receiver_state where
  "receiver_state u C S R rngs key ia ik earlier ctx \<longleftrightarrow>
     (\<exists>inn rs. esp_context_create (chapoly_methods portable_drv u) C S R (chapoly_factory R rngs)
        ENCR_CHACHA20_POLY1305 key ia ik True = Some inn
      \<and> (\<forall>d \<in> set earlier. length d < 2 ^ 32)
      \<and> decrypt_all (chapoly_aeads u (wrapper_methods C S)) inn earlier = Some (rs, ctx))"

lemma receiver_keyed:
  assumes "receiver_state u C S R rngs key ia ik earlier ctx"
  shows "plugin_keyed (\<lambda>this K. portable_keyed (chapoly_drv this) K) (aead ctx) (chapoly_key key)"
proof -
  obtain inn rs where i: "esp_context_create (chapoly_methods portable_drv u) C S R (chapoly_factory R rngs)
        ENCR_CHACHA20_POLY1305 key ia ik True = Some inn" "\<forall>d \<in> set earlier. length d < 2 ^ 32"
      "decrypt_all (chapoly_aeads u (wrapper_methods C S)) inn earlier = Some (rs, ctx)"
    using assms by (auto simp: receiver_state_def)
  show ?thesis by (rule chapoly_channel.decrypt_all_keyed [OF chapoly_context(2) [OF i(1)] i(2,3)])
qed

text \<open>
  C4: ESP decapsulation is authentic. Whatever data arrives, and whatever arrived before, if
  \<open>decrypt\<close> on a ChaCha20-Poly1305 context reports success then the data is exactly the
  encapsulation, under the key of the context, of the packet returned, with a sequence number the
  anti-replay window admitted and that is then recorded.
\<close>

theorem esp_decrypt_authentic:
  assumes "receiver_state u C S R rngs key ia ik earlier ctx" and "length data < 2 ^ 32"
    and "esp_decrypt (chapoly_aeads u (wrapper_methods C S)) (received data) ctx = Some (SUCCESS, e, ctx')"
  shows "\<exists>spi q iv payload n nh p.
    data = esp_wire (chacha20_poly1305_seal (chapoly_key key)) spi q iv (esp_plain payload n nh)
    \<and> length iv = 8 \<and> verify_seqno ctx q \<and> ip_packet_create payload = Some p \<and> ep_payload e = Some p
    \<and> ep_next_header e = nh \<and> ctx' = (set_authenticated_seqno ctx q)\<lparr>aead := aead ctx'\<rparr>"
  using chapoly_channel.decrypt_authentic [OF receiver_keyed [OF assms(1)] _ assms(3)] assms(2) by fastforce

text \<open>A concrete receiver that accepts a concrete packet.\<close>

lemma demo_accepts:
  obtains ctx data e ctx' where
    "receiver_state [] no_crypter no_signer constant_rng (\<lambda>q. Some ()) (replicate 36 7) 0 [] [] ctx"
    and "length data < 2 ^ 32"
    and "esp_decrypt (chapoly_aeads [] (wrapper_methods no_crypter no_signer)) (received data) ctx = Some (SUCCESS, e, ctx')"
proof -
  let ?A = "chapoly_aeads [] (wrapper_methods no_crypter no_signer)"
  obtain inn where c: "demo_context (replicate 36 7) True = Some inn"
    by (metis demo_context_created length_replicate)
  note c' = c [unfolded demo_context_def]
  let ?d = "esp_wire (chacha20_poly1305_seal (chapoly_key (replicate 36 7))) 1 1 (replicate 8 0)
    (esp_plain (ip_packet demo_packet) (esp_padding_len (length (ip_packet demo_packet) + 2) 8 1) 4)"
  have r: "receiver_state [] no_crypter no_signer constant_rng (\<lambda>q. Some ()) (replicate 36 7) 0 [] [] inn"
    using c' by (simp add: receiver_state_def)
  note k = receiver_keyed [OF r]
  have s: "chapoly_channel.sealed (chapoly_key (replicate 36 7)) 1 1 demo_packet 4 (get_data (ep_packet (received ?d)))"
    unfolding chapoly_channel.sealed_def get_data_received by (intro exI conjI) (rule length_replicate, rule refl)
  have v: "verify_seqno inn 1" using created_fields(1,3) [OF c'] by (simp add: verify_seqno_def)
  have "length (ip_packet demo_packet) = 29" by (simp add: demo_packet_def demo_udp_def)
  then have len: "length ?d < 2 ^ 32"
    using esp_padding_len_dvd(3) [of 1 8 "length (ip_packet demo_packet) + 2"]
      chapoly_channel.seal_length [OF k, of "replicate 8 0"]
    by (simp add: esp_wire_parts(6) [of _ 8] esp_plain_def)
  show ?thesis
    by (rule chapoly_channel.decrypt_opens [OF k tunnelable_fits [OF demo_tunnelable] s, where u = "[]" and W = "wrapper_methods no_crypter no_signer"])
      (rule that [OF r len], use v in simp)
qed

theorem esp_decrypt_authentic_witness:
  "\<exists>ctx data e ctx'. receiver_state [] no_crypter no_signer constant_rng (\<lambda>q. Some ()) (replicate 36 7) 0 [] [] ctx
    \<and> esp_decrypt (chapoly_aeads [] (wrapper_methods no_crypter no_signer)) (received data) ctx = Some (SUCCESS, e, ctx')
    \<and> (\<exists>spi q iv payload n nh p.
      data = esp_wire (chacha20_poly1305_seal (chapoly_key (replicate 36 7))) spi q iv (esp_plain payload n nh)
      \<and> length iv = 8 \<and> verify_seqno ctx q \<and> ip_packet_create payload = Some p \<and> ep_payload e = Some p
      \<and> ep_next_header e = nh \<and> ctx' = (set_authenticated_seqno ctx q)\<lparr>aead := aead ctx'\<rparr>)"
proof -
  obtain ctx data e ctx' where
    d: "receiver_state [] no_crypter no_signer constant_rng (\<lambda>q. Some ()) (replicate 36 7) 0 [] [] ctx"
    "length data < 2 ^ 32"
    "esp_decrypt (chapoly_aeads [] (wrapper_methods no_crypter no_signer)) (received data) ctx = Some (SUCCESS, e, ctx')"
    by (rule demo_accepts)
  from d(1,3) esp_decrypt_authentic [OF d] show ?thesis by blast
qed

text \<open>
  C28: A forged packet changes nothing. If no plain text seals to the received data under the key,
  \<open>decrypt\<close> does not report success, no payload is handed out, and the sequence number window is
  as it was before.
\<close>

theorem esp_decrypt_forged:
  assumes "receiver_state u C S R rngs key ia ik earlier ctx" and "length data < 2 ^ 32"
    and "\<And>plain. drop 16 data \<noteq> chacha20_poly1305_seal (chapoly_key key) (take 8 (drop 8 data)) (take 8 data) plain"
    and "esp_decrypt (chapoly_aeads u (wrapper_methods C S)) (received data) ctx = Some (st, e, ctx')"
  shows "st \<noteq> SUCCESS \<and> ep_payload e = None \<and> ctx' = ctx\<lparr>aead := aead ctx'\<rparr>"
  using chapoly_channel.decrypt_forged [OF receiver_keyed [OF assms(1)] _ _ assms(4)] assms(2,3) by simp

theorem esp_decrypt_forged_witness:
  "\<exists>ctx st e ctx'. receiver_state [] no_crypter no_signer constant_rng (\<lambda>q. Some ()) (replicate 36 7) 0 [] [] ctx
    \<and> esp_decrypt (chapoly_aeads [] (wrapper_methods no_crypter no_signer)) (received (replicate 20 0)) ctx = Some (st, e, ctx')
    \<and> st \<noteq> SUCCESS \<and> ep_payload e = None \<and> ctx' = ctx\<lparr>aead := aead ctx'\<rparr>"
proof -
  let ?d = "replicate 20 (0 :: u8)"
  obtain ctx where r: "receiver_state [] no_crypter no_signer constant_rng (\<lambda>q. Some ()) (replicate 36 7) 0 [] [] ctx"
    by (rule demo_accepts)
  have "esp_decrypt (chapoly_aeads [] (wrapper_methods no_crypter no_signer)) (received ?d) ctx \<noteq> None"
    using chapoly_channel.decrypt_null [OF receiver_keyed [OF r], of "received ?d"] by simp
  then obtain st e ctx' where d:
      "esp_decrypt (chapoly_aeads [] (wrapper_methods no_crypter no_signer)) (received ?d) ctx = Some (st, e, ctx')"
    by auto
  have "drop 16 ?d \<noteq> chacha20_poly1305_seal (chapoly_key (replicate 36 7)) (take 8 (drop 8 ?d)) (take 8 ?d) plain" for plain
  proof
    assume "drop 16 ?d = chacha20_poly1305_seal (chapoly_key (replicate 36 7)) (take 8 (drop 8 ?d)) (take 8 ?d) plain"
    then have "length (drop 16 ?d) = length plain + 16"
      using chapoly_channel.seal_length [OF receiver_keyed [OF r], of "take 8 (drop 8 ?d)"] by simp
    then show False by simp
  qed
  from esp_decrypt_forged [OF r _ this d] r d show ?thesis by auto
qed



end
