(* ===== verification/Linked_List.thy ===== *)
theory Linked_List
  imports Prelude "HOL-Library.Monad_Syntax"
begin

text \<open>
  \<open>collections/linked_list.c\<close>: the doubly linked list with its enumerator, on a store of elements.
  Every access to an element that is not allocated (a \<open>NULL\<close> pointer or one that was freed) is
  the result \<open>None\<close>. The address \<open>malloc\<close> returns for a new element is an argument; callers
  of the lemmas choose any address not in use. A list in the store represents a sequence of
  values, and every operation is shown to do on it what it does on the sequence.
\<close>

section \<open>Elements, lists and enumerators\<close>

type_synonym addr = nat

record 'v element =
  el_value :: 'v
  el_previous :: "addr option"
  el_next :: "addr option"

type_synonym 'v store = "addr \<rightharpoonup> 'v element"

record linked_list =
  ll_count :: int
  ll_first :: "addr option"
  ll_last :: "addr option"

record list_enumerator =
  en_current :: "addr option"
  en_finished :: bool

definition deref :: "'v store \<Rightarrow> addr option \<Rightarrow> (addr \<times> 'v element) option" where
  "deref h p = do {a \<leftarrow> p; e \<leftarrow> h a; Some (a, e)}"

definition element_create :: "'v \<Rightarrow> 'v element" where
  "element_create v = \<lparr>el_value = v, el_previous = None, el_next = None\<rparr>"

definition linked_list_create :: linked_list where
  "linked_list_create = \<lparr>ll_count = 0, ll_first = None, ll_last = None\<rparr>"

definition create_enumerator :: list_enumerator where
  "create_enumerator = \<lparr>en_current = None, en_finished = False\<rparr>"

definition reset_enumerator :: "list_enumerator \<Rightarrow> list_enumerator" where
  "reset_enumerator this = this\<lparr>en_current := None, en_finished := False\<rparr>"

section \<open>Operations\<close>

text \<open>\<open>enumerate\<close> returns the value of the next element, or nothing at the end.\<close>

definition enumerate_list ::
  "'v store \<times> linked_list \<Rightarrow> list_enumerator \<Rightarrow> ('v option \<times> list_enumerator) option" where
  "enumerate_list st this =
     (case st of (h, l) \<Rightarrow>
      if en_finished this then Some (None, this)
      else do {
        this \<leftarrow> (case en_current this of
            None \<Rightarrow> Some (this\<lparr>en_current := ll_first l\<rparr>)
          | Some a \<Rightarrow> do {e \<leftarrow> h a; Some (this\<lparr>en_current := el_next e\<rparr>)});
        case en_current this of
          None \<Rightarrow> Some (None, this\<lparr>en_finished := True\<rparr>)
        | Some a \<Rightarrow> do {e \<leftarrow> h a; Some (Some (el_value e), this)}})"

definition insert_first :: "addr \<Rightarrow> 'v \<Rightarrow> 'v store \<times> linked_list \<Rightarrow> ('v store \<times> linked_list) option" where
  "insert_first a v st =
     (case st of (h, l) \<Rightarrow>
      let h = h(a \<mapsto> element_create v)
      in if ll_count l = 0
         then Some (h, l\<lparr>ll_first := Some a, ll_last := Some a, ll_count := ll_count l + 1\<rparr>)
         else do {
           e \<leftarrow> h a; let h = h(a \<mapsto> e\<lparr>el_next := ll_first l\<rparr>);
           (f, e) \<leftarrow> deref h (ll_first l); let h = h(f \<mapsto> e\<lparr>el_previous := Some a\<rparr>);
           Some (h, l\<lparr>ll_first := Some a, ll_count := ll_count l + 1\<rparr>)})"

definition insert_last :: "addr \<Rightarrow> 'v \<Rightarrow> 'v store \<times> linked_list \<Rightarrow> ('v store \<times> linked_list) option" where
  "insert_last a v st =
     (case st of (h, l) \<Rightarrow>
      let h = h(a \<mapsto> element_create v)
      in if ll_count l = 0
         then Some (h, l\<lparr>ll_first := Some a, ll_last := Some a, ll_count := ll_count l + 1\<rparr>)
         else do {
           e \<leftarrow> h a; let h = h(a \<mapsto> e\<lparr>el_previous := ll_last l\<rparr>);
           (f, e) \<leftarrow> deref h (ll_last l); let h = h(f \<mapsto> e\<lparr>el_next := Some a\<rparr>);
           Some (h, l\<lparr>ll_last := Some a, ll_count := ll_count l + 1\<rparr>)})"

text \<open>Unlink an element and free it; the address of the following element is returned.\<close>

definition remove_element ::
  "'v store \<times> linked_list \<Rightarrow> addr \<Rightarrow> (addr option \<times> 'v store \<times> linked_list) option" where
  "remove_element st a =
     (case st of (h, l) \<Rightarrow> do {
        e \<leftarrow> h a;
        let next = el_next e; let previous = el_previous e;
        let h = h(a := None);
        (h, l) \<leftarrow> (case next of
            Some n \<Rightarrow> do {e \<leftarrow> h n; Some (h(n \<mapsto> e\<lparr>el_previous := previous\<rparr>), l)}
          | None \<Rightarrow> Some (h, l\<lparr>ll_last := previous\<rparr>));
        (h, l) \<leftarrow> (case previous of
            Some p \<Rightarrow> do {e \<leftarrow> h p; Some (h(p \<mapsto> e\<lparr>el_next := next\<rparr>), l)}
          | None \<Rightarrow> Some (h, l\<lparr>ll_first := next\<rparr>));
        let l = l\<lparr>ll_count := ll_count l - 1\<rparr>;
        let l = (if ll_count l = 0 then l\<lparr>ll_first := None, ll_last := None\<rparr> else l);
        Some (next, h, l)})"

definition get_first :: "'v store \<times> linked_list \<Rightarrow> 'v option option" where
  "get_first st = (case st of (h, l) \<Rightarrow>
     if ll_count l = 0 then Some None else do {(a, e) \<leftarrow> deref h (ll_first l); Some (Some (el_value e))})"

definition get_last :: "'v store \<times> linked_list \<Rightarrow> 'v option option" where
  "get_last st = (case st of (h, l) \<Rightarrow>
     if ll_count l = 0 then Some None else do {(a, e) \<leftarrow> deref h (ll_last l); Some (Some (el_value e))})"

definition remove_first :: "'v store \<times> linked_list \<Rightarrow> ('v option \<times> 'v store \<times> linked_list) option" where
  "remove_first st = do {
     v \<leftarrow> get_first st;
     case v of
       None \<Rightarrow> Some (None, st)
     | Some v \<Rightarrow> do {(a, e) \<leftarrow> deref (fst st) (ll_first (snd st)); (_, st) \<leftarrow> remove_element st a; Some (Some v, st)}}"

definition remove_last :: "'v store \<times> linked_list \<Rightarrow> ('v option \<times> 'v store \<times> linked_list) option" where
  "remove_last st = do {
     v \<leftarrow> get_last st;
     case v of
       None \<Rightarrow> Some (None, st)
     | Some v \<Rightarrow> do {(a, e) \<leftarrow> deref (fst st) (ll_last (snd st)); (_, st) \<leftarrow> remove_element st a; Some (Some v, st)}}"

definition insert_before ::
  "addr \<Rightarrow> list_enumerator \<Rightarrow> 'v \<Rightarrow> 'v store \<times> linked_list \<Rightarrow> ('v store \<times> linked_list) option" where
  "insert_before a en v st =
     (case en_current en of
        None \<Rightarrow> if en_finished en then insert_last a v st else insert_first a v st
      | Some c \<Rightarrow>
          (case st of (h, l) \<Rightarrow> do {
             let h = h(a \<mapsto> element_create v);
             ec \<leftarrow> h c;
             case el_previous ec of
               Some p \<Rightarrow> do {
                 ep \<leftarrow> h p; let h = h(p \<mapsto> ep\<lparr>el_next := Some a\<rparr>);
                 e \<leftarrow> h a; let h = h(a \<mapsto> e\<lparr>el_previous := Some p\<rparr>);
                 ec \<leftarrow> h c; let h = h(c \<mapsto> ec\<lparr>el_previous := Some a\<rparr>);
                 e \<leftarrow> h a; let h = h(a \<mapsto> e\<lparr>el_next := Some c\<rparr>);
                 Some (h, l\<lparr>ll_count := ll_count l + 1\<rparr>)}
             | None \<Rightarrow> do {
                 let h = h(c \<mapsto> ec\<lparr>el_previous := Some a\<rparr>);
                 e \<leftarrow> h a; let h = h(a \<mapsto> e\<lparr>el_next := Some c\<rparr>);
                 Some (h, l\<lparr>ll_first := Some a, ll_count := ll_count l + 1\<rparr>)}}))"

definition remove_at ::
  "list_enumerator \<Rightarrow> 'v store \<times> linked_list \<Rightarrow> (list_enumerator \<times> 'v store \<times> linked_list) option" where
  "remove_at en st =
     (case en_current en of
        None \<Rightarrow> Some (en, st)
      | Some c \<Rightarrow> do {
          e \<leftarrow> fst st c;
          let en = en\<lparr>en_current := el_previous e\<rparr>;
          (_, st) \<leftarrow> remove_element st c;
          Some (en, st)})"

text \<open>
  The loops over the elements follow \<open>next\<close> pointers; \<open>fuel\<close> bounds the number of elements
  visited. \<open>remove\<close> compares with \<open>compare\<close>, or by pointer when it is \<open>NULL\<close>.
\<close>

fun remove_loop ::
  "nat \<Rightarrow> ('v \<Rightarrow> bool) \<Rightarrow> addr option \<Rightarrow> 'v store \<times> linked_list \<Rightarrow> int \<Rightarrow> (int \<times> 'v store \<times> linked_list) option" where
  "remove_loop fuel P None st removed = Some (removed, st)"
| "remove_loop 0 P (Some a) st removed = None"
| "remove_loop (Suc fuel) P (Some a) st removed = do {
     e \<leftarrow> fst st a;
     if P (el_value e) then do {
       (next, st) \<leftarrow> remove_element st a;
       remove_loop fuel P next st (removed + 1)}
     else remove_loop fuel P (el_next e) st removed}"

definition remove_items ::
  "nat \<Rightarrow> 'v \<Rightarrow> ('v \<Rightarrow> 'v \<Rightarrow> bool) option \<Rightarrow> 'v store \<times> linked_list \<Rightarrow> (int \<times> 'v store \<times> linked_list) option" where
  "remove_items fuel item compare st =
     remove_loop fuel (\<lambda>value. case compare of Some c \<Rightarrow> c value item | None \<Rightarrow> value = item)
       (ll_first (snd st)) st 0"

text \<open>
  \<open>find_first\<close>: \<open>item\<close> is \<open>None\<close> for a \<open>NULL\<close> argument, and otherwise what \<open>*item\<close> holds; the
  result is the return value and the \<open>*item\<close> left behind.
\<close>

fun find_loop :: "nat \<Rightarrow> ('v \<Rightarrow> bool) \<Rightarrow> addr option \<Rightarrow> 'v store \<Rightarrow> 'v option option" where
  "find_loop fuel P None h = Some None"
| "find_loop 0 P (Some a) h = None"
| "find_loop (Suc fuel) P (Some a) h = do {
     e \<leftarrow> h a;
     if P (el_value e) then Some (Some (el_value e)) else find_loop fuel P (el_next e) h}"

definition find_first ::
  "nat \<Rightarrow> ('v \<Rightarrow> bool) option \<Rightarrow> 'v option \<Rightarrow> 'v store \<times> linked_list \<Rightarrow> (bool \<times> 'v option) option" where
  "find_first fuel match item st =
     (if match = None \<and> item = None then Some (False, item)
      else do {
        found \<leftarrow> find_loop fuel (\<lambda>value. case match of Some m \<Rightarrow> m value | None \<Rightarrow> Some value = item)
          (ll_first (snd st)) (fst st);
        Some (case found of None \<Rightarrow> (False, item)
          | Some v \<Rightarrow> (True, map_option (\<lambda>_. v) item))})"

text \<open>\<open>invoke_function\<close>: the function, with its effect on the state \<open>s\<close>, on every value in turn.\<close>

fun invoke_loop :: "nat \<Rightarrow> ('v \<Rightarrow> 's \<Rightarrow> 's) \<Rightarrow> addr option \<Rightarrow> 'v store \<Rightarrow> 's \<Rightarrow> 's option" where
  "invoke_loop fuel f None h s = Some s"
| "invoke_loop 0 f (Some a) h s = None"
| "invoke_loop (Suc fuel) f (Some a) h s = do {
     e \<leftarrow> h a; invoke_loop fuel f (el_next e) h (f (el_value e) s)}"

definition invoke_function ::
  "nat \<Rightarrow> ('v \<Rightarrow> 's \<Rightarrow> 's) \<Rightarrow> 'v store \<times> linked_list \<Rightarrow> 's \<Rightarrow> 's option" where
  "invoke_function fuel f st s = invoke_loop fuel f (ll_first (snd st)) (fst st) s"

fun equals_loop ::
  "nat \<Rightarrow> ('v \<Rightarrow> 'v \<Rightarrow> bool) \<Rightarrow> addr option \<Rightarrow> addr option \<Rightarrow> 'v store \<Rightarrow> bool option" where
  "equals_loop fuel f None cur_o h = Some True"
| "equals_loop fuel f (Some a) None h = Some True"
| "equals_loop 0 f (Some a) (Some b) h = None"
| "equals_loop (Suc fuel) f (Some a) (Some b) h = do {
     ea \<leftarrow> h a; eb \<leftarrow> h b;
     if \<not> f (el_value ea) (el_value eb) then Some False
     else equals_loop fuel f (el_next ea) (el_next eb) h}"

definition equals_function ::
  "nat \<Rightarrow> ('v \<Rightarrow> 'v \<Rightarrow> bool) \<Rightarrow> 'v store \<Rightarrow> linked_list \<Rightarrow> linked_list \<Rightarrow> bool option" where
  "equals_function fuel f h this other =
     (if ll_count this \<noteq> ll_count other then Some False
      else equals_loop fuel f (ll_first this) (ll_first other) h)"

text \<open>\<open>destroy\<close> removes first elements until none is left.\<close>

fun destroy_list :: "nat \<Rightarrow> 'v store \<times> linked_list \<Rightarrow> 'v store option" where
  "destroy_list 0 st = None"
| "destroy_list (Suc fuel) st = do {
     (v, st') \<leftarrow> remove_first st;
     if v = None then Some (fst st') else destroy_list fuel st'}"

text \<open>\<open>destroy_function\<close> frees the elements along the \<open>next\<close> pointers, after calling the function.\<close>

fun destroy_loop ::
  "nat \<Rightarrow> ('v \<Rightarrow> 's \<Rightarrow> 's) \<Rightarrow> addr option \<Rightarrow> 'v store \<Rightarrow> 's \<Rightarrow> ('v store \<times> 's) option" where
  "destroy_loop fuel f None h s = Some (h, s)"
| "destroy_loop 0 f (Some a) h s = None"
| "destroy_loop (Suc fuel) f (Some a) h s = do {
     e \<leftarrow> h a; destroy_loop fuel f (el_next e) (h(a := None)) (f (el_value e) s)}"

definition destroy_function ::
  "nat \<Rightarrow> ('v \<Rightarrow> 's \<Rightarrow> 's) \<Rightarrow> 'v store \<times> linked_list \<Rightarrow> 's \<Rightarrow> ('v store \<times> 's) option" where
  "destroy_function fuel f st s = destroy_loop fuel f (ll_first (snd st)) (fst st) s"

section \<open>The sequence a list represents\<close>

text \<open>
  A segment of elements: from address \<open>s\<close>, whose element points back to \<open>p\<close>, over the addresses and
  values \<open>xs\<close>, the last of which points on to \<open>t\<close>.
\<close>

fun dseg :: "'v store \<Rightarrow> addr option \<Rightarrow> addr option \<Rightarrow> (addr \<times> 'v) list \<Rightarrow> addr option \<Rightarrow> bool" where
  "dseg h p s [] t = (s = t)"
| "dseg h p s ((a, v) # xs) t =
     (s = Some a \<and> (case h a of None \<Rightarrow> False
       | Some e \<Rightarrow> el_value e = v \<and> el_previous e = p \<and> dseg h (Some a) (el_next e) xs t))"

definition end_of :: "addr option \<Rightarrow> (addr \<times> 'v) list \<Rightarrow> addr option" where
  "end_of p xs = (if xs = [] then p else Some (fst (last xs)))"

definition start_of :: "(addr \<times> 'v) list \<Rightarrow> addr option \<Rightarrow> addr option" where
  "start_of xs t = (case xs of [] \<Rightarrow> t | x # _ \<Rightarrow> Some (fst x))"

definition represents :: "'v store \<times> linked_list \<Rightarrow> (addr \<times> 'v) list \<Rightarrow> bool" where
  "represents st xs \<longleftrightarrow>
     dseg (fst st) None (ll_first (snd st)) xs None \<and> distinct (map fst xs) \<and>
     ll_last (snd st) = end_of None xs \<and> ll_count (snd st) = int (length xs)"

text \<open>Stores that agree on all addresses outside a set.\<close>

definition same_off :: "addr set \<Rightarrow> 'v store \<Rightarrow> 'v store \<Rightarrow> bool" where
  "same_off S h h' \<longleftrightarrow> (\<forall>b. b \<notin> S \<longrightarrow> h' b = h b)"

lemma end_of_simps [simp]:
  "end_of p [] = p" "end_of p (xs @ [(a, v)]) = Some a" "end_of p ((a, v) # xs) = end_of (Some a) xs"
  by (auto simp: end_of_def)

lemma end_of_append [simp]: "end_of p (xs @ ys) = end_of (end_of p xs) ys"
  by (simp add: end_of_def)

lemma start_of_simps [simp]: "start_of [] t = t" "start_of ((a, v) # xs) t = Some a"
  by (simp_all add: start_of_def)

lemma dseg_start: "dseg h p s xs t \<Longrightarrow> s = start_of xs t"
  by (cases xs) auto

lemma dseg_append [simp]:
  "dseg h p s (xs @ ys) t \<longleftrightarrow> dseg h p s xs (start_of ys t) \<and> dseg h (end_of p xs) (start_of ys t) ys t"
proof (induction xs arbitrary: p s)
  case Nil
  then show ?case using dseg_start [of h p s ys t] by auto
next
  case (Cons x xs)
  then show ?case by (cases x) (auto split: option.splits)
qed

lemma dseg_frame [simp]:
  "a \<notin> fst ` set xs \<Longrightarrow> dseg (h(a := e)) p s xs t = dseg h p s xs t"
proof (induction xs arbitrary: p s)
  case (Cons x xs)
  then show ?case by (cases x) (auto split: option.splits)
qed simp

lemma dseg_alloc: "dseg h p s xs t \<Longrightarrow> x \<in> fst ` set xs \<Longrightarrow> h x \<noteq> None"
proof (induction xs arbitrary: p s)
  case (Cons x xs)
  then show ?case by (cases x) (auto split: option.splits)
qed simp

lemma dseg_fresh: "dseg h p s xs t \<Longrightarrow> h a = None \<Longrightarrow> a \<notin> fst ` set xs"
  using dseg_alloc by metis

text \<open>Redirecting the pointers at the ends of a segment.\<close>

lemma dseg_Cons_prev:
  assumes "dseg h p s ((a, v) # xs) t" "a \<notin> fst ` set xs"
  shows "\<exists>e. h a = Some e \<and> dseg (h(a \<mapsto> e\<lparr>el_previous := q\<rparr>)) q s ((a, v) # xs) t"
  using assms by (auto split: option.splits)

lemma dseg_snoc_next:
  assumes "dseg h p s (xs @ [(a, v)]) t" "a \<notin> fst ` set xs"
  shows "\<exists>e. h a = Some e \<and> dseg (h(a \<mapsto> e\<lparr>el_next := u\<rparr>)) p s (xs @ [(a, v)]) u"
  using assms by (auto split: option.splits)

lemma same_off_trans:
  "same_off S h h' \<Longrightarrow> same_off S h' h'' \<Longrightarrow> same_off S h h''"
  by (simp add: same_off_def)

lemma same_off_upd [simp]: "a \<in> S \<Longrightarrow> same_off S h (h'(a := e)) \<longleftrightarrow> same_off S h h'"
  by (auto simp: same_off_def)

lemma same_off_refl [simp]: "same_off S h h"
  by (simp add: same_off_def)

lemma represents_create [simp]: "represents (h, linked_list_create) []"
  by (simp add: represents_def linked_list_create_def)

lemma represents_fresh: "represents (h, l) xs \<Longrightarrow> h a = None \<Longrightarrow> a \<notin> fst ` set xs"
  by (auto simp: represents_def dest: dseg_fresh)

section \<open>What the operations do on the sequence\<close>

lemma insert_first_represents:
  assumes r: "represents (h, l) xs" and a: "h a = None"
  shows "\<exists>h' l'. insert_first a v (h, l) = Some (h', l') \<and> represents (h', l') ((a, v) # xs) \<and>
           same_off (insert a (fst ` set xs)) h h'"
proof (cases xs)
  case Nil
  then show ?thesis
    using r by (auto simp: represents_def insert_first_def element_create_def Let_def)
next
  case (Cons x ys)
  obtain b w where x: "x = (b, w)" by (cases x)
  have ab: "a \<notin> fst ` set xs"
    using represents_fresh [OF r a] .
  show ?thesis
    using r ab unfolding Cons x
    by (auto simp: represents_def insert_first_def element_create_def Let_def deref_def
        split: option.split_asm)
qed

lemma insert_last_represents:
  assumes r: "represents (h, l) xs" and a: "h a = None"
  shows "\<exists>h' l'. insert_last a v (h, l) = Some (h', l') \<and> represents (h', l') (xs @ [(a, v)]) \<and>
           same_off (insert a (fst ` set xs)) h h'"
proof (cases xs rule: rev_cases)
  case Nil
  then show ?thesis
    using r by (auto simp: represents_def insert_last_def element_create_def Let_def)
next
  case (snoc ys x)
  obtain b w where x: "x = (b, w)" by (cases x)
  have ab: "a \<notin> fst ` set xs"
    using represents_fresh [OF r a] .
  show ?thesis
    using r ab unfolding snoc x
    by (auto simp: represents_def insert_last_def element_create_def Let_def deref_def
        split: option.split_asm)
qed

lemma remove_element_represents:
  assumes r: "represents (h, l) (xs @ (a, v) # ys)"
  shows "\<exists>h' l'. remove_element (h, l) a = Some (start_of ys None, h', l') \<and>
           represents (h', l') (xs @ ys) \<and> h' a = None \<and> same_off (fst ` set (xs @ (a, v) # ys)) h h'"
proof (cases xs rule: rev_cases)
  case Nil
  note xs = Nil
  show ?thesis
  proof (cases ys)
    case Nil
    then show ?thesis
      using r xs by (auto simp: represents_def remove_element_def Let_def split: option.split_asm)
  next
    case (Cons y zs)
    obtain b w where y: "y = (b, w)" by (cases y)
    show ?thesis
      using r unfolding xs Cons y
      by (auto simp: represents_def remove_element_def Let_def split: option.split_asm)
  qed
next
  case (snoc us x)
  obtain c u where x: "x = (c, u)" by (cases x)
  note xs = snoc x
  show ?thesis
  proof (cases ys)
    case Nil
    show ?thesis
      using r unfolding xs Nil
      by (auto simp: represents_def remove_element_def Let_def split: option.split_asm)
  next
    case (Cons y zs)
    obtain b w where y: "y = (b, w)" by (cases y)
    show ?thesis
      using r unfolding xs Cons y
      by (auto simp: represents_def remove_element_def Let_def split: option.split_asm)
  qed
qed


lemma get_first_represents:
  "represents (h, l) xs \<Longrightarrow> get_first (h, l) = Some (map_option snd (case xs of [] \<Rightarrow> None | x # _ \<Rightarrow> Some x))"
  by (cases xs) (auto simp: represents_def get_first_def deref_def split: option.split_asm)

lemma get_last_represents:
  "represents (h, l) xs \<Longrightarrow> get_last (h, l) = Some (if xs = [] then None else Some (snd (last xs)))"
  by (cases xs rule: rev_cases)
    (auto simp: represents_def get_last_def deref_def split: option.split_asm)

lemma remove_first_represents:
  assumes r: "represents (h, l) ((a, v) # xs)"
  shows "\<exists>h' l'. remove_first (h, l) = Some (Some v, h', l') \<and> represents (h', l') xs \<and> h' a = None \<and>
           same_off (fst ` set ((a, v) # xs)) h h'"
proof -
  obtain e where "h a = Some e" "ll_first l = Some a"
    using r by (auto simp: represents_def split: option.split_asm)
  then show ?thesis
    using remove_element_represents [of h l "[]" a v xs] r get_first_represents [OF r]
    by (auto simp: remove_first_def deref_def)
qed

lemma remove_last_represents:
  assumes r: "represents (h, l) (xs @ [(a, v)])"
  shows "\<exists>h' l'. remove_last (h, l) = Some (Some v, h', l') \<and> represents (h', l') xs \<and> h' a = None \<and>
           same_off (fst ` set (xs @ [(a, v)])) h h'"
proof -
  obtain e where "h a = Some e" "ll_last l = Some a"
    using r by (auto simp: represents_def split: option.split_asm)
  then show ?thesis
    using remove_element_represents [of h l xs a v "[]"] r get_last_represents [OF r]
    by (auto simp: remove_last_def deref_def)
qed

lemma remove_empty:
  "represents (h, l) [] \<Longrightarrow> remove_first (h, l) = Some (None, h, l)"
  "represents (h, l) [] \<Longrightarrow> remove_last (h, l) = Some (None, h, l)"
  by (auto simp: represents_def remove_first_def remove_last_def get_first_def get_last_def)

lemma insert_before_represents:
  assumes r: "represents (h, l) (xs @ (c, w) # ys)" and a: "h a = None" and en: "en_current en = Some c"
  shows "\<exists>h' l'. insert_before a en v (h, l) = Some (h', l') \<and>
           represents (h', l') (xs @ (a, v) # (c, w) # ys) \<and>
           same_off (insert a (fst ` set (xs @ (c, w) # ys))) h h'"
proof -
  have fresh: "a \<notin> fst ` set (xs @ (c, w) # ys)"
    using represents_fresh [OF r a] .
  show ?thesis
  proof (cases xs rule: rev_cases)
    case Nil
    show ?thesis
      using r fresh en unfolding Nil
      by (auto simp: represents_def insert_before_def element_create_def Let_def
          split: option.split_asm)
  next
    case (snoc us x)
    obtain p u where x: "x = (p, u)" by (cases x)
    show ?thesis
      using r fresh en unfolding snoc x
      by (auto simp: represents_def insert_before_def element_create_def Let_def image_Un
          split: option.split_asm)
  qed
qed

lemma remove_at_represents:
  assumes r: "represents (h, l) (xs @ (c, w) # ys)" and en: "en_current en = Some c"
  shows "\<exists>h' l'. remove_at en (h, l) = Some (en\<lparr>en_current := end_of None xs\<rparr>, h', l') \<and>
           represents (h', l') (xs @ ys) \<and> h' c = None \<and> same_off (fst ` set (xs @ (c, w) # ys)) h h'"
proof -
  obtain e where "h c = Some e" "el_previous e = end_of None xs"
    using r by (auto simp: represents_def split: option.split_asm)
  then show ?thesis
    using remove_element_represents [OF r] en by (auto simp: remove_at_def)
qed

lemma enumerate_represents:
  assumes r: "represents (h, l) (xs @ ys)" and en: "en_current en = end_of None xs" "\<not> en_finished en"
  shows "enumerate_list (h, l) en =
           (case ys of [] \<Rightarrow> Some (None, en\<lparr>en_current := None, en_finished := True\<rparr>)
            | (a, v) # zs \<Rightarrow> Some (Some v, en\<lparr>en_current := Some a\<rparr>))"
proof (cases xs rule: rev_cases)
  case Nil
  then show ?thesis
    using r en by (cases ys)
      (auto simp: represents_def enumerate_list_def split: option.split_asm)
next
  case (snoc us x)
  obtain p u where x: "x = (p, u)" by (cases x)
  then show ?thesis
    using r en unfolding snoc x by (cases ys)
      (auto simp: represents_def enumerate_list_def split: option.split_asm)
qed

text \<open>The loops end within as many rounds as there are elements.\<close>

lemma remove_loop_represents:
  assumes "represents (h, l) (xs @ ys)" "length ys \<le> fuel"
  shows "\<exists>h' l'. remove_loop fuel P (start_of ys None) (h, l) n =
             Some (n + int (length (filter (\<lambda>x. P (snd x)) ys)), h', l') \<and>
           represents (h', l') (xs @ filter (\<lambda>x. \<not> P (snd x)) ys) \<and>
           (\<forall>b \<in> fst ` set (filter (\<lambda>x. P (snd x)) ys). h' b = None) \<and> same_off (fst ` set (xs @ ys)) h h'"
  using assms
proof (induction ys arbitrary: h l xs n fuel)
  case Nil
  then show ?case by auto
next
  case (Cons y ys)
  obtain a v where y: "y = (a, v)" by (cases y)
  obtain f where fuel: "fuel = Suc f" "length ys \<le> f"
    using Cons.prems(2) by (cases fuel) auto
  obtain e where e: "h a = Some e" "el_value e = v" "el_next e = start_of ys None"
    using Cons.prems(1) y by (auto simp: represents_def dest: dseg_start split: option.split_asm)
  have dist: "distinct (map fst (xs @ (a, v) # ys))"
    using Cons.prems(1) y by (auto simp: represents_def)
  show ?case
  proof (cases "P v")
    case True
    obtain h1 l1 where s1: "remove_element (h, l) a = Some (start_of ys None, h1, l1)"
      "represents (h1, l1) (xs @ ys)" "h1 a = None" "same_off (fst ` set (xs @ (a, v) # ys)) h h1"
      using remove_element_represents [of h l xs a v ys] Cons.prems(1) y by blast
    from Cons.IH [OF s1(2) fuel(2), of "n + 1"] obtain h2 l2 where s2:
      "remove_loop f P (start_of ys None) (h1, l1) (n + 1) =
         Some (n + 1 + int (length (filter (\<lambda>x. P (snd x)) ys)), h2, l2)"
      "represents (h2, l2) (xs @ filter (\<lambda>x. \<not> P (snd x)) ys)"
      "\<forall>b \<in> fst ` set (filter (\<lambda>x. P (snd x)) ys). h2 b = None" "same_off (fst ` set (xs @ ys)) h1 h2"
      by blast
    have "h2 a = None"
      using s1(3) s2(4) dist by (auto simp: same_off_def)
    moreover have "same_off (fst ` set (xs @ (a, v) # ys)) h h2"
      using s1(4) s2(4) by (auto simp: same_off_def)
    ultimately show ?thesis
      using s1(1) s2 True e fuel y by auto
  next
    case False
    have "represents (h, l) ((xs @ [(a, v)]) @ ys)"
      using Cons.prems(1) y by simp
    from Cons.IH [OF this fuel(2), of n] show ?thesis
      using False e fuel y by auto
  qed
qed

lemma remove_items_represents:
  fixes item :: 'v and compare
  assumes "represents (h, l) xs" "length xs \<le> fuel"
  defines "P \<equiv> (\<lambda>value. case compare of Some c \<Rightarrow> c value item | None \<Rightarrow> value = item)"
  shows "\<exists>h' l'. remove_items fuel item compare (h, l) = Some (int (length (filter (\<lambda>x. P (snd x)) xs)), h', l') \<and>
           represents (h', l') (filter (\<lambda>x. \<not> P (snd x)) xs) \<and>
           (\<forall>b \<in> fst ` set (filter (\<lambda>x. P (snd x)) xs). h' b = None) \<and> same_off (fst ` set xs) h h'"
proof -
  have "ll_first l = start_of xs None"
    using assms(1) by (auto simp: represents_def dest: dseg_start)
  then show ?thesis
    using remove_loop_represents [of h l "[]" xs fuel P 0] assms(1,2)
    by (simp add: remove_items_def P_def)
qed

lemma find_loop_dseg:
  "dseg h p s xs None \<Longrightarrow> length xs \<le> fuel \<Longrightarrow> find_loop fuel P s h = Some (List.find P (map snd xs))"
proof (induction xs arbitrary: p s fuel)
  case (Cons x xs)
  then show ?case
    by (cases fuel; cases x) (auto split: option.split_asm)
qed simp

lemma find_first_represents:
  assumes "represents (h, l) xs" "length xs \<le> fuel"
  shows "find_first fuel (Some m) item (h, l) =
           Some (case List.find m (map snd xs) of None \<Rightarrow> (False, item)
                 | Some v \<Rightarrow> (True, map_option (\<lambda>_. v) item))"
    and "find_first fuel None (Some i) (h, l) = Some (i \<in> set (map snd xs), Some i)"
proof -
  have loop: "find_loop fuel P (ll_first l) h = Some (List.find P (map snd xs))" for P
    using assms find_loop_dseg by (auto simp: represents_def)
  show "find_first fuel (Some m) item (h, l) =
          Some (case List.find m (map snd xs) of None \<Rightarrow> (False, item)
                | Some v \<Rightarrow> (True, map_option (\<lambda>_. v) item))"
    by (simp add: find_first_def loop)
  have "List.find (\<lambda>value. value = i) vs = (if i \<in> set vs then Some i else None)" for vs
    by (induction vs) auto
  then show "find_first fuel None (Some i) (h, l) = Some (i \<in> set (map snd xs), Some i)"
    by (simp add: find_first_def loop)
qed

lemma invoke_function_represents:
  assumes "represents (h, l) xs" "length xs \<le> fuel"
  shows "invoke_function fuel f (h, l) s = Some (fold f (map snd xs) s)"
proof -
  have "dseg h p q xs None \<Longrightarrow> length xs \<le> fuel \<Longrightarrow> invoke_loop fuel f q h s = Some (fold f (map snd xs) s)"
    for p q
  proof (induction xs arbitrary: p q fuel s)
    case (Cons x xs)
    then show ?case by (cases fuel; cases x) (auto split: option.split_asm)
  qed simp
  from this [of None "ll_first l"] show ?thesis
    using assms by (simp add: invoke_function_def represents_def)
qed

lemma equals_loop_dseg:
  assumes "dseg h p s xs None" "dseg h p' s' ys None" "length xs = length ys" "length xs \<le> fuel"
  shows "equals_loop fuel f s s' h = Some (list_all2 f (map snd xs) (map snd ys))"
  using assms(3,1,2,4)
proof (induction xs ys arbitrary: p s p' s' fuel rule: list_induct2)
  case (Cons x xs y ys)
  then show ?case
    by (cases fuel; cases x; cases y) (auto split: option.split_asm)
qed simp

lemma equals_function_represents:
  assumes "represents (h, l) xs" "represents (h, l') ys" "length xs \<le> fuel"
  shows "equals_function fuel f h l l' = Some (list_all2 f (map snd xs) (map snd ys))"
  using assms equals_loop_dseg [of h None "ll_first l" xs None "ll_first l'" ys fuel f]
  by (auto simp: equals_function_def represents_def dest: list_all2_lengthD)

lemma destroy_list_represents:
  assumes "represents (h, l) xs" "length xs < fuel"
  shows "\<exists>h'. destroy_list fuel (h, l) = Some h' \<and> (\<forall>b \<in> fst ` set xs. h' b = None) \<and>
           same_off (fst ` set xs) h h'"
  using assms
proof (induction fuel arbitrary: h l xs)
  case (Suc fuel)
  show ?case
  proof (cases xs)
    case Nil
    then show ?thesis
      using Suc.prems remove_empty(1) [of h l] by auto
  next
    case (Cons x ys)
    obtain a v where x: "x = (a, v)" by (cases x)
    have r: "represents (h, l) ((a, v) # ys)"
      using Suc.prems Cons x by simp
    from remove_first_represents [OF r] obtain h1 l1 where s1:
      "remove_first (h, l) = Some (Some v, h1, l1)" "represents (h1, l1) ys" "h1 a = None"
      "same_off (fst ` set ((a, v) # ys)) h h1" by blast
    have "length ys < fuel"
      using Suc.prems Cons by simp
    from Suc.IH [OF s1(2) this] obtain h2 where s2: "destroy_list fuel (h1, l1) = Some h2"
      "\<forall>b \<in> fst ` set ys. h2 b = None" "same_off (fst ` set ys) h1 h2" by blast
    have "a \<notin> fst ` set ys"
      using r by (auto simp: represents_def)
    then have "h2 a = None"
      using s1(3) s2(3) by (simp add: same_off_def)
    moreover have "same_off (insert a (fst ` set ys)) h h2"
      using s1(4) s2(3) by (auto simp: same_off_def)
    ultimately show ?thesis
      using s1(1) s2 Cons x by auto
  qed
qed simp

lemma destroy_function_represents:
  assumes "represents (h, l) xs" "length xs \<le> fuel"
  shows "\<exists>h'. destroy_function fuel f (h, l) s = Some (h', fold f (map snd xs) s) \<and>
           (\<forall>b \<in> fst ` set xs. h' b = None) \<and> same_off (fst ` set xs) h h'"
proof -
  have "dseg h p q xs None \<Longrightarrow> distinct (map fst xs) \<Longrightarrow> length xs \<le> fuel \<Longrightarrow>
    destroy_loop fuel f q h s = Some (\<lambda>b. if b \<in> fst ` set xs then None else h b, fold f (map snd xs) s)"
    for p q
  proof (induction xs arbitrary: h p q fuel s)
    case (Cons x xs)
    then show ?case
      by (cases fuel; cases x) (auto simp: fun_eq_iff split: option.split_asm)
  qed simp
  then show ?thesis
    using assms by (fastforce simp: destroy_function_def represents_def same_off_def)
qed

section \<open>Sequences of operations\<close>

text \<open>
  A list with one enumerator over it, driven by a sequence of operations. \<open>malloc\<close> gives the address
  of a new element for the store at that moment.
\<close>

datatype 'v list_op =
    InsertFirst 'v | InsertLast 'v | InsertBefore 'v
  | RemoveFirst | RemoveLast | RemoveItem 'v | RemoveAt
  | FindFirst 'v | GetFirst | GetLast | GetCount
  | Enumerate | ResetEnumerator

datatype 'v list_obs = ODone | OItem "'v option" | OCount int | OFound bool

type_synonym 'v list_state = "('v store \<times> linked_list) \<times> list_enumerator"

fun exec_op :: "('v store \<Rightarrow> addr) \<Rightarrow> 'v list_op \<Rightarrow> 'v list_state \<Rightarrow> ('v list_obs \<times> 'v list_state) option" where
  "exec_op malloc (InsertFirst v) (st, en) = do {st \<leftarrow> insert_first (malloc (fst st)) v st; Some (ODone, st, en)}"
| "exec_op malloc (InsertLast v) (st, en) = do {st \<leftarrow> insert_last (malloc (fst st)) v st; Some (ODone, st, en)}"
| "exec_op malloc (InsertBefore v) (st, en) = do {st \<leftarrow> insert_before (malloc (fst st)) en v st; Some (ODone, st, en)}"
| "exec_op malloc RemoveFirst (st, en) = do {(v, st) \<leftarrow> remove_first st; Some (OItem v, st, en)}"
| "exec_op malloc RemoveLast (st, en) = do {(v, st) \<leftarrow> remove_last st; Some (OItem v, st, en)}"
| "exec_op malloc (RemoveItem v) (st, en) =
     do {(n, st) \<leftarrow> remove_items (nat (ll_count (snd st))) v None st; Some (OCount n, st, en)}"
| "exec_op malloc RemoveAt (st, en) = do {(en, st) \<leftarrow> remove_at en st; Some (ODone, st, en)}"
| "exec_op malloc (FindFirst v) (st, en) =
     do {(b, _) \<leftarrow> find_first (nat (ll_count (snd st))) None (Some v) st; Some (OFound b, st, en)}"
| "exec_op malloc GetFirst (st, en) = do {v \<leftarrow> get_first st; Some (OItem v, st, en)}"
| "exec_op malloc GetLast (st, en) = do {v \<leftarrow> get_last st; Some (OItem v, st, en)}"
| "exec_op malloc GetCount (st, en) = Some (OCount (ll_count (snd st)), st, en)"
| "exec_op malloc Enumerate (st, en) = do {(v, en) \<leftarrow> enumerate_list st en; Some (OItem v, st, en)}"
| "exec_op malloc ResetEnumerator (st, en) = Some (ODone, st, reset_enumerator en)"

text \<open>
  The same on a sequence of values and the position of the enumerator: not started, at an index, or
  finished. Removing the element the enumerator is at by anything but \<open>remove_at\<close> has no meaning.
\<close>

datatype position = Start | At nat | End

definition remove_index :: "nat \<Rightarrow> 'v list \<Rightarrow> 'v list" where
  "remove_index i vs = take i vs @ drop (Suc i) vs"

fun spec_op :: "'v list_op \<Rightarrow> 'v list \<times> position \<Rightarrow> ('v list_obs \<times> 'v list \<times> position) option" where
  "spec_op (InsertFirst v) (vs, p) = Some (ODone, v # vs, case p of At i \<Rightarrow> At (Suc i) | _ \<Rightarrow> p)"
| "spec_op (InsertLast v) (vs, p) = Some (ODone, vs @ [v], p)"
| "spec_op (InsertBefore v) (vs, p) =
     Some (case p of Start \<Rightarrow> (ODone, v # vs, Start)
       | At i \<Rightarrow> (ODone, take i vs @ v # drop i vs, At (Suc i))
       | End \<Rightarrow> (ODone, vs @ [v], End))"
| "spec_op RemoveFirst (vs, p) =
     (case vs of [] \<Rightarrow> Some (OItem None, vs, p)
      | v # ws \<Rightarrow>
          (case p of At 0 \<Rightarrow> None | At (Suc i) \<Rightarrow> Some (OItem (Some v), ws, At i)
           | _ \<Rightarrow> Some (OItem (Some v), ws, p)))"
| "spec_op RemoveLast (vs, p) =
     (if vs = [] then Some (OItem None, vs, p)
      else if p = At (length vs - 1) then None
      else Some (OItem (Some (last vs)), butlast vs, p))"
| "spec_op (RemoveItem v) (vs, p) =
     (let n = OCount (int (length (filter ((=) v) vs))); ws = filter ((\<noteq>) v) vs
      in case p of
           At i \<Rightarrow> if vs ! i = v then None else Some (n, ws, At (length (filter ((\<noteq>) v) (take i vs))))
         | _ \<Rightarrow> Some (n, ws, p))"
| "spec_op RemoveAt (vs, p) =
     Some (case p of
         At i \<Rightarrow> (ODone, remove_index i vs, if i = 0 then Start else At (i - 1))
       | _ \<Rightarrow> (ODone, vs, p))"
| "spec_op (FindFirst v) (vs, p) = Some (OFound (v \<in> set vs), vs, p)"
| "spec_op GetFirst (vs, p) = Some (OItem (case vs of [] \<Rightarrow> None | v # _ \<Rightarrow> Some v), vs, p)"
| "spec_op GetLast (vs, p) = Some (OItem (if vs = [] then None else Some (last vs)), vs, p)"
| "spec_op GetCount (vs, p) = Some (OCount (int (length vs)), vs, p)"
| "spec_op Enumerate (vs, p) =
     (let next = (\<lambda>i. if i < length vs then (OItem (Some (vs ! i)), vs, At i) else (OItem None, vs, End))
      in Some (case p of Start \<Rightarrow> next 0 | At i \<Rightarrow> next (Suc i) | End \<Rightarrow> (OItem None, vs, End)))"
| "spec_op ResetEnumerator (vs, p) = Some (ODone, vs, Start)"

fun run_ops :: "('op \<Rightarrow> 's \<Rightarrow> ('o \<times> 's) option) \<Rightarrow> 'op list \<Rightarrow> 's \<Rightarrow> ('o list \<times> 's) option" where
  "run_ops step [] s = Some ([], s)"
| "run_ops step (op # ops) s = do {(o1, s) \<leftarrow> step op s; (os, s) \<leftarrow> run_ops step ops s; Some (o1 # os, s)}"

text \<open>
  The store holds exactly the elements of the list, the list represents the sequence, and the
  enumerator points to the element of its position.
\<close>

fun at_position :: "(addr \<times> 'v) list \<Rightarrow> list_enumerator \<Rightarrow> position \<Rightarrow> bool" where
  "at_position xs en Start = (en_current en = None \<and> \<not> en_finished en)"
| "at_position xs en (At i) = (i < length xs \<and> en_current en = Some (fst (xs ! i)) \<and> \<not> en_finished en)"
| "at_position xs en End = (en_current en = None \<and> en_finished en)"

definition list_sim :: "'v list_state \<Rightarrow> 'v list \<times> position \<Rightarrow> bool" where
  "list_sim s r \<longleftrightarrow>
     (case s of ((h, l), en) \<Rightarrow> \<exists>xs. represents (h, l) xs \<and> dom h = fst ` set xs \<and>
        map snd xs = fst r \<and> at_position xs en (snd r))"

text \<open>Positions as a split of the list.\<close>

lemma at_position_split:
  assumes "at_position xs en (At i)"
  obtains us a v ws where "xs = us @ (a, v) # ws" "length us = i" "en_current en = Some a" "\<not> en_finished en"
proof -
  have i: "i < length xs" "en_current en = Some (fst (xs ! i))" "\<not> en_finished en"
    using assms by auto
  show thesis
    using that [of "take i xs" "fst (xs ! i)" "snd (xs ! i)" "drop (Suc i) xs"] i
    by (simp add: id_take_nth_drop [symmetric])
qed

lemma at_position_split_intro:
  "en_current en = Some a \<Longrightarrow> \<not> en_finished en \<Longrightarrow> length us = i \<Longrightarrow> at_position (us @ (a, v) # ws) en (At i)"
  by (auto simp: nth_append)

lemma dom_insert:
  assumes "represents (h', l') ys" "same_off (insert a (fst ` set xs)) h h'"
    "dom h = fst ` set xs" "fst ` set ys = insert a (fst ` set xs)"
  shows "dom h' = fst ` set ys"
proof -
  have "h' b = None" if "b \<notin> fst ` set ys" for b
    using that assms(2,3,4) by (auto simp: same_off_def dom_def)
  moreover have "h' b \<noteq> None" if "b \<in> fst ` set ys" for b
    using assms(1) that by (auto simp: represents_def dest: dseg_alloc)
  ultimately show ?thesis by (intro set_eqI) (metis domIff)
qed

lemma dom_remove:
  assumes "represents (h', l') ys" "same_off (fst ` set xs) h h'"
    "dom h = fst ` set xs" "\<forall>b \<in> R. h' b = None" "fst ` set ys = fst ` set xs - R"
  shows "dom h' = fst ` set ys"
proof -
  have "h' b = None" if "b \<notin> fst ` set ys" for b
    using that assms(2-5) by (cases "b \<in> fst ` set xs") (auto simp: same_off_def dom_def)
  moreover have "h' b \<noteq> None" if "b \<in> fst ` set ys" for b
    using assms(1) that by (auto simp: represents_def dest: dseg_alloc)
  ultimately show ?thesis by (intro set_eqI) (metis domIff)
qed

lemma list_simI:
  "represents (h, l) xs \<Longrightarrow> dom h = fst ` set xs \<Longrightarrow> map snd xs = vs \<Longrightarrow> at_position xs en p \<Longrightarrow>
    list_sim ((h, l), en) (vs, p)"
  by (auto simp: list_sim_def)

lemma sim_insert_first:
  assumes r: "represents (h, l) xs" and d: "dom h = fst ` set xs" and a: "h a = None" and p: "at_position xs en p"
  shows "\<exists>h' l'. insert_first a v (h, l) = Some (h', l') \<and>
           list_sim ((h', l'), en) (v # map snd xs, case p of At i \<Rightarrow> At (Suc i) | _ \<Rightarrow> p)"
proof -
  obtain h' l' where s: "insert_first a v (h, l) = Some (h', l')" "represents (h', l') ((a, v) # xs)"
    "same_off (insert a (fst ` set xs)) h h'"
    using insert_first_represents [OF r a] by blast
  have "dom h' = fst ` set ((a, v) # xs)"
    using dom_insert [OF s(2,3) d] by simp
  then have "list_sim ((h', l'), en) (v # map snd xs, case p of At i \<Rightarrow> At (Suc i) | _ \<Rightarrow> p)"
    using p by (intro list_simI [OF s(2)]) (auto split: position.splits)
  then show ?thesis using s(1) by blast
qed

lemma sim_insert_last:
  assumes r: "represents (h, l) xs" and d: "dom h = fst ` set xs" and a: "h a = None" and p: "at_position xs en p"
  shows "\<exists>h' l'. insert_last a v (h, l) = Some (h', l') \<and> list_sim ((h', l'), en) (map snd xs @ [v], p)"
proof -
  obtain h' l' where s: "insert_last a v (h, l) = Some (h', l')" "represents (h', l') (xs @ [(a, v)])"
    "same_off (insert a (fst ` set xs)) h h'"
    using insert_last_represents [OF r a] by blast
  have "dom h' = fst ` set (xs @ [(a, v)])"
    using dom_insert [OF s(2,3) d] by simp
  then have "list_sim ((h', l'), en) (map snd xs @ [v], p)"
    using p by (intro list_simI [OF s(2)]) (cases p; auto simp: nth_append)+
  then show ?thesis using s(1) by blast
qed

lemma sim_insert_before:
  assumes r: "represents (h, l) xs" and d: "dom h = fst ` set xs" and a: "h a = None" and p: "at_position xs en p"
    and spec: "spec_op (InsertBefore v) (map snd xs, p) = Some (ob, r')"
  shows "\<exists>h' l'. insert_before a en v (h, l) = Some (h', l') \<and> list_sim ((h', l'), en) r' \<and> ob = ODone"
proof (cases p)
  case Start
  then show ?thesis
    using sim_insert_first [OF r d a p] p spec by (auto simp: insert_before_def)
next
  case End
  then show ?thesis
    using sim_insert_last [OF r d a p] p spec by (auto simp: insert_before_def)
next
  case (At i)
  from p [unfolded At] obtain us c w ws where xs: "xs = us @ (c, w) # ws" and i: "length us = i"
    and en: "en_current en = Some c" "\<not> en_finished en" by (rule at_position_split)
  obtain h' l' where s: "insert_before a en v (h, l) = Some (h', l')"
    "represents (h', l') (us @ (a, v) # (c, w) # ws)" "same_off (insert a (fst ` set xs)) h h'"
    using insert_before_represents [OF r [unfolded xs] a en(1)] xs by blast
  have dom': "dom h' = fst ` set (us @ (a, v) # (c, w) # ws)"
    using dom_insert [OF s(2,3) d] xs by auto
  have "at_position (us @ (a, v) # (c, w) # ws) en (At (Suc i))"
    using at_position_split_intro [of en c "us @ [(a, v)]" "Suc i" w ws] en i by simp
  then have "list_sim ((h', l'), en) r'"
    using spec At xs i by (auto intro!: list_simI [OF s(2) dom'])
  then show ?thesis using s(1) spec At by auto
qed

lemma sim_remove_first:
  assumes r: "represents (h, l) xs" and d: "dom h = fst ` set xs" and p: "at_position xs en p"
    and spec: "spec_op RemoveFirst (map snd xs, p) = Some (ob, r')"
  shows "\<exists>v h' l'. remove_first (h, l) = Some (v, h', l') \<and> list_sim ((h', l'), en) r' \<and> ob = OItem v"
proof (cases xs)
  case Nil
  then show ?thesis
    using remove_empty(1) [of h l] r spec d p by (auto simp: list_sim_def)
next
  case (Cons x ys)
  obtain a v where x: "x = (a, v)" by (cases x)
  obtain h' l' where s: "remove_first (h, l) = Some (Some v, h', l')" "represents (h', l') ys"
    "h' a = None" "same_off (fst ` set xs) h h'"
    using remove_first_represents [of h l a v ys] r Cons x by auto
  have "a \<notin> fst ` set ys"
    using r Cons x by (auto simp: represents_def)
  then have "dom h' = fst ` set ys"
    using dom_remove [OF s(2,4) d, of "{a}"] s(3) Cons x by auto
  then show ?thesis
    using s(1) spec Cons x p
    by (auto intro!: list_simI [OF s(2)] split: position.splits nat.splits)
qed

lemma sim_remove_last:
  assumes r: "represents (h, l) xs" and d: "dom h = fst ` set xs" and p: "at_position xs en p"
    and spec: "spec_op RemoveLast (map snd xs, p) = Some (ob, r')"
  shows "\<exists>v h' l'. remove_last (h, l) = Some (v, h', l') \<and> list_sim ((h', l'), en) r' \<and> ob = OItem v"
proof (cases xs rule: rev_cases)
  case Nil
  then show ?thesis
    using remove_empty(2) [of h l] r spec d p by (auto simp: list_sim_def)
next
  case (snoc ys x)
  obtain a v where x: "x = (a, v)" by (cases x)
  obtain h' l' where s: "remove_last (h, l) = Some (Some v, h', l')" "represents (h', l') ys"
    "h' a = None" "same_off (fst ` set xs) h h'"
    using remove_last_represents [of h l ys a v] r snoc x by auto
  have "a \<notin> fst ` set ys"
    using r snoc x by (auto simp: represents_def)
  then have "dom h' = fst ` set ys"
    using dom_remove [OF s(2,4) d, of "{a}"] s(3) snoc x by auto
  moreover have "at_position ys en p"
    using p spec snoc x by (cases p) (auto simp: nth_append split: if_splits)
  ultimately have "list_sim ((h', l'), en) (map snd ys, p)"
    by (intro list_simI [OF s(2)]) auto
  then show ?thesis
    using s(1) spec snoc x by (auto split: if_splits)
qed

lemma sim_remove_at:
  assumes r: "represents (h, l) xs" and d: "dom h = fst ` set xs" and p: "at_position xs en p"
    and spec: "spec_op RemoveAt (map snd xs, p) = Some (ob, r')"
  shows "\<exists>en' h' l'. remove_at en (h, l) = Some (en', h', l') \<and> list_sim ((h', l'), en') r' \<and> ob = ODone"
proof (cases p)
  case (At i)
  from p [unfolded At] obtain us c w ws where xs: "xs = us @ (c, w) # ws" and i: "length us = i"
    and en: "en_current en = Some c" "\<not> en_finished en" by (rule at_position_split)
  obtain h' l' where s: "remove_at en (h, l) = Some (en\<lparr>en_current := end_of None us\<rparr>, h', l')"
    "represents (h', l') (us @ ws)" "h' c = None" "same_off (fst ` set xs) h h'"
    using remove_at_represents [OF r [unfolded xs] en(1)] xs by blast
  have "c \<notin> fst ` set (us @ ws)"
    using r xs by (auto simp: represents_def)
  then have dom': "dom h' = fst ` set (us @ ws)"
    using dom_remove [OF s(2,4) d, of "{c}"] s(3) xs by auto
  have "at_position (us @ ws) (en\<lparr>en_current := end_of None us\<rparr>) (if i = 0 then Start else At (i - 1))"
    using i en by (cases us rule: rev_cases) (auto simp: nth_append end_of_def)
  then have "list_sim ((h', l'), en\<lparr>en_current := end_of None us\<rparr>) r'"
    using spec At xs i by (auto simp: remove_index_def intro!: list_simI [OF s(2) dom'])
  then show ?thesis using s(1) spec At by auto
qed (use r d p spec in \<open>auto simp: remove_at_def list_sim_def\<close>)

lemma sim_remove_items:
  assumes r: "represents (h, l) xs" and d: "dom h = fst ` set xs" and p: "at_position xs en p"
    and spec: "spec_op (RemoveItem v) (map snd xs, p) = Some (ob, r')"
  shows "\<exists>n h' l'. remove_items (nat (ll_count l)) v None (h, l) = Some (n, h', l') \<and>
           list_sim ((h', l'), en) r' \<and> ob = OCount n"
proof -
  let ?P = "\<lambda>x. snd x = v"
  have count: "nat (ll_count l) = length xs"
    using r by (simp add: represents_def)
  obtain h' l' where s: "remove_items (length xs) v None (h, l) = Some (int (length (filter ?P xs)), h', l')"
    "represents (h', l') (filter (\<lambda>x. \<not> ?P x) xs)" "\<forall>b \<in> fst ` set (filter ?P xs). h' b = None"
    "same_off (fst ` set xs) h h'"
    using remove_items_represents [OF r, of "length xs" v None] by auto
  have "distinct (map fst xs)"
    using r by (simp add: represents_def)
  then have "fst ` set (filter (\<lambda>x. \<not> ?P x) xs) = fst ` set xs - fst ` set (filter ?P xs)"
    by (induction xs) auto
  then have dom': "dom h' = fst ` set (filter (\<lambda>x. \<not> ?P x) xs)"
    by (rule dom_remove [OF s(2,4) d s(3)])
  have maps: "map snd (filter (\<lambda>x. \<not> ?P x) ys) = filter ((\<noteq>) v) (map snd ys)"
    "length (filter ?P ys) = length (filter ((=) v) (map snd ys))" for ys :: "(addr \<times> 'a) list"
    by (induction ys) auto
  have pos: "at_position (filter (\<lambda>x. \<not> ?P x) xs) en (snd r') \<and> fst r' = filter ((\<noteq>) v) (map snd xs) \<and>
      ob = OCount (int (length (filter ?P xs)))"
  proof (cases p)
    case (At i)
    from p [unfolded At] obtain us c w ws where xs: "xs = us @ (c, w) # ws" and i: "length us = i"
      and en: "en_current en = Some c" "\<not> en_finished en" by (rule at_position_split)
    have "length (filter (\<lambda>x. \<not> ?P x) us) = length (filter ((\<noteq>) v) (map snd us))"
      using maps(1) [of us] by (metis length_map)
    then show ?thesis
      using spec At xs i en at_position_split_intro [OF en, of "filter (\<lambda>x. \<not> ?P x) us"]
      by (auto simp: nth_append maps(2) split: if_splits)
  qed (use spec p in \<open>auto simp: maps(2) Let_def\<close>)
  then have "list_sim ((h', l'), en) r'"
    using list_simI [OF s(2) dom' maps(1)] by (cases r') auto
  then show ?thesis using s(1) count pos by auto
qed

lemma sim_enumerate:
  assumes r: "represents (h, l) xs" and d: "dom h = fst ` set xs" and p: "at_position xs en p"
    and spec: "spec_op Enumerate (map snd xs, p) = Some (ob, r')"
  shows "\<exists>v en'. enumerate_list (h, l) en = Some (v, en') \<and> list_sim ((h, l), en') r' \<and> ob = OItem v"
proof (cases p)
  case Start
  then show ?thesis
    using enumerate_represents [of h l "[]" xs en] r p spec list_simI [OF r d refl]
    by (cases xs) auto
next
  case End
  then show ?thesis
    using p spec by (auto simp: enumerate_list_def intro!: list_simI [OF r d])
next
  case (At i)
  from p [unfolded At] obtain us c w ws where xs: "xs = us @ (c, w) # ws" and i: "length us = i"
    and en: "en_current en = Some c" "\<not> en_finished en" by (rule at_position_split)
  have "enumerate_list (h, l) en =
     (case ws of [] \<Rightarrow> Some (None, en\<lparr>en_current := None, en_finished := True\<rparr>)
      | (a, v) # zs \<Rightarrow> Some (Some v, en\<lparr>en_current := Some a\<rparr>))"
    using enumerate_represents [of h l "us @ [(c, w)]" ws en] r xs en by simp
  then show ?thesis
    using At spec xs i en list_simI [OF r d refl]
    by (cases ws) (auto simp: nth_append)
qed

text \<open>What is assumed of \<open>malloc\<close>: the address it returns is not in use.\<close>

definition fresh_malloc :: "('v store \<Rightarrow> addr) \<Rightarrow> bool" where
  "fresh_malloc malloc \<longleftrightarrow> (\<forall>h. finite (dom h) \<longrightarrow> h (malloc h) = None)"

text \<open>An allocator with this property.\<close>

definition least_malloc :: "'v store \<Rightarrow> addr" where
  "least_malloc h = (if dom h = {} then 0 else Suc (Max (dom h)))"

lemma least_malloc_None: "finite (dom h) \<Longrightarrow> h (least_malloc h) = None"
proof (cases "dom h = {}")
  case False
  assume "finite (dom h)"
  then have "Suc (Max (dom h)) \<notin> dom h"
    using Max_ge Suc_n_not_le_n by blast
  then show ?thesis
    using False by (auto simp: least_malloc_def)
qed (auto simp: least_malloc_def)

lemma least_malloc_fresh [simp]: "fresh_malloc least_malloc"
  by (simp add: fresh_malloc_def least_malloc_None)

text \<open>One operation: the store simulates the sequence.\<close>

lemma exec_op_sim:
  assumes malloc: "fresh_malloc malloc"
    and sim: "list_sim s r" and spec: "spec_op op r = Some (ob, r')"
  shows "\<exists>s'. exec_op malloc op s = Some (ob, s') \<and> list_sim s' r'"
proof -
  obtain h l en where s: "s = ((h, l), en)" by (metis surj_pair)
  obtain vs p where rr: "r = (vs, p)" by (cases r)
  from sim obtain xs where r: "represents (h, l) xs" and d: "dom h = fst ` set xs"
    and vs: "map snd xs = vs" and p: "at_position xs en p"
    by (auto simp: list_sim_def s rr)
  have a: "h (malloc h) = None"
    using malloc d by (simp add: fresh_malloc_def)
  have count: "nat (ll_count l) = length xs" "ll_count l = int (length xs)"
    using r by (simp_all add: represents_def)
  note spec = spec [unfolded rr, folded vs]
  show ?thesis
  proof (cases op)
    case (InsertFirst v)
    then show ?thesis
      using sim_insert_first [OF r d a p, of v] spec by (auto simp: s)
  next
    case (InsertLast v)
    then show ?thesis
      using sim_insert_last [OF r d a p, of v] spec by (auto simp: s)
  next
    case (InsertBefore v)
    show ?thesis
      using sim_insert_before [OF r d a p spec [unfolded InsertBefore]] by (auto simp: s InsertBefore)
  next
    case RemoveFirst
    show ?thesis
      using sim_remove_first [OF r d p spec [unfolded RemoveFirst]] by (auto simp: s RemoveFirst)
  next
    case RemoveLast
    show ?thesis
      using sim_remove_last [OF r d p spec [unfolded RemoveLast]] by (auto simp: s RemoveLast)
  next
    case (RemoveItem v)
    show ?thesis
      using sim_remove_items [OF r d p spec [unfolded RemoveItem]] by (auto simp: s RemoveItem)
  next
    case RemoveAt
    show ?thesis
      using sim_remove_at [OF r d p spec [unfolded RemoveAt]] by (auto simp: s RemoveAt)
  next
    case Enumerate
    show ?thesis
      using sim_enumerate [OF r d p spec [unfolded Enumerate]] by (auto simp: s Enumerate)
  next
    case ResetEnumerator
    then show ?thesis
      using spec by (auto simp: s reset_enumerator_def intro!: list_simI [OF r d])
  next
    case GetFirst
    then show ?thesis
      using spec get_first_represents [OF r] list_simI [OF r d refl p]
      by (cases xs) (auto simp: s)
  next
    case GetLast
    then show ?thesis
      using spec get_last_represents [OF r] list_simI [OF r d refl p]
      by (cases xs) (auto simp: s last_map)
  next
    case (FindFirst v)
    then show ?thesis
      using spec find_first_represents(2) [OF r, of "length xs" v] list_simI [OF r d refl p] count
      by (auto simp: s)
  next
    case GetCount
    then show ?thesis
      using spec list_simI [OF r d refl p] count by (auto simp: s)
  qed
qed

lemma run_ops_sim:
  assumes malloc: "fresh_malloc malloc"
    and "list_sim s r" "run_ops spec_op ops r = Some (obs, r')"
  shows "\<exists>s'. run_ops (exec_op malloc) ops s = Some (obs, s') \<and> list_sim s' r'"
  using assms(2,3)
proof (induction ops arbitrary: s r obs)
  case Nil
  then show ?case by auto
next
  case (Cons op ops)
  from Cons.prems(2) obtain o1 r1 os where st: "spec_op op r = Some (o1, r1)"
    "run_ops spec_op ops r1 = Some (os, r')" "obs = o1 # os"
    by (auto split: Option.bind_splits)
  obtain s1 where s1: "exec_op malloc op s = Some (o1, s1)" "list_sim s1 r1"
    using exec_op_sim [OF malloc Cons.prems(1) st(1)] by blast
  obtain s2 where s2: "run_ops (exec_op malloc) ops s1 = Some (os, s2)" "list_sim s2 r'"
    using Cons.IH [OF s1(2) st(2)] by blast
  show ?case
    by (rule exI [of _ s2]) (simp add: s1(1) s2 st(3))
qed

text \<open>
  C23: A linked list with an enumerator, created empty and driven by any sequence of insertions,
  removals, lookups and enumerations, never follows a \<open>NULL\<close> or a freed pointer, returns for every
  operation what the same operation returns on a plain sequence of values with an index (so that
  \<open>remove_at\<close> and \<open>insert_before\<close> keep the enumeration in place), keeps its count, and at the end
  has exactly one allocated element per value. The one excluded use is removing the element the
  enumerator stands on by anything but \<open>remove_at\<close>.
\<close>

theorem linked_list_refines_sequence:
  fixes malloc :: "'v store \<Rightarrow> addr"
  assumes malloc: "fresh_malloc malloc"
    and spec: "run_ops spec_op ops ([], Start) = Some (obs, vs, p)"
  shows "\<exists>h l en. run_ops (exec_op malloc) ops ((Map.empty, linked_list_create), create_enumerator) =
             Some (obs, (h, l), en) \<and>
           ll_count l = int (length vs) \<and> finite (dom h) \<and> card (dom h) = length vs \<and>
           invoke_function (length vs) (\<lambda>v ws. ws @ [v]) (h, l) [] = Some vs"
proof -
  have "list_sim ((Map.empty, linked_list_create), create_enumerator) ([], Start)"
    by (rule list_simI [of _ _ "[]"]) (simp_all add: create_enumerator_def)
  from run_ops_sim [OF malloc this spec] obtain h l en where
    run: "run_ops (exec_op malloc) ops ((Map.empty, linked_list_create), create_enumerator) = Some (obs, (h, l), en)"
    and "list_sim ((h, l), en) (vs, p)" by auto
  then obtain xs where r: "represents (h, l) xs" and d: "dom h = fst ` set xs" and vs: "map snd xs = vs"
    by (auto simp: list_sim_def)
  have "card (dom h) = length xs"
    using r distinct_card [of "map fst xs"] by (simp add: d represents_def)
  moreover have app: "fold (\<lambda>v ws. ws @ [v]) us ws = ws @ us" for us ws :: "'v list"
    by (induction us arbitrary: ws) auto
  have "invoke_function (length vs) (\<lambda>v ws. ws @ [v]) (h, l) [] = Some vs"
    using invoke_function_represents [OF r, of "length vs" "\<lambda>v ws. ws @ [v]" "[]"] vs by (auto simp: app)
  ultimately show ?thesis
    using run r d vs by (auto simp: represents_def)
qed

definition demo_ops :: "nat list_op list" where
  "demo_ops = [InsertLast 5, InsertLast 6, InsertFirst 4, Enumerate, Enumerate, RemoveAt, InsertBefore 9, Enumerate]"

theorem linked_list_refines_sequence_witness:
  "\<exists>h l en. run_ops (exec_op least_malloc) demo_ops ((Map.empty, linked_list_create), create_enumerator) =
      Some ([ODone, ODone, ODone, OItem (Some 4), OItem (Some 5), ODone, ODone, OItem (Some 6)], (h, l), en) \<and>
    ll_count l = int (length [9, 4, 6 :: nat]) \<and> finite (dom h) \<and> card (dom h) = length [9, 4, 6 :: nat] \<and>
    invoke_function (length [9, 4, 6 :: nat]) (\<lambda>v ws. ws @ [v]) (h, l) [] = Some [9, 4, 6]"
proof (rule linked_list_refines_sequence)
  show "fresh_malloc (least_malloc :: nat store \<Rightarrow> addr)"
    by (rule least_malloc_fresh)
  show "run_ops spec_op demo_ops ([], Start) =
      Some ([ODone, ODone, ODone, OItem (Some 4), OItem (Some 5), ODone, ODone, OItem (Some 6)], [9, 4, 6], At 2)"
    by (simp add: demo_ops_def remove_index_def)
qed

text \<open>
  C24: \<open>remove\<close> ends on every well formed list, within as many rounds as the list has elements; it
  removes exactly the matching values, keeps the others in order, returns their number and frees
  exactly the elements it removed.
\<close>

theorem remove_items_terminates:
  assumes "represents (h, l) xs"
  shows "\<exists>h' l'. remove_items (length xs) item (Some c) (h, l) =
             Some (int (length (filter (\<lambda>x. c (snd x) item) xs)), h', l') \<and>
           represents (h', l') (filter (\<lambda>x. \<not> c (snd x) item) xs) \<and>
           (\<forall>b. h' b = None \<longleftrightarrow> h b = None \<or> b \<in> fst ` set (filter (\<lambda>x. c (snd x) item) xs))"
proof -
  obtain h' l' where s: "remove_items (length xs) item (Some c) (h, l) =
      Some (int (length (filter (\<lambda>x. c (snd x) item) xs)), h', l')"
    "represents (h', l') (filter (\<lambda>x. \<not> c (snd x) item) xs)"
    "\<forall>b \<in> fst ` set (filter (\<lambda>x. c (snd x) item) xs). h' b = None" "same_off (fst ` set xs) h h'"
    using remove_items_represents [OF assms, of "length xs" item "Some c"] by auto
  have "h' b = None \<longleftrightarrow> h b = None \<or> b \<in> fst ` set (filter (\<lambda>x. c (snd x) item) xs)" for b
  proof (cases "b \<in> fst ` set xs")
    case True
    then have "h b \<noteq> None"
      using assms by (auto simp: represents_def dest: dseg_alloc)
    moreover have "h' b \<noteq> None" if "b \<in> fst ` set (filter (\<lambda>x. \<not> c (snd x) item) xs)"
      using s(2) that by (auto simp: represents_def dest!: dseg_alloc)
    moreover obtain x where x: "x \<in> set xs" "b = fst x"
      using True by auto
    ultimately show ?thesis
      using s(3) x by (cases "c (snd x) item") (force simp: image_iff)+
  next
    case False
    then show ?thesis
      using s(4) by (auto simp: same_off_def)
  qed
  then show ?thesis
    using s(1,2) by blast
qed

theorem remove_items_terminates_witness:
  "\<exists>h' l'. remove_items (Suc (Suc 0)) (4 :: nat) (Some (=))
      ([7 \<mapsto> \<lparr>el_value = 3, el_previous = None, el_next = Some 2\<rparr>,
        2 \<mapsto> \<lparr>el_value = 4, el_previous = Some 7, el_next = None\<rparr>],
       \<lparr>ll_count = 2, ll_first = Some 7, ll_last = Some 2\<rparr>) = Some (1, h', l') \<and>
    represents (h', l') [(7, 3)] \<and> h' 2 = None \<and> h' 7 \<noteq> None"
proof -
  let ?h = "[7 \<mapsto> \<lparr>el_value = 3, el_previous = None, el_next = Some 2\<rparr>,
    2 \<mapsto> \<lparr>el_value = 4 :: nat, el_previous = Some 7, el_next = None\<rparr>]"
  let ?l = "\<lparr>ll_count = 2, ll_first = Some 7, ll_last = Some 2\<rparr>"
  have r: "represents (?h, ?l) [(7, 3), (2, 4)]"
    by (simp add: represents_def end_of_def)
  from remove_items_terminates [OF r, of 4 "(=)"] obtain h' l' where s:
    "remove_items (Suc (Suc 0)) (4 :: nat) (Some (=)) (?h, ?l) = Some (1, h', l')"
    "represents (h', l') [(7, 3)]"
    "\<forall>b. h' b = None \<longleftrightarrow> ?h b = None \<or> b \<in> fst ` set (filter (\<lambda>x. snd x = 4) [(7, 3), (2, 4 :: nat)])"
    by auto
  have "h' 2 = None" "h' 7 \<noteq> None"
    using s(3) [rule_format, of 2] s(3) [rule_format, of 7] by simp_all
  then show ?thesis
    using s(1,2) by blast
qed

end
