(* ===== verification/Threads.thy ===== *)
theory Threads
  imports Prelude
begin

text \<open>
  Threads that wait on a condition variable (\<open>threading/mutex.c\<close>, \<open>condvar_t\<close>, over the POSIX
  primitives). Code that holds a mutex runs as one step; \<open>wait\<close> ends the step, and the thread goes
  on, in a later step, only after it was woken by \<open>signal\<close>, by \<open>broadcast\<close> or spuriously.
\<close>

type_synonym tid = nat

record condvar =
  cv_waiting :: "tid set"
  cv_woken :: "tid set"

definition condvar_create :: condvar where
  "condvar_create = \<lparr>cv_waiting = {}, cv_woken = {}\<rparr>"

definition cv_wait :: "tid \<Rightarrow> condvar \<Rightarrow> condvar" where
  "cv_wait t cv = cv\<lparr>cv_waiting := insert t (cv_waiting cv)\<rparr>"

text \<open>
  \<open>signal\<close> wakes one of the waiting threads, if there is one; which one is the choice \<open>w\<close> of the
  system.
\<close>

definition signal_target :: "condvar \<Rightarrow> tid \<Rightarrow> bool" where
  "signal_target cv w \<longleftrightarrow> cv_waiting cv = {} \<or> w \<in> cv_waiting cv"

definition cv_signal :: "tid \<Rightarrow> condvar \<Rightarrow> condvar" where
  "cv_signal w cv =
     (if w \<in> cv_waiting cv
      then cv\<lparr>cv_waiting := cv_waiting cv - {w}, cv_woken := insert w (cv_woken cv)\<rparr> else cv)"

definition cv_broadcast :: "condvar \<Rightarrow> condvar" where
  "cv_broadcast cv = \<lparr>cv_waiting = {}, cv_woken = cv_woken cv \<union> cv_waiting cv\<rparr>"

text \<open>A woken thread has the mutex again and returns from \<open>wait\<close>.\<close>

definition cv_resume :: "tid \<Rightarrow> condvar \<Rightarrow> condvar" where
  "cv_resume t cv = cv\<lparr>cv_woken := cv_woken cv - {t}\<rparr>"

text \<open>A thread that is cancelled while it waits.\<close>

definition cv_cancel :: "tid \<Rightarrow> condvar \<Rightarrow> condvar" where
  "cv_cancel t cv = cv\<lparr>cv_waiting := cv_waiting cv - {t}\<rparr>"

definition wf_condvar :: "condvar \<Rightarrow> bool" where
  "wf_condvar cv \<longleftrightarrow> finite (cv_waiting cv) \<and> finite (cv_woken cv) \<and> cv_waiting cv \<inter> cv_woken cv = {}"

lemma cv_simps [simp]:
  "cv_waiting condvar_create = {}" "cv_woken condvar_create = {}"
  "cv_waiting (cv_wait t cv) = insert t (cv_waiting cv)" "cv_woken (cv_wait t cv) = cv_woken cv"
  "cv_waiting (cv_signal w cv) = cv_waiting cv - {w}"
  "cv_woken (cv_signal w cv) = (if w \<in> cv_waiting cv then insert w (cv_woken cv) else cv_woken cv)"
  "cv_waiting (cv_broadcast cv) = {}" "cv_woken (cv_broadcast cv) = cv_woken cv \<union> cv_waiting cv"
  "cv_waiting (cv_resume t cv) = cv_waiting cv" "cv_woken (cv_resume t cv) = cv_woken cv - {t}"
  "cv_waiting (cv_cancel t cv) = cv_waiting cv - {t}" "cv_woken (cv_cancel t cv) = cv_woken cv"
  by (auto simp: condvar_create_def cv_wait_def cv_signal_def cv_broadcast_def cv_resume_def cv_cancel_def)

lemma wf_condvar_ops [simp]:
  "wf_condvar condvar_create"
  "wf_condvar cv \<Longrightarrow> wf_condvar (cv_signal w cv)"
  "wf_condvar cv \<Longrightarrow> wf_condvar (cv_broadcast cv)"
  "wf_condvar cv \<Longrightarrow> wf_condvar (cv_resume t cv)"
  "wf_condvar cv \<Longrightarrow> wf_condvar (cv_cancel t cv)"
  "wf_condvar cv \<Longrightarrow> t \<notin> cv_woken cv \<Longrightarrow> wf_condvar (cv_wait t cv)"
  by (auto simp: wf_condvar_def)

end
