(* ===== verification/Blocking_Queue.thy ===== *)
theory Blocking_Queue
  imports Linked_List Threads
begin

text \<open>
  \<open>collections/blocking_queue.c\<close>: a queue between threads on a linked list and a condition
  variable. The queue needs two operations of its list, stated as an interface and shown for
  \<open>linked_list_t\<close>; the steps of the threads are a transition system.
\<close>

section \<open>The list interface of the queue\<close>

locale deque =
  fixes rep :: "'st \<Rightarrow> 'v list \<Rightarrow> bool"
    and ins :: "'v \<Rightarrow> 'st \<Rightarrow> 'st option"
    and rem :: "'st \<Rightarrow> ('v option \<times> 'st) option"
  assumes ins_law: "rep s xs \<Longrightarrow> \<exists>s'. ins v s = Some s' \<and> rep s' (v # xs)"
    and rem_law: "rep s xs \<Longrightarrow>
      \<exists>s'. rem s = Some (if xs = [] then None else Some (last xs), s') \<and> rep s' (butlast xs)"
begin

lemma ins_cases:
  assumes "rep s xs" "ins v s = Some s'"
  shows "rep s' (v # xs)"
  using ins_law [OF assms(1), of v] assms(2) by auto

lemma rem_cases:
  assumes "rep s xs" "rem s = Some (v, s')"
  obtains "xs = []" "v = None" "rep s' []"
  | ys w where "xs = ys @ [w]" "v = Some w" "rep s' ys"
proof (cases xs rule: rev_cases)
  case Nil
  then show thesis using that(1) rem_law [OF assms(1)] assms(2) by auto
next
  case (snoc ys w)
  then show thesis using that(2) rem_law [OF assms(1)] assms(2) by auto
qed

end

definition holds :: "'v store \<times> linked_list \<Rightarrow> 'v list \<Rightarrow> bool" where
  "holds st vs \<longleftrightarrow> (\<exists>xs. represents st xs \<and> dom (fst st) = fst ` set xs \<and> map snd xs = vs)"

definition list_insert_first :: "('v store \<Rightarrow> addr) \<Rightarrow> 'v \<Rightarrow> 'v store \<times> linked_list \<Rightarrow> ('v store \<times> linked_list) option" where
  "list_insert_first malloc v st = insert_first (malloc (fst st)) v st"

lemma holds_sim: "holds (h, l) vs \<longleftrightarrow> list_sim ((h, l), create_enumerator) (vs, Start)"
  by (auto simp: holds_def list_sim_def create_enumerator_def)

lemma holds_create [simp]: "holds (Map.empty, linked_list_create) []"
  unfolding holds_sim by (rule list_simI [of _ _ "[]"]) (simp_all add: create_enumerator_def)

lemma holds_insert:
  assumes "fresh_malloc malloc" "holds st xs"
  shows "\<exists>st'. list_insert_first malloc v st = Some st' \<and> holds st' (v # xs)"
proof -
  obtain h l where st: "st = (h, l)" by (cases st)
  then show ?thesis
    using exec_op_sim [OF assms(1), of "((h, l), create_enumerator)" "(xs, Start)" "InsertFirst v"] assms(2)
    by (auto simp: holds_sim list_insert_first_def split: bind_splits)
qed

lemma holds_remove:
  assumes "holds st xs"
  shows "\<exists>st'. remove_last st = Some (if xs = [] then None else Some (last xs), st') \<and> holds st' (butlast xs)"
proof -
  obtain h l where st: "st = (h, l)" by (cases st)
  then show ?thesis
    using exec_op_sim [OF least_malloc_fresh, of "((h, l), create_enumerator)" "(xs, Start)" RemoveLast] assms
    by (auto simp: holds_sim split: bind_splits)
qed

interpretation dq: deque holds "list_insert_first least_malloc" remove_last
  by unfold_locales (rule holds_insert [OF least_malloc_fresh] holds_remove, assumption)+

section \<open>The queue\<close>

record 'v blocking_queue =
  bq_list :: "'v store \<times> linked_list"
  bq_condvar :: condvar

definition blocking_queue_create :: "'v blocking_queue" where
  "blocking_queue_create = \<lparr>bq_list = (Map.empty, linked_list_create), bq_condvar = condvar_create\<rparr>"

text \<open>\<open>enqueue\<close>, with the address of the new element and the thread the signal reaches.\<close>

definition enqueue :: "('v store \<Rightarrow> addr) \<Rightarrow> tid \<Rightarrow> 'v \<Rightarrow> 'v blocking_queue \<Rightarrow> 'v blocking_queue option" where
  "enqueue malloc w item this = do {
     l \<leftarrow> list_insert_first malloc item (bq_list this);
     Some (this\<lparr>bq_list := l, bq_condvar := cv_signal w (bq_condvar this)\<rparr>)}"

text \<open>
  One round of the loop of \<open>dequeue\<close> by thread \<open>t\<close>: an item, or the thread waits. The first round runs
  when the thread calls \<open>dequeue\<close>, each further one when it is woken.
\<close>

definition dequeue_round :: "tid \<Rightarrow> 'v blocking_queue \<Rightarrow> ('v option \<times> 'v blocking_queue) option" where
  "dequeue_round t this = do {
     (v, l) \<leftarrow> remove_last (bq_list this);
     case v of
       Some item \<Rightarrow> Some (Some item, this\<lparr>bq_list := l\<rparr>)
     | None \<Rightarrow> Some (None, this\<lparr>bq_list := l, bq_condvar := cv_wait t (bq_condvar this)\<rparr>)}"

text \<open>
  The system: the queue with the items enqueued and delivered so far. A thread can be cancelled only
  while it waits.
\<close>

record 'v queue_system =
  qs_queue :: "'v blocking_queue"
  qs_enqueued :: "'v list"
  qs_delivered :: "(tid \<times> 'v) list"

definition queue_system_init :: "'v queue_system" where
  "queue_system_init = \<lparr>qs_queue = blocking_queue_create, qs_enqueued = [], qs_delivered = []\<rparr>"

definition finish_round :: "tid \<Rightarrow> 'v option \<Rightarrow> 'v blocking_queue \<Rightarrow> 'v queue_system \<Rightarrow> 'v queue_system" where
  "finish_round t v q s =
     (case v of None \<Rightarrow> s\<lparr>qs_queue := q\<rparr>
      | Some item \<Rightarrow> s\<lparr>qs_queue := q, qs_delivered := qs_delivered s @ [(t, item)]\<rparr>)"

abbreviation qs_condvar :: "'v queue_system \<Rightarrow> condvar" where
  "qs_condvar s \<equiv> bq_condvar (qs_queue s)"

definition woken_queue :: "tid \<Rightarrow> 'v blocking_queue \<Rightarrow> 'v blocking_queue" where
  "woken_queue t q = q\<lparr>bq_condvar := cv_resume t (bq_condvar q)\<rparr>"

inductive queue_step :: "('v store \<Rightarrow> addr) \<Rightarrow> 'v queue_system \<Rightarrow> 'v queue_system \<Rightarrow> bool"
  for malloc :: "'v store \<Rightarrow> addr" where
  enq: "enqueue malloc w item (qs_queue s) = Some q \<Longrightarrow> signal_target (qs_condvar s) w \<Longrightarrow>
    queue_step malloc s (s\<lparr>qs_queue := q, qs_enqueued := qs_enqueued s @ [item]\<rparr>)"
| deq: "t \<notin> cv_waiting (qs_condvar s) \<Longrightarrow> t \<notin> cv_woken (qs_condvar s) \<Longrightarrow>
    dequeue_round t (qs_queue s) = Some (v, q) \<Longrightarrow> queue_step malloc s (finish_round t v q s)"
| resume: "t \<in> cv_woken (qs_condvar s) \<Longrightarrow>
    dequeue_round t (woken_queue t (qs_queue s)) = Some (v, q) \<Longrightarrow> queue_step malloc s (finish_round t v q s)"
| spurious: "t \<in> cv_waiting (qs_condvar s) \<Longrightarrow>
    queue_step malloc s (s\<lparr>qs_queue := (qs_queue s)\<lparr>bq_condvar := cv_signal t (qs_condvar s)\<rparr>\<rparr>)"
| cancel: "t \<in> cv_waiting (qs_condvar s) \<Longrightarrow>
    queue_step malloc s (s\<lparr>qs_queue := (qs_queue s)\<lparr>bq_condvar := cv_cancel t (qs_condvar s)\<rparr>\<rparr>)"

section \<open>What the threads see\<close>

text \<open>
  The items of the list are those enqueued and not yet delivered, last first; and as long as a thread
  waits, there are at least as many woken threads as items.
\<close>

definition queue_inv :: "'v queue_system \<Rightarrow> bool" where
  "queue_inv s \<longleftrightarrow>
     (\<exists>xs. holds (bq_list (qs_queue s)) xs \<and> map snd (qs_delivered s) @ rev xs = qs_enqueued s \<and>
       (cv_waiting (qs_condvar s) \<noteq> {} \<longrightarrow> length xs \<le> card (cv_woken (qs_condvar s)))) \<and>
     wf_condvar (qs_condvar s)"

lemma queue_invI:
  "holds (bq_list (qs_queue s)) xs \<Longrightarrow> map snd (qs_delivered s) @ rev xs = qs_enqueued s \<Longrightarrow>
    (cv_waiting (qs_condvar s) \<noteq> {} \<Longrightarrow> length xs \<le> card (cv_woken (qs_condvar s))) \<Longrightarrow>
    wf_condvar (qs_condvar s) \<Longrightarrow> queue_inv s"
  by (auto simp: queue_inv_def)

lemma dequeue_round_cases:
  assumes "dequeue_round t q = Some (v, q')" "holds (bq_list q) xs"
  obtains "xs = []" "v = None" "holds (bq_list q') []" "bq_condvar q' = cv_wait t (bq_condvar q)"
  | ys w where "xs = ys @ [w]" "v = Some w" "holds (bq_list q') ys" "bq_condvar q' = bq_condvar q"
proof -
  obtain o1 l where r: "remove_last (bq_list q) = Some (o1, l)"
    using assms(1) by (auto simp: dequeue_round_def split: bind_splits)
  from dq.rem_cases [OF assms(2) r] show thesis
  proof cases
    case 1
    then show thesis using that(1) assms(1) r by (auto simp: dequeue_round_def)
  next
    case (2 ys w)
    then show thesis using that(2) [of ys w] assms(1) r by (auto simp: dequeue_round_def)
  qed
qed

lemma queue_step_inv:
  assumes malloc: "fresh_malloc malloc" and "queue_step malloc s s'" "queue_inv s"
  shows "queue_inv s'"
  using assms(2,3)
proof (cases rule: queue_step.cases)
  case (enq w item q)
  obtain xs where xs: "holds (bq_list (qs_queue s)) xs" "map snd (qs_delivered s) @ rev xs = qs_enqueued s"
    "cv_waiting (qs_condvar s) \<noteq> {} \<Longrightarrow> length xs \<le> card (cv_woken (qs_condvar s))" "wf_condvar (qs_condvar s)"
    using assms(3) by (auto simp: queue_inv_def)
  have q: "holds (bq_list q) (item # xs)" "bq_condvar q = cv_signal w (qs_condvar s)"
    using enq(2) holds_insert [OF malloc xs(1), of item] by (auto simp: enqueue_def split: bind_splits)
  have "w \<in> cv_waiting (qs_condvar s) \<Longrightarrow> w \<notin> cv_woken (qs_condvar s)"
    using xs(4) by (auto simp: wf_condvar_def)
  then show ?thesis
    using enq xs q by (intro queue_invI [of _ "item # xs"])
      (auto simp: signal_target_def wf_condvar_def)
next
  case (deq t v q)
  obtain xs where xs: "holds (bq_list (qs_queue s)) xs" "map snd (qs_delivered s) @ rev xs = qs_enqueued s"
    "cv_waiting (qs_condvar s) \<noteq> {} \<Longrightarrow> length xs \<le> card (cv_woken (qs_condvar s))" "wf_condvar (qs_condvar s)"
    using assms(3) by (auto simp: queue_inv_def)
  from deq(4) xs(1) show ?thesis
  proof (cases rule: dequeue_round_cases)
    case 1
    then show ?thesis
      using deq xs by (intro queue_invI [of _ "[]"]) (auto simp: finish_round_def)
  next
    case (2 ys w)
    then show ?thesis
      using deq xs by (intro queue_invI [of _ ys]) (auto simp: finish_round_def)
  qed
next
  case (resume t v q)
  obtain xs where xs: "holds (bq_list (qs_queue s)) xs" "map snd (qs_delivered s) @ rev xs = qs_enqueued s"
    "cv_waiting (qs_condvar s) \<noteq> {} \<Longrightarrow> length xs \<le> card (cv_woken (qs_condvar s))" "wf_condvar (qs_condvar s)"
    using assms(3) by (auto simp: queue_inv_def)
  have "holds (bq_list (woken_queue t (qs_queue s))) xs"
    using xs(1) by (simp add: woken_queue_def)
  from resume(3) this show ?thesis
  proof (cases rule: dequeue_round_cases)
    case 1
    then show ?thesis
      using resume xs by (intro queue_invI [of _ "[]"]) (auto simp: finish_round_def woken_queue_def)
  next
    case (2 ys w)
    then show ?thesis
      using resume xs by (intro queue_invI [of _ ys])
        (auto simp: finish_round_def woken_queue_def wf_condvar_def)
  qed
next
  case (spurious t)
  obtain xs where xs: "holds (bq_list (qs_queue s)) xs" "map snd (qs_delivered s) @ rev xs = qs_enqueued s"
    "cv_waiting (qs_condvar s) \<noteq> {} \<Longrightarrow> length xs \<le> card (cv_woken (qs_condvar s))" "wf_condvar (qs_condvar s)"
    using assms(3) by (auto simp: queue_inv_def)
  then have "length xs \<le> card (insert t (cv_woken (qs_condvar s)))"
    using spurious(2) by (metis card_insert_le empty_iff order_trans)
  then show ?thesis
    using spurious xs by (intro queue_invI [of _ xs]) auto
next
  case (cancel t)
  then show ?thesis
    using assms(3) by (auto simp: queue_inv_def)
qed

lemma queue_init_inv: "queue_inv queue_system_init"
  by (rule queue_invI [of _ "[]"])
    (simp_all add: queue_system_init_def blocking_queue_create_def)

lemma queue_reachable_inv:
  assumes "fresh_malloc malloc" "(queue_step malloc)\<^sup>*\<^sup>* queue_system_init s"
  shows "queue_inv s"
  using assms(2) by (induction rule: rtranclp_induct) (auto intro: queue_init_inv queue_step_inv [OF assms(1)])


text \<open>
  C21: In every reachable state of threads that enqueue, dequeue, wait, are woken, also spuriously, or
  cancelled while waiting, the items delivered so far are, in order, the first of those enqueued:
  nothing is lost, repeated or overtaken. \<open>enqueue\<close> and \<open>dequeue\<close> never follow an invalid pointer.
\<close>

theorem blocking_queue_fifo:
  assumes "fresh_malloc malloc" "(queue_step malloc)\<^sup>*\<^sup>* queue_system_init s"
  shows "\<exists>rest. qs_enqueued s = map snd (qs_delivered s) @ rest \<and>
           ll_count (snd (bq_list (qs_queue s))) = int (length rest) \<and>
           enqueue malloc w item (qs_queue s) \<noteq> None \<and>
           (\<exists>v q. dequeue_round t (qs_queue s) = Some (v, q) \<and> v = (case rest of [] \<Rightarrow> None | x # _ \<Rightarrow> Some x))"
proof -
  obtain xs where xs: "holds (bq_list (qs_queue s)) xs" "map snd (qs_delivered s) @ rev xs = qs_enqueued s"
    using queue_reachable_inv [OF assms] by (auto simp: queue_inv_def)
  have "ll_count (snd (bq_list (qs_queue s))) = int (length xs)"
    using xs(1) by (auto simp: holds_def represents_def)
  moreover have "enqueue malloc w item (qs_queue s) \<noteq> None"
    using holds_insert [OF assms(1) xs(1), of item] by (auto simp: enqueue_def)
  moreover have "\<exists>v q. dequeue_round t (qs_queue s) = Some (v, q) \<and>
      v = (case rev xs of [] \<Rightarrow> None | x # _ \<Rightarrow> Some x)"
    using holds_remove [OF xs(1)] by (cases xs rule: rev_cases) (auto simp: dequeue_round_def)
  ultimately show ?thesis
    using xs(2) by (intro exI [of _ "rev xs"]) simp
qed

definition demo_queue :: "nat queue_system" where
  "demo_queue = queue_system_init\<lparr>qs_queue := the (enqueue least_malloc 0 5 blocking_queue_create), qs_enqueued := [5]\<rparr>"

theorem blocking_queue_fifo_witness:
  "\<exists>rest. qs_enqueued demo_queue = map snd (qs_delivered demo_queue) @ rest \<and>
     ll_count (snd (bq_list (qs_queue demo_queue))) = int (length rest) \<and>
     enqueue least_malloc 1 6 (qs_queue demo_queue) \<noteq> None \<and>
     (\<exists>v q. dequeue_round 2 (qs_queue demo_queue) = Some (v, q) \<and> v = (case rest of [] \<Rightarrow> None | x # _ \<Rightarrow> Some x))"
proof (rule blocking_queue_fifo [OF least_malloc_fresh r_into_rtranclp])
  have "\<exists>q. enqueue least_malloc 0 5 blocking_queue_create = Some (q :: nat blocking_queue)"
    by (simp add: enqueue_def list_insert_first_def insert_first_def blocking_queue_create_def
        linked_list_create_def Let_def)
  then have "queue_step least_malloc queue_system_init (queue_system_init\<lparr>
      qs_queue := the (enqueue least_malloc 0 5 blocking_queue_create),
      qs_enqueued := qs_enqueued queue_system_init @ [5 :: nat]\<rparr>)"
    by (intro queue_step.enq [where w = 0]) (auto simp: queue_system_init_def signal_target_def blocking_queue_create_def)
  then show "queue_step least_malloc queue_system_init demo_queue"
    by (simp add: demo_queue_def queue_system_init_def)
qed

text \<open>
  C22: No wakeup is lost: as long as a thread waits in \<open>dequeue\<close>, the queue holds no more items than
  there are woken threads on their way to it. A woken thread that takes its turn leaves fewer woken
  threads, so after finitely many turns either no thread waits or the queue is empty.
\<close>

theorem blocking_queue_no_lost_wakeup:
  assumes "fresh_malloc malloc" "(queue_step malloc)\<^sup>*\<^sup>* queue_system_init s"
  shows "(cv_waiting (qs_condvar s) = {} \<or>
           ll_count (snd (bq_list (qs_queue s))) \<le> int (card (cv_woken (qs_condvar s)))) \<and>
         (\<forall>t \<in> cv_woken (qs_condvar s).
           \<exists>v q. dequeue_round t (woken_queue t (qs_queue s)) = Some (v, q) \<and>
             card (cv_woken (bq_condvar q)) < card (cv_woken (qs_condvar s)))"
proof -
  obtain xs where xs: "holds (bq_list (qs_queue s)) xs" "wf_condvar (qs_condvar s)"
    "cv_waiting (qs_condvar s) \<noteq> {} \<longrightarrow> length xs \<le> card (cv_woken (qs_condvar s))"
    using queue_reachable_inv [OF assms] by (auto simp: queue_inv_def)
  have "ll_count (snd (bq_list (qs_queue s))) = int (length xs)"
    using xs(1) by (auto simp: holds_def represents_def)
  moreover have "\<exists>v q. dequeue_round t (woken_queue t (qs_queue s)) = Some (v, q) \<and>
      card (cv_woken (bq_condvar q)) < card (cv_woken (qs_condvar s))" if t: "t \<in> cv_woken (qs_condvar s)" for t
  proof -
    have less: "card (cv_woken (qs_condvar s) - {t}) < card (cv_woken (qs_condvar s))"
      using t xs(2) by (intro card_Diff1_less) (auto simp: wf_condvar_def)
    have "holds (bq_list (woken_queue t (qs_queue s))) xs"
      using xs(1) by (simp add: woken_queue_def)
    from holds_remove [OF this] show ?thesis
      using less by (cases xs rule: rev_cases) (auto simp: dequeue_round_def woken_queue_def)
  qed
  ultimately show ?thesis
    using xs(3) by auto
qed

text \<open>A thread waits, an item is enqueued and the thread is signalled.\<close>

definition demo_waiting :: "nat queue_system" where
  "demo_waiting = finish_round 7 None (snd (the (dequeue_round 7 blocking_queue_create))) queue_system_init"

definition demo_signalled :: "nat queue_system" where
  "demo_signalled = demo_waiting\<lparr>qs_queue := the (enqueue least_malloc 7 5 (qs_queue demo_waiting)), qs_enqueued := [5]\<rparr>"

lemma demo_signalled_reachable:
  "(queue_step least_malloc)\<^sup>*\<^sup>* queue_system_init demo_signalled" "cv_woken (qs_condvar demo_signalled) = {7}"
proof -
  note defs = queue_system_init_def blocking_queue_create_def linked_list_create_def
  obtain q where q: "dequeue_round 7 (qs_queue queue_system_init) = Some (None, q :: nat blocking_queue)"
    "cv_waiting (bq_condvar q) = {7}" "cv_woken (bq_condvar q) = {}" "ll_count (snd (bq_list q)) = 0"
    by (auto simp: defs dequeue_round_def remove_last_def get_last_def)
  have w: "demo_waiting = finish_round 7 None q queue_system_init"
    using q(1) by (simp add: demo_waiting_def queue_system_init_def)
  have s1: "queue_step least_malloc queue_system_init demo_waiting"
    unfolding w by (rule queue_step.deq [OF _ _ q(1)]) (simp_all add: defs)
  obtain q' where q': "enqueue least_malloc 7 5 q = Some q'" "bq_condvar q' = cv_signal 7 (bq_condvar q)"
    using q(4) by (cases "bq_list q") (auto simp: enqueue_def list_insert_first_def insert_first_def Let_def)
  have "queue_step least_malloc demo_waiting (demo_waiting\<lparr>qs_queue := q', qs_enqueued := qs_enqueued demo_waiting @ [5]\<rparr>)"
    by (rule queue_step.enq [of _ 7]) (use q q' in \<open>simp_all add: w finish_round_def signal_target_def\<close>)
  then have "queue_step least_malloc demo_waiting demo_signalled"
    using q'(1) by (simp add: demo_signalled_def w finish_round_def queue_system_init_def)
  then show "(queue_step least_malloc)\<^sup>*\<^sup>* queue_system_init demo_signalled"
    using s1 by (auto intro: rtranclp.intros)
  show "cv_woken (qs_condvar demo_signalled) = {7}"
    using q q' by (simp add: demo_signalled_def w finish_round_def)
qed

theorem blocking_queue_no_lost_wakeup_witness:
  "\<exists>v q. dequeue_round 7 (woken_queue 7 (qs_queue demo_signalled)) = Some (v, q) \<and> card (cv_woken (bq_condvar q)) < 1"
  using blocking_queue_no_lost_wakeup [OF least_malloc_fresh demo_signalled_reachable(1)] demo_signalled_reachable(2)
  by auto

end
