(* ===== verification/Ipsec_Sa.thy ===== *)
theory Ipsec_Sa
  imports Esp_Context Host Blocking_Queue
begin

text \<open>
  \<open>libipsec/ipsec_sa.c\<close>: an IPsec SA with its lifetime limits, usage statistics and expiration, and
  \<open>libipsec/ipsec_event_relay.c\<close>: the relay of expiration events to registered listeners. The events
  an operation raises are part of its result, in order.
\<close>

section \<open>Events and their relay\<close>

record ipsec_event =
  ev_protocol :: u8
  ev_spi :: u32
  ev_dst :: host
  ev_hard :: bool

text \<open>A listener is identified by its address; its \<open>expire\<close> callback may be \<open>NULL\<close>.\<close>

record event_listener =
  el_ptr :: addr
  el_expire :: bool

record ipsec_event_relay =
  er_listeners :: "event_listener list"
  er_queue :: "ipsec_event list"

definition ipsec_event_relay_create :: ipsec_event_relay where
  "ipsec_event_relay_create = \<lparr>er_listeners = [], er_queue = []\<rparr>"

text \<open>The queue is the list of the blocking queue: \<open>enqueue\<close> inserts first, \<open>dequeue\<close> removes last.\<close>

definition relay_expire :: "u8 \<Rightarrow> u32 \<Rightarrow> host \<Rightarrow> bool \<Rightarrow> ipsec_event_relay \<Rightarrow> ipsec_event_relay" where
  "relay_expire protocol spi dst hard this =
     this\<lparr>er_queue := \<lparr>ev_protocol = protocol, ev_spi = spi, ev_dst = dst, ev_hard = hard\<rparr> # er_queue this\<rparr>"

definition register_listener :: "event_listener \<Rightarrow> ipsec_event_relay \<Rightarrow> ipsec_event_relay" where
  "register_listener listener this = this\<lparr>er_listeners := er_listeners this @ [listener]\<rparr>"

definition unregister_listener :: "event_listener \<Rightarrow> ipsec_event_relay \<Rightarrow> ipsec_event_relay" where
  "unregister_listener listener this =
     this\<lparr>er_listeners := filter (\<lambda>l. el_ptr l \<noteq> el_ptr listener) (er_listeners this)\<rparr>"

text \<open>
  \<open>handle_events\<close>: the callbacks made for the oldest event, one per listener that has one; \<open>None\<close>
  when the job waits for an event.
\<close>

definition handle_events :: "ipsec_event_relay \<Rightarrow> ((addr \<times> ipsec_event) list \<times> ipsec_event_relay) option" where
  "handle_events this =
     (if er_queue this = [] then None
      else let event = last (er_queue this)
           in Some (map (\<lambda>l. (el_ptr l, event)) (filter el_expire (er_listeners this)),
                    this\<lparr>er_queue := butlast (er_queue this)\<rparr>))"

fun handle_all :: "nat \<Rightarrow> ipsec_event_relay \<Rightarrow> (addr \<times> ipsec_event) list \<times> ipsec_event_relay" where
  "handle_all 0 this = ([], this)"
| "handle_all (Suc n) this =
     (case handle_events this of None \<Rightarrow> ([], this)
      | Some (calls, this) \<Rightarrow> (case handle_all n this of (later, this) \<Rightarrow> (calls @ later, this)))"

lemma handle_all_queue:
  "length (er_queue r) \<le> n \<Longrightarrow>
    handle_all n r =
      (concat (map (\<lambda>ev. map (\<lambda>l. (el_ptr l, ev)) (filter el_expire (er_listeners r))) (rev (er_queue r))),
       r\<lparr>er_queue := []\<rparr>)"
proof (induction n arbitrary: r)
  case (Suc n)
  show ?case
  proof (cases "er_queue r" rule: rev_cases)
    case (snoc q ev)
    then show ?thesis
      using Suc.IH [of "r\<lparr>er_queue := q\<rparr>"] Suc.prems by (simp add: handle_events_def Let_def)
  qed (simp add: handle_events_def)
qed simp

section \<open>The SA\<close>

datatype ipsec_mode_t = MODE_NONE | MODE_TRANSPORT | MODE_TUNNEL | MODE_BEET | MODE_PASS | MODE_DROP

record lifetime_limit =
  lim_life :: u64
  lim_rekey :: u64
  lim_jitter :: u64

record lifetime_cfg =
  lt_time :: lifetime_limit
  lt_bytes :: lifetime_limit
  lt_packets :: lifetime_limit

record 'a ipsec_sa =
  sa_spi :: u32
  sa_src :: host
  sa_dst :: host
  sa_protocol :: u8
  sa_reqid :: u32
  sa_lifetime :: lifetime_cfg
  sa_mode :: ipsec_mode_t
  sa_esn :: bool
  sa_inbound :: bool
  sa_esp_context :: "'a esp_context"
  use_time :: int
  use_packets :: u64
  use_bytes :: u64
  soft_expired :: bool
  hard_expired :: bool

definition sa_set_source :: "host \<Rightarrow> 'a ipsec_sa \<Rightarrow> 'a ipsec_sa" where
  "sa_set_source addr this = this\<lparr>sa_src := addr\<rparr>"

definition sa_set_destination :: "host \<Rightarrow> 'a ipsec_sa \<Rightarrow> 'a ipsec_sa" where
  "sa_set_destination addr this = this\<lparr>sa_dst := addr\<rparr>"

definition get_usestats :: "'a ipsec_sa \<Rightarrow> u64 \<times> u64 \<times> int" where
  "get_usestats this = (use_bytes this, use_packets this, use_time this)"

definition sa_event :: "'a ipsec_sa \<Rightarrow> bool \<Rightarrow> ipsec_event" where
  "sa_event this hard = \<lparr>ev_protocol = sa_protocol this, ev_spi = sa_spi this, ev_dst = sa_dst this, ev_hard = hard\<rparr>"

definition sa_expire :: "bool \<Rightarrow> 'a ipsec_sa \<Rightarrow> ipsec_event list \<times> 'a ipsec_sa" where
  "sa_expire hard this =
     (if hard then
        if \<not> hard_expired this then ([sa_event this True], this\<lparr>hard_expired := True\<rparr>) else ([], this)
      else if \<not> hard_expired this \<and> \<not> soft_expired this
      then ([sa_event this False], this\<lparr>soft_expired := True\<rparr>) else ([], this))"

definition update_usestats :: "int \<Rightarrow> u32 \<Rightarrow> 'a ipsec_sa \<Rightarrow> ipsec_event list \<times> 'a ipsec_sa" where
  "update_usestats now bytes this =
     (let this = this\<lparr>use_time := now, use_packets := use_packets this + 1,
            use_bytes := use_bytes this + ucast bytes\<rparr>;
          packets = lt_packets (sa_lifetime this); octets = lt_bytes (sa_lifetime this)
      in if lim_life packets \<noteq> 0 \<and> use_packets this \<ge> lim_life packets then sa_expire True this
         else if lim_life octets \<noteq> 0 \<and> use_bytes this \<ge> lim_life octets then sa_expire True this
         else if lim_rekey packets \<noteq> 0 \<and> use_packets this \<ge> lim_rekey packets then sa_expire False this
         else if lim_rekey octets \<noteq> 0 \<and> use_bytes this \<ge> lim_rekey octets then sa_expire False this
         else ([], this))"

definition match_by_spi_dst :: "u32 \<Rightarrow> host \<Rightarrow> 'a ipsec_sa \<Rightarrow> bool" where
  "match_by_spi_dst spi dst this \<longleftrightarrow> sa_spi this = spi \<and> ip_equals (sa_dst this) dst \<and> \<not> hard_expired this"

definition match_by_spi_src_dst :: "u32 \<Rightarrow> host \<Rightarrow> host \<Rightarrow> 'a ipsec_sa \<Rightarrow> bool" where
  "match_by_spi_src_dst spi src dst this \<longleftrightarrow>
     sa_spi this = spi \<and> ip_equals (sa_src this) src \<and> ip_equals (sa_dst this) dst"

definition match_by_reqid :: "u32 \<Rightarrow> bool \<Rightarrow> 'a ipsec_sa \<Rightarrow> bool" where
  "match_by_reqid reqid inb this \<longleftrightarrow> sa_reqid this = reqid \<and> sa_inbound this = inb \<and> \<not> hard_expired this"

text \<open>The parameters of a new SA; the mark, the TFC padding and the CPI are ignored by the code.\<close>

record sa_params =
  sp_spi :: u32
  sp_src :: host
  sp_dst :: host
  sp_protocol :: u8
  sp_reqid :: u32
  sp_lifetime :: lifetime_cfg
  sp_enc_alg :: encryption_algorithm_t
  sp_enc_key :: chunk
  sp_int_alg :: u16
  sp_int_key :: chunk
  sp_mode :: ipsec_mode_t
  sp_ipcomp :: u16
  sp_encap :: bool
  sp_esn :: bool
  sp_inbound :: bool

abbreviation (input) IPPROTO_ESP :: u8 where "IPPROTO_ESP \<equiv> 50"
abbreviation (input) IPCOMP_NONE :: u16 where "IPCOMP_NONE \<equiv> 0"

definition ipsec_sa_create ::
  "('a, 'r) aead_t \<Rightarrow> 'c crypter_t \<Rightarrow> 's signer_t \<Rightarrow> 'r rng_t \<Rightarrow> ('r, 'c, 's, 'a) crypto_factory
    \<Rightarrow> sa_params \<Rightarrow> ('a, ('c, 's, 'r) private_aead) aead_obj ipsec_sa option" where
  "ipsec_sa_create A C S R F p =
     (if sp_protocol p \<noteq> IPPROTO_ESP then None
      else if \<not> sp_encap p then None
      else if sp_esn p then None
      else if sp_ipcomp p \<noteq> IPCOMP_NONE then None
      else if sp_mode p \<noteq> MODE_TUNNEL then None
      else case esp_context_create A C S R F (sp_enc_alg p) (sp_enc_key p) (sp_int_alg p) (sp_int_key p) (sp_inbound p) of
          None \<Rightarrow> None
        | Some c \<Rightarrow> Some
            \<lparr>sa_spi = sp_spi p, sa_src = sp_src p, sa_dst = sp_dst p, sa_protocol = sp_protocol p,
             sa_reqid = sp_reqid p, sa_lifetime = sp_lifetime p, sa_mode = sp_mode p, sa_esn = sp_esn p,
             sa_inbound = sp_inbound p, sa_esp_context = c, use_time = 0, use_packets = 0, use_bytes = 0,
             soft_expired = False, hard_expired = False\<rparr>)"

section \<open>Expiration\<close>

text \<open>Everything that happens to an SA between its creation and its destruction.\<close>

datatype sa_op = Use int u32 | Expire bool | SetSource host | SetDestination host

fun sa_exec :: "sa_op \<Rightarrow> 'a ipsec_sa \<Rightarrow> ipsec_event list \<times> 'a ipsec_sa" where
  "sa_exec (Use now bytes) sa = update_usestats now bytes sa"
| "sa_exec (Expire hard) sa = sa_expire hard sa"
| "sa_exec (SetSource addr) sa = ([], sa_set_source addr sa)"
| "sa_exec (SetDestination addr) sa = ([], sa_set_destination addr sa)"

fun sa_run :: "sa_op list \<Rightarrow> 'a ipsec_sa \<Rightarrow> ipsec_event list \<times> 'a ipsec_sa" where
  "sa_run [] sa = ([], sa)"
| "sa_run (op # ops) sa =
     (case sa_exec op sa of (es, sa) \<Rightarrow> (case sa_run ops sa of (fs, sa) \<Rightarrow> (es @ fs, sa)))"

lemma sa_exec_events:
  assumes "sa_exec op sa = (es, sa')"
  shows "map ev_hard es =
      (if hard_expired sa' \<and> \<not> hard_expired sa then [True]
       else if soft_expired sa' \<and> \<not> soft_expired sa then [False] else [])"
    and "hard_expired sa \<Longrightarrow> hard_expired sa' \<and> soft_expired sa' = soft_expired sa"
    and "soft_expired sa \<Longrightarrow> soft_expired sa'"
    and "hard_expired sa' \<Longrightarrow> soft_expired sa' = soft_expired sa"
  using assms
  by (cases op; auto simp: update_usestats_def sa_expire_def sa_event_def sa_set_source_def
      sa_set_destination_def Let_def split: if_splits)+

lemma sa_run_events:
  "sa_run ops sa = (es, sa') \<Longrightarrow>
    map ev_hard es =
      (if soft_expired sa' \<and> \<not> soft_expired sa then [False] else []) @
      (if hard_expired sa' \<and> \<not> hard_expired sa then [True] else []) \<and>
    (hard_expired sa \<longrightarrow> hard_expired sa' \<and> soft_expired sa' = soft_expired sa) \<and>
    (soft_expired sa \<longrightarrow> soft_expired sa')"
proof (induction ops arbitrary: sa es)
  case (Cons op ops)
  obtain es1 sa1 where s1: "sa_exec op sa = (es1, sa1)" by (cases "sa_exec op sa")
  obtain es2 where s2: "sa_run ops sa1 = (es2, sa')" "es = es1 @ es2"
    using Cons.prems s1 by (auto split: prod.splits)
  note IH = Cons.IH [OF s2(1)] and e = sa_exec_events [OF s1]
  show ?case
    using IH e s2(2) by (cases "hard_expired sa"; cases "soft_expired sa"; cases "hard_expired sa1"; cases "soft_expired sa1") auto
qed auto


lemma sa_exec_keeps:
  "sa_exec op sa = (es, sa') \<Longrightarrow> sa_spi sa' = sa_spi sa \<and> sa_protocol sa' = sa_protocol sa \<and>
     sa_lifetime sa' = sa_lifetime sa \<and> sa_reqid sa' = sa_reqid sa \<and> sa_inbound sa' = sa_inbound sa \<and>
     (\<forall>ev \<in> set es. ev_spi ev = sa_spi sa \<and> ev_protocol ev = sa_protocol sa)"
  by (cases op) (auto simp: update_usestats_def sa_expire_def sa_event_def sa_set_source_def
      sa_set_destination_def Let_def split: if_splits)

lemma sa_run_keeps:
  "sa_run ops sa = (es, sa') \<Longrightarrow> sa_spi sa' = sa_spi sa \<and> sa_protocol sa' = sa_protocol sa \<and>
     sa_lifetime sa' = sa_lifetime sa \<and> sa_reqid sa' = sa_reqid sa \<and> sa_inbound sa' = sa_inbound sa \<and>
     (\<forall>ev \<in> set es. ev_spi ev = sa_spi sa \<and> ev_protocol ev = sa_protocol sa)"
proof (induction ops arbitrary: sa es)
  case (Cons op ops)
  then show ?case
    by (fastforce split: prod.splits dest: sa_exec_keeps)
qed auto

lemma sa_run_append:
  "sa_run (xs @ ys) sa =
     (case sa_run xs sa of (es, sa) \<Rightarrow> (case sa_run ys sa of (fs, sa) \<Rightarrow> (es @ fs, sa)))"
  by (induction xs arbitrary: sa) (auto split: prod.splits)

lemma ipsec_sa_create_fresh:
  "ipsec_sa_create A C S R F p = Some sa \<Longrightarrow>
     \<not> soft_expired sa \<and> \<not> hard_expired sa \<and> use_packets sa = 0 \<and> use_bytes sa = 0 \<and>
     sa_spi sa = sp_spi p \<and> sa_src sa = sp_src p \<and> sa_dst sa = sp_dst p \<and> sa_reqid sa = sp_reqid p \<and>
     sa_inbound sa = sp_inbound p \<and> sa_lifetime sa = sp_lifetime p \<and> sa_protocol sa = IPPROTO_ESP \<and>
     esp_context_create A C S R F (sp_enc_alg p) (sp_enc_key p) (sp_int_alg p) (sp_int_key p) (sp_inbound p) =
       Some (sa_esp_context sa)"
  by (auto simp: ipsec_sa_create_def split: if_splits option.splits)

text \<open>
  C19: Whatever happens to an SA after its creation, use by packets, expiration by the scheduler or
  change of its addresses, it raises at most one soft and at most one hard expire event, the soft one
  first, each with its own SPI; the events raised are exactly what its expiration flags say; and once
  hard expired it is never found again by the lookups of the packet processor.
\<close>

theorem ipsec_sa_expires_once:
  assumes "ipsec_sa_create A C S R F p = Some sa" "sa_run ops sa = (es, sa')"
  shows "map ev_hard es = (if soft_expired sa' then [False] else []) @ (if hard_expired sa' then [True] else []) \<and>
         (\<forall>ev \<in> set es. ev_spi ev = sp_spi p \<and> ev_protocol ev = IPPROTO_ESP) \<and>
         (True \<in> set (map ev_hard es) \<longrightarrow> \<not> match_by_spi_dst spi dst sa' \<and> \<not> match_by_reqid reqid inb sa')"
proof -
  note f = ipsec_sa_create_fresh [OF assms(1)]
  have "map ev_hard es = (if soft_expired sa' then [False] else []) @ (if hard_expired sa' then [True] else [])"
    using sa_run_events [OF assms(2)] f by simp
  then show ?thesis
    using sa_run_keeps [OF assms(2)] f by (simp add: match_by_spi_dst_def match_by_reqid_def)
qed

definition demo_sa_params :: sa_params where
  "demo_sa_params =
     \<lparr>sp_spi = 0x1234, sp_src = \<lparr>sa_family = AF_INET, sin_addr = [10, 0, 0, 1], sin_port = 0\<rparr>,
      sp_dst = \<lparr>sa_family = AF_INET, sin_addr = [10, 0, 0, 2], sin_port = 0\<rparr>, sp_protocol = IPPROTO_ESP,
      sp_reqid = 7,
      sp_lifetime = \<lparr>lt_time = \<lparr>lim_life = 0, lim_rekey = 0, lim_jitter = 0\<rparr>,
        lt_bytes = \<lparr>lim_life = 100, lim_rekey = 0, lim_jitter = 0\<rparr>,
        lt_packets = \<lparr>lim_life = 0, lim_rekey = 2, lim_jitter = 0\<rparr>\<rparr>,
      sp_enc_alg = ENCR_CHACHA20_POLY1305, sp_enc_key = replicate 36 1, sp_int_alg = 0, sp_int_key = [],
      sp_mode = MODE_TUNNEL, sp_ipcomp = IPCOMP_NONE, sp_encap = True, sp_esn = False, sp_inbound = True\<rparr>"

definition demo_sa_create where
  "demo_sa_create p = ipsec_sa_create (chapoly_methods portable_drv []) no_crypter no_signer constant_rng
     (chapoly_factory constant_rng (\<lambda>q. Some ())) p"

lemma demo_sa_ex: "\<exists>sa. demo_sa_create demo_sa_params = Some sa"
proof -
  obtain c where "demo_context (replicate 36 1) True = Some c"
    by (rule demo_context_created [of "replicate 36 1" True]) simp
  then show ?thesis
    by (simp add: demo_sa_create_def demo_sa_params_def ipsec_sa_create_def demo_context_def)
qed

theorem ipsec_sa_expires_once_witness:
  "\<exists>sa es sa'. demo_sa_create demo_sa_params = Some sa \<and> sa_run [Use 1 40, Use 2 40, Expire True] sa = (es, sa') \<and>
     map ev_hard es = (if soft_expired sa' then [False] else []) @ (if hard_expired sa' then [True] else []) \<and>
     list_all (\<lambda>ev. ev_spi ev = 0x1234) es"
proof -
  obtain sa where sa: "demo_sa_create demo_sa_params = Some sa"
    using demo_sa_ex by blast
  obtain es sa' where r: "sa_run [Use 1 40, Use 2 40, Expire True] sa = (es, sa')"
    by (cases "sa_run [Use 1 40, Use 2 40, Expire True] sa")
  have "sp_spi demo_sa_params = 0x1234" by (simp add: demo_sa_params_def)
  then show ?thesis
    using ipsec_sa_expires_once [OF sa [unfolded demo_sa_create_def] r] sa r by (auto simp: list_all_iff)
qed

subsection \<open>The limits\<close>

text \<open>
  The limits as natural numbers: what the counters have to reach, for the packets and octets that
  passed.
\<close>

definition limit_reached :: "u64 \<Rightarrow> nat \<Rightarrow> bool" where
  "limit_reached limit n \<longleftrightarrow> limit \<noteq> 0 \<and> unat limit \<le> n"

definition octets :: "(int \<times> u32) list \<Rightarrow> nat" where
  "octets us = sum_list (map (unat \<circ> snd) us)"

definition hard_limit :: "lifetime_cfg \<Rightarrow> (int \<times> u32) list \<Rightarrow> bool" where
  "hard_limit lt us \<longleftrightarrow> us \<noteq> [] \<and>
     (limit_reached (lim_life (lt_packets lt)) (length us) \<or> limit_reached (lim_life (lt_bytes lt)) (octets us))"

definition soft_limit :: "lifetime_cfg \<Rightarrow> (int \<times> u32) list \<Rightarrow> bool" where
  "soft_limit lt us \<longleftrightarrow> us \<noteq> [] \<and>
     (limit_reached (lim_rekey (lt_packets lt)) (length us) \<or> limit_reached (lim_rekey (lt_bytes lt)) (octets us))"

lemma octets_snoc [simp]: "octets [] = 0" "octets (us @ [u]) = octets us + unat (snd u)"
  by (simp_all add: octets_def)

lemma limit_reached_word:
  "n < 2 ^ 64 \<Longrightarrow> (limit \<noteq> 0 \<and> limit \<le> (of_nat n :: u64)) = limit_reached limit n"
  by (simp add: limit_reached_def word_le_nat_alt unat_of_nat)

lemma hard_limit_mono:
  "hard_limit lt us \<Longrightarrow> hard_limit lt (us @ [u])"
  by (auto simp: hard_limit_def limit_reached_def)

lemma update_usestats_step:
  assumes "use_packets sa = of_nat (length us)" "use_bytes sa = of_nat (octets us)"
    and "length us + 1 < 2 ^ 64" "octets us + unat b < 2 ^ 64"
    and upd: "update_usestats t b sa = (es, sa')"
  defines "H \<equiv> hard_limit (sa_lifetime sa) (us @ [(t, b)])" and "Q \<equiv> soft_limit (sa_lifetime sa) (us @ [(t, b)])"
  shows "use_packets sa' = of_nat (length (us @ [(t, b)])) \<and> use_bytes sa' = of_nat (octets (us @ [(t, b)])) \<and>
         sa_lifetime sa' = sa_lifetime sa \<and>
         hard_expired sa' = (hard_expired sa \<or> H) \<and>
         soft_expired sa' = (soft_expired sa \<or> (\<not> hard_expired sa \<and> \<not> H \<and> Q))"
proof -
  have p: "use_packets sa + 1 = of_nat (length us + 1)"
    using assms(1) by simp
  have "(ucast b :: u64) = of_nat (unat b)"
    by simp
  then have o: "use_bytes sa + ucast b = of_nat (octets us + unat b)"
    using assms(2) by simp
  have lim: "(limit \<noteq> 0 \<and> limit \<le> use_packets sa + 1) = limit_reached limit (length us + 1)"
    "(limit \<noteq> 0 \<and> limit \<le> use_bytes sa + ucast b) = limit_reached limit (octets us + unat b)" for limit
    unfolding p o using limit_reached_word assms(3,4) by blast+
  have upd': "use_packets sa' = use_packets sa + 1 \<and> use_bytes sa' = use_bytes sa + ucast b \<and>
      sa_lifetime sa' = sa_lifetime sa"
    using upd by (auto simp: update_usestats_def Let_def sa_expire_def split: if_splits)
  have "hard_expired sa' = (hard_expired sa \<or> H) \<and>
      soft_expired sa' = (soft_expired sa \<or> (\<not> hard_expired sa \<and> \<not> H \<and> Q))"
    using upd unfolding H_def Q_def hard_limit_def soft_limit_def octets_snoc length_append_singleton Suc_eq_plus1 snd_conv
      lim [symmetric]
    by (auto simp: update_usestats_def Let_def sa_expire_def split: if_splits)
  then show ?thesis
    using upd' p o by simp
qed

lemma sa_use_run:
  assumes "use_packets sa = 0" "use_bytes sa = 0" "\<not> hard_expired sa" "\<not> soft_expired sa"
    and "length us < 2 ^ 64" "octets us < 2 ^ 64" "sa_run (map (\<lambda>(t, b). Use t b) us) sa = (es, sa')"
  shows "use_packets sa' = of_nat (length us) \<and> use_bytes sa' = of_nat (octets us) \<and>
         sa_lifetime sa' = sa_lifetime sa \<and>
         hard_expired sa' = hard_limit (sa_lifetime sa) us \<and>
         soft_expired sa' = (\<exists>k \<le> length us. soft_limit (sa_lifetime sa) (take k us) \<and> \<not> hard_limit (sa_lifetime sa) (take k us))"
  using assms(5-7)
proof (induction us arbitrary: es sa' rule: rev_induct)
  case Nil
  then show ?case
    using assms(1-4) by (simp add: hard_limit_def soft_limit_def)
next
  case (snoc u us)
  obtain t b where u: "u = (t, b)" by (cases u)
  obtain es1 sa1 where r1: "sa_run (map (\<lambda>(t, b). Use t b) us) sa = (es1, sa1)"
    by (cases "sa_run (map (\<lambda>(t, b). Use t b) us) sa")
  obtain es2 where r2: "update_usestats t b sa1 = (es2, sa')"
    using snoc.prems(3) r1 u by (auto simp: sa_run_append split: prod.splits)
  have IH: "use_packets sa1 = of_nat (length us)" "use_bytes sa1 = of_nat (octets us)"
    "sa_lifetime sa1 = sa_lifetime sa" "hard_expired sa1 = hard_limit (sa_lifetime sa) us"
    "soft_expired sa1 = (\<exists>k \<le> length us. soft_limit (sa_lifetime sa) (take k us) \<and> \<not> hard_limit (sa_lifetime sa) (take k us))"
    using snoc.IH [OF _ _ r1] snoc.prems by auto
  note st = update_usestats_step [OF IH(1,2) _ _ r2, unfolded IH(3)]
  have "(\<exists>k \<le> length (us @ [u]). soft_limit (sa_lifetime sa) (take k (us @ [u])) \<and> \<not> hard_limit (sa_lifetime sa) (take k (us @ [u]))) \<longleftrightarrow>
     soft_expired sa1 \<or> (soft_limit (sa_lifetime sa) (us @ [u]) \<and> \<not> hard_limit (sa_lifetime sa) (us @ [u]))"
    unfolding IH(5) by (auto simp: le_Suc_eq)
  then show ?case
    using st snoc.prems(1,2) IH(4) hard_limit_mono u by (auto simp del: octets_snoc simp add: octets_snoc)
qed

text \<open>
  C20: The usage statistics of an SA are exact: after any packets, fewer than \<open>2\<^sup>6\<^sup>4\<close> in number and in
  total octets, the counters are their number and total size, the SA is hard expired if and only if
  the packets or octets reached a configured life limit, and soft expired if and only if a rekey
  limit was reached by some first packets that did not yet reach a life limit.
\<close>

theorem ipsec_sa_limits_exact:
  assumes "ipsec_sa_create A C S R F p = Some sa" "length us < 2 ^ 64" "octets us < 2 ^ 64"
    and "sa_run (map (\<lambda>(t, b). Use t b) us) sa = (es, sa')"
  shows "get_usestats sa' = (of_nat (octets us), of_nat (length us), use_time sa') \<and>
         hard_expired sa' = hard_limit (sp_lifetime p) us \<and>
         soft_expired sa' = (\<exists>k \<le> length us. soft_limit (sp_lifetime p) (take k us) \<and> \<not> hard_limit (sp_lifetime p) (take k us))"
proof -
  note f = ipsec_sa_create_fresh [OF assms(1)]
  then have "sa_lifetime sa = sp_lifetime p" by simp
  then show ?thesis
    using sa_use_run [OF _ _ _ _ assms(2-4)] f by (simp add: get_usestats_def)
qed

theorem ipsec_sa_limits_exact_witness:
  "\<exists>sa es sa'. demo_sa_create demo_sa_params = Some sa \<and>
     sa_run (map (\<lambda>(t, b). Use t b) [(1, 40), (2, 80)]) sa = (es, sa') \<and>
     get_usestats sa' = (120, 2, use_time sa') \<and> hard_expired sa' \<and> \<not> soft_expired sa'"
proof -
  let ?us = "[(1, 40), (2, 80)] :: (int \<times> u32) list"
  obtain sa where sa: "demo_sa_create demo_sa_params = Some sa"
    using demo_sa_ex by blast
  obtain es sa' where r: "sa_run (map (\<lambda>(t, b). Use t b) ?us) sa = (es, sa')"
    by (cases "sa_run (map (\<lambda>(t, b). Use t b) ?us) sa")
  have o: "octets ?us = 120" "octets [] = 0" "octets [(1, 40)] = 40"
    by (simp_all add: octets_def)
  have h: "hard_limit (sp_lifetime demo_sa_params) ?us"
    "\<not> soft_limit (sp_lifetime demo_sa_params) (take k ?us) \<or> hard_limit (sp_lifetime demo_sa_params) (take k ?us)" for k
    by (cases k; cases "k - 1"; auto simp: hard_limit_def soft_limit_def limit_reached_def demo_sa_params_def o)+
  show ?thesis
    using ipsec_sa_limits_exact [OF sa [unfolded demo_sa_create_def] _ _ r] sa r h o by auto
qed

text \<open>
  The relay delivers every queued event, oldest first, to every registered listener that has an
  expire callback, once, and then waits.
\<close>

lemma event_relay_delivers:
  assumes "er_queue r = rev evs"
  shows "handle_all (length evs) r =
           (concat (map (\<lambda>ev. map (\<lambda>l. (el_ptr l, ev)) (filter el_expire (er_listeners r))) evs), r\<lparr>er_queue := []\<rparr>) \<and>
         handle_events (snd (handle_all (length evs) r)) = None"
  using handle_all_queue [of r "length evs"] assms by (simp add: handle_events_def)

end
