(* ===== verification/Sa_Entry.thy ===== *)
theory Sa_Entry
  imports Threads
begin

text \<open>
  The entries of \<open>libipsec/ipsec_sa_mgr.c\<close>: threads check an SA out and in, wait for one that is
  checked out, and delete it once nobody uses it. The code runs under the mutex of the manager and
  gives it up only while it waits on the condition variable of the entry, so each function is cut
  at its \<open>wait\<close> calls into rounds that run as one step.
\<close>

section \<open>The functions of an entry\<close>

record sa_sync =
  es_locked :: bool
  es_waiting_threads :: nat
  es_awaits_deletion :: bool
  es_condvar :: condvar

definition create_sync :: sa_sync where
  "create_sync = \<lparr>es_locked = False, es_waiting_threads = 0, es_awaits_deletion = False, es_condvar = condvar_create\<rparr>"

text \<open>
  \<open>wait_for_entry\<close> by thread \<open>t\<close> from its loop condition on: the thread waits (\<open>None\<close>) or the function
  returns. A signal, if it is sent, reaches \<open>w\<close>.
\<close>

definition wait_for_entry :: "tid \<Rightarrow> tid \<Rightarrow> sa_sync \<Rightarrow> bool option \<times> sa_sync" where
  "wait_for_entry t w entry =
     (if es_locked entry \<and> \<not> es_awaits_deletion entry
      then (None, entry\<lparr>es_waiting_threads := es_waiting_threads entry + 1, es_condvar := cv_wait t (es_condvar entry)\<rparr>)
      else if es_awaits_deletion entry
      then (Some False, entry\<lparr>es_condvar := cv_signal w (es_condvar entry)\<rparr>)
      else (Some True, entry\<lparr>es_locked := True\<rparr>))"

definition wait_for_entry_resume :: "tid \<Rightarrow> tid \<Rightarrow> sa_sync \<Rightarrow> bool option \<times> sa_sync" where
  "wait_for_entry_resume t w entry =
     wait_for_entry t w (entry\<lparr>es_waiting_threads := es_waiting_threads entry - 1,
       es_condvar := cv_resume t (es_condvar entry)\<rparr>)"

text \<open>\<open>checkin\<close>, and the end of \<open>update_sa\<close> and \<open>query_sa\<close>.\<close>

definition release_entry :: "tid \<Rightarrow> sa_sync \<Rightarrow> sa_sync" where
  "release_entry w entry = entry\<lparr>es_locked := False, es_condvar := cv_signal w (es_condvar entry)\<rparr>"

text \<open>\<open>wait_remove_entry\<close>: the loop over waiting threads, the loop while the entry is locked, the function.\<close>

datatype removal = Refused | WaitLocked | WaitThreads | Removable

definition wait_remove_threads :: "tid \<Rightarrow> sa_sync \<Rightarrow> removal \<times> sa_sync" where
  "wait_remove_threads t entry =
     (if es_waiting_threads entry > 0
      then (WaitThreads, entry\<lparr>es_condvar := cv_wait t (cv_broadcast (es_condvar entry))\<rparr>)
      else (Removable, entry))"

definition wait_remove_locked :: "tid \<Rightarrow> sa_sync \<Rightarrow> removal \<times> sa_sync" where
  "wait_remove_locked t entry =
     (if es_locked entry then (WaitLocked, entry\<lparr>es_condvar := cv_wait t (es_condvar entry)\<rparr>)
      else wait_remove_threads t entry)"

definition wait_remove_entry :: "tid \<Rightarrow> sa_sync \<Rightarrow> removal \<times> sa_sync" where
  "wait_remove_entry t entry =
     (if es_awaits_deletion entry then (Refused, entry)
      else wait_remove_locked t (entry\<lparr>es_awaits_deletion := True\<rparr>))"

definition resume_entry :: "tid \<Rightarrow> sa_sync \<Rightarrow> sa_sync" where
  "resume_entry t entry = entry\<lparr>es_condvar := cv_resume t (es_condvar entry)\<rparr>"

section \<open>Threads on one entry\<close>

text \<open>
  Where a thread is: not using the entry, waiting in \<open>wait_for_entry\<close>, holding the SA, or in one of
  the two loops of \<open>wait_remove_entry\<close>. \<open>update_sa\<close> and \<open>query_sa\<close> check out and in in one go. An
  entry found removable is taken from the list and destroyed; from then on no thread finds it.
\<close>

datatype sa_place = Idle | WaitingFor | Holding | InLockedLoop | InThreadsLoop

record sa_system =
  sy_entry :: sa_sync
  sy_destroyed :: bool
  sy_place :: "tid \<Rightarrow> sa_place"

definition sa_system_init :: sa_system where
  "sa_system_init = \<lparr>sy_entry = create_sync, sy_destroyed = False, sy_place = (\<lambda>_. Idle)\<rparr>"

fun place_after_wait :: "bool option \<Rightarrow> sa_place" where
  "place_after_wait None = WaitingFor"
| "place_after_wait (Some True) = Holding"
| "place_after_wait (Some False) = Idle"

fun place_after_remove :: "removal \<Rightarrow> sa_place" where
  "place_after_remove WaitLocked = InLockedLoop"
| "place_after_remove WaitThreads = InThreadsLoop"
| "place_after_remove _ = Idle"

definition goto :: "tid \<Rightarrow> sa_place \<Rightarrow> sa_sync \<Rightarrow> sa_system \<Rightarrow> sa_system" where
  "goto t pl entry s = s\<lparr>sy_entry := entry, sy_place := (sy_place s)(t := pl)\<rparr>"

definition finish_remove :: "tid \<Rightarrow> removal \<times> sa_sync \<Rightarrow> sa_system \<Rightarrow> sa_system" where
  "finish_remove t r s =
     (goto t (place_after_remove (fst r)) (snd r) s)\<lparr>sy_destroyed := sy_destroyed s \<or> fst r = Removable\<rparr>"

abbreviation sy_condvar :: "sa_system \<Rightarrow> condvar" where
  "sy_condvar s \<equiv> es_condvar (sy_entry s)"

text \<open>
  Steps that finish what threads have begun: a woken thread takes its next round, or the thread
  that holds the SA checks it in.
\<close>

inductive sa_internal :: "sa_system \<Rightarrow> sa_system \<Rightarrow> bool" where
  resume_wait: "sy_place s t = WaitingFor \<Longrightarrow> t \<in> cv_woken (sy_condvar s) \<Longrightarrow> signal_target (sy_condvar s) w \<Longrightarrow>
    wait_for_entry_resume t w (sy_entry s) = (r, e) \<Longrightarrow> sa_internal s (goto t (place_after_wait r) e s)"
| checkin: "sy_place s t = Holding \<Longrightarrow> signal_target (sy_condvar s) w \<Longrightarrow>
    sa_internal s (goto t Idle (release_entry w (sy_entry s)) s)"
| resume_locked: "sy_place s t = InLockedLoop \<Longrightarrow> t \<in> cv_woken (sy_condvar s) \<Longrightarrow>
    sa_internal s (finish_remove t (wait_remove_locked t (resume_entry t (sy_entry s))) s)"
| resume_threads: "sy_place s t = InThreadsLoop \<Longrightarrow> t \<in> cv_woken (sy_condvar s) \<Longrightarrow>
    sa_internal s (finish_remove t (wait_remove_threads t (resume_entry t (sy_entry s))) s)"

text \<open>All steps: a thread also starts to use or to remove the entry, or is woken spuriously.\<close>

inductive sa_step :: "sa_system \<Rightarrow> sa_system \<Rightarrow> bool" where
  internal: "sa_internal s s' \<Longrightarrow> sa_step s s'"
| checkout: "sy_place s t = Idle \<Longrightarrow> \<not> sy_destroyed s \<Longrightarrow> signal_target (sy_condvar s) w \<Longrightarrow>
    wait_for_entry t w (sy_entry s) = (r, e) \<Longrightarrow> sa_step s (goto t (place_after_wait r) e s)"
| remove: "sy_place s t = Idle \<Longrightarrow> \<not> sy_destroyed s \<Longrightarrow>
    sa_step s (finish_remove t (wait_remove_entry t (sy_entry s)) s)"
| spurious: "t \<in> cv_waiting (sy_condvar s) \<Longrightarrow>
    sa_step s (s\<lparr>sy_entry := (sy_entry s)\<lparr>es_condvar := cv_signal t (sy_condvar s)\<rparr>\<rparr>)"

section \<open>Invariant\<close>

definition at :: "sa_system \<Rightarrow> sa_place \<Rightarrow> tid set" where
  "at s pl = {t. sy_place s t = pl}"

definition removers :: "sa_system \<Rightarrow> tid set" where
  "removers s = at s InLockedLoop \<union> at s InThreadsLoop"

definition sa_inv0 :: "sa_system \<Rightarrow> bool" where
  "sa_inv0 s \<longleftrightarrow>
     finite (at s WaitingFor) \<and> wf_condvar (sy_condvar s) \<and>
     cv_waiting (sy_condvar s) \<union> cv_woken (sy_condvar s) = at s WaitingFor \<union> removers s \<and>
     es_waiting_threads (sy_entry s) = card (at s WaitingFor) \<and>
     (es_locked (sy_entry s) \<longleftrightarrow> at s Holding \<noteq> {}) \<and>
     (\<forall>t u. t \<in> at s Holding \<longrightarrow> u \<in> at s Holding \<longrightarrow> t = u) \<and>
     (es_awaits_deletion (sy_entry s) \<longleftrightarrow> removers s \<noteq> {} \<or> sy_destroyed s) \<and>
     (\<forall>t u. t \<in> removers s \<longrightarrow> u \<in> removers s \<longrightarrow> t = u) \<and>
     (at s InThreadsLoop \<noteq> {} \<longrightarrow> \<not> es_locked (sy_entry s) \<and> cv_waiting (sy_condvar s) \<subseteq> at s InThreadsLoop) \<and>
     (sy_destroyed s \<longrightarrow> (\<forall>t. sy_place s t = Idle))"

text \<open>No lost wakeup: when nobody holds the SA but threads wait, some thread has been woken.\<close>

definition wakeup_pending :: "sa_system \<Rightarrow> bool" where
  "wakeup_pending s \<longleftrightarrow>
     (\<not> es_locked (sy_entry s) \<longrightarrow> cv_waiting (sy_condvar s) \<noteq> {} \<longrightarrow> cv_woken (sy_condvar s) \<noteq> {})"

definition sa_inv :: "sa_system \<Rightarrow> bool" where
  "sa_inv s \<longleftrightarrow> sa_inv0 s \<and> wakeup_pending s"

lemma at_iff [simp]: "t \<in> at s pl \<longleftrightarrow> sy_place s t = pl"
  by (simp add: at_def)

lemma at_goto [simp]:
  "at (goto t q e s) pl = (if pl = q then insert t (at s pl) else at s pl - {t})"
  "sy_entry (goto t q e s) = e" "sy_destroyed (goto t q e s) = sy_destroyed s"
  "sy_place (goto t q e s) = (sy_place s)(t := q)"
  by (auto simp: goto_def at_def)

lemma at_destroyed [simp]: "at (s\<lparr>sy_destroyed := d\<rparr>) = at s" "at (s\<lparr>sy_entry := e\<rparr>) = at s"
  by (auto simp: at_def fun_eq_iff)

lemma removers_upd [simp]:
  "removers (s\<lparr>sy_destroyed := d\<rparr>) = removers s" "removers (s\<lparr>sy_entry := e\<rparr>) = removers s"
  "removers (goto t q e s) =
     (if q = InLockedLoop \<or> q = InThreadsLoop then insert t (removers s) else removers s - {t})"
  by (auto simp: removers_def)

lemmas sa_inv_defs = sa_inv_def sa_inv0_def wakeup_pending_def

lemma sa_init_inv: "sa_inv sa_system_init"
  by (auto simp: sa_inv_defs sa_system_init_def create_sync_def removers_def at_def)

lemma sa_inv0D:
  assumes "sa_inv0 s"
  shows "finite (at s WaitingFor)" "wf_condvar (sy_condvar s)"
    "cv_waiting (sy_condvar s) \<union> cv_woken (sy_condvar s) = at s WaitingFor \<union> removers s"
    "es_waiting_threads (sy_entry s) = card (at s WaitingFor)"
    "es_locked (sy_entry s) \<longleftrightarrow> at s Holding \<noteq> {}"
    "t \<in> at s Holding \<Longrightarrow> u \<in> at s Holding \<Longrightarrow> t = u"
    "es_awaits_deletion (sy_entry s) \<longleftrightarrow> removers s \<noteq> {} \<or> sy_destroyed s"
    "t \<in> removers s \<Longrightarrow> u \<in> removers s \<Longrightarrow> t = u"
    "at s InThreadsLoop \<noteq> {} \<Longrightarrow> \<not> es_locked (sy_entry s) \<and> cv_waiting (sy_condvar s) \<subseteq> at s InThreadsLoop"
    "sy_destroyed s \<Longrightarrow> sy_place s t = Idle"
  using assms unfolding sa_inv0_def by blast+

lemma removers_iff: "t \<in> removers s \<longleftrightarrow> sy_place s t = InLockedLoop \<or> sy_place s t = InThreadsLoop"
  by (auto simp: removers_def)

lemma on_condvar_iff:
  "sa_inv0 s \<Longrightarrow> t \<in> cv_waiting (sy_condvar s) \<or> t \<in> cv_woken (sy_condvar s) \<longleftrightarrow>
     sy_place s t = WaitingFor \<or> sy_place s t = InLockedLoop \<or> sy_place s t = InThreadsLoop"
  using sa_inv0D(3) [of s] by (metis Un_iff at_iff removers_iff)

lemma sa_inv0I:
  assumes "finite (at s WaitingFor)" "wf_condvar (sy_condvar s)"
    "\<And>t. t \<in> cv_waiting (sy_condvar s) \<or> t \<in> cv_woken (sy_condvar s) \<longleftrightarrow> t \<in> at s WaitingFor \<or> t \<in> removers s"
    "es_waiting_threads (sy_entry s) = card (at s WaitingFor)"
    "es_locked (sy_entry s) \<longleftrightarrow> at s Holding \<noteq> {}"
    "\<And>t u. t \<in> at s Holding \<Longrightarrow> u \<in> at s Holding \<Longrightarrow> t = u"
    "es_awaits_deletion (sy_entry s) \<longleftrightarrow> removers s \<noteq> {} \<or> sy_destroyed s"
    "\<And>t u. t \<in> removers s \<Longrightarrow> u \<in> removers s \<Longrightarrow> t = u"
    "at s InThreadsLoop \<noteq> {} \<Longrightarrow> \<not> es_locked (sy_entry s) \<and> cv_waiting (sy_condvar s) \<subseteq> at s InThreadsLoop"
    "\<And>t. sy_destroyed s \<Longrightarrow> sy_place s t = Idle"
  shows "sa_inv0 s"
  unfolding sa_inv0_def
proof (intro conjI allI impI)
  show "cv_waiting (sy_condvar s) \<union> cv_woken (sy_condvar s) = at s WaitingFor \<union> removers s"
    using assms(3) by blast
qed (use assms in blast)+

lemma removers_cases: "t \<in> removers s \<longleftrightarrow> t \<in> at s InLockedLoop \<or> t \<in> at s InThreadsLoop"
  by (simp add: removers_def)

text \<open>
  The functions keep the invariant; those that may use up a wakeup either lock the entry or pass the
  wakeup on.
\<close>

lemma wait_for_entry_inv:
  assumes inv: "sa_inv0 s" and t: "sy_place s t = Idle" "\<not> sy_destroyed s" and w: "signal_target (sy_condvar s) w"
    and r: "wait_for_entry t w (sy_entry s) = (r, e)"
  shows "sa_inv (goto t (place_after_wait r) e s)"
proof -
  note D = sa_inv0D [OF inv]
  have c: "u \<in> cv_waiting (sy_condvar s) \<or> u \<in> cv_woken (sy_condvar s) \<longleftrightarrow> u \<in> at s WaitingFor \<or> u \<in> removers s" for u
    using D(3) by blast
  have tn: "t \<notin> cv_waiting (sy_condvar s)" "t \<notin> cv_woken (sy_condvar s)" "t \<notin> removers s"
    "t \<notin> at s WaitingFor" "t \<notin> at s Holding" "t \<notin> at s InThreadsLoop"
    using on_condvar_iff [OF inv, of t] t by (auto simp: removers_iff)
  consider "es_locked (sy_entry s)" "\<not> es_awaits_deletion (sy_entry s)" | "es_awaits_deletion (sy_entry s)"
    | "\<not> es_locked (sy_entry s)" "\<not> es_awaits_deletion (sy_entry s)" by blast
  then show ?thesis
  proof cases
    case 1
    then have re: "r = None" "e = (sy_entry s)\<lparr>es_waiting_threads := es_waiting_threads (sy_entry s) + 1,
        es_condvar := cv_wait t (sy_condvar s)\<rparr>"
      using r by (auto simp: wait_for_entry_def)
    have "at s InThreadsLoop = {}"
      using D(9) 1(1) by blast
    then have "sa_inv0 (goto t (place_after_wait r) e s)"
      using D(1,2,4,5,7) tn t 1 c unfolding re
      by (intro sa_inv0I) (auto intro: D(6,8))
    then show ?thesis
      using 1 re by (simp add: sa_inv_def wakeup_pending_def)
  next
    case 2
    then have re: "r = Some False" "e = (sy_entry s)\<lparr>es_condvar := cv_signal w (sy_condvar s)\<rparr>"
      using r by (auto simp: wait_for_entry_def)
    have "sa_inv0 (goto t (place_after_wait r) e s)"
      using D(1,2,4,5,7) D(9) tn t 2 c unfolding re
      by (intro sa_inv0I) (auto intro: D(6,8))
    then show ?thesis
      using w re by (auto simp: sa_inv_def wakeup_pending_def signal_target_def)
  next
    case 3
    then have re: "r = Some True" "e = (sy_entry s)\<lparr>es_locked := True\<rparr>"
      using r by (auto simp: wait_for_entry_def)
    have "at s InThreadsLoop = {}" "at s Holding = {}"
      using D(5,7) 3 by (auto simp: removers_def)
    then have "sa_inv0 (goto t (place_after_wait r) e s)"
      using D(1,2,4,7) tn t 3 c unfolding re
      by (intro sa_inv0I) (auto intro: D(8))
    then show ?thesis
      using re by (simp add: sa_inv_def wakeup_pending_def)
  qed
qed

lemma wait_for_entry_resume_inv:
  assumes inv: "sa_inv0 s" and t: "sy_place s t = WaitingFor" "t \<in> cv_woken (sy_condvar s)"
    and w: "signal_target (sy_condvar s) w" and r: "wait_for_entry_resume t w (sy_entry s) = (r, e)"
  shows "sa_inv (goto t (place_after_wait r) e s)"
proof -
  note D = sa_inv0D [OF inv]
  have c: "u \<in> cv_waiting (sy_condvar s) \<or> u \<in> cv_woken (sy_condvar s) \<longleftrightarrow> u \<in> at s WaitingFor \<or> u \<in> removers s" for u
    using D(3) by blast
  let ?e = "(sy_entry s)\<lparr>es_waiting_threads := es_waiting_threads (sy_entry s) - 1,
      es_condvar := cv_resume t (sy_condvar s)\<rparr>"
  have tn: "t \<notin> cv_waiting (sy_condvar s)" "t \<notin> removers s" "t \<in> at s WaitingFor" "t \<notin> at s Holding"
    "t \<notin> at s InThreadsLoop"
    using D(2) t by (auto simp: removers_iff wf_condvar_def)
  have nd: "\<not> sy_destroyed s"
    using D(10) [of t] t(1) by auto
  have "sa_inv0 (goto t Idle ?e s)"
    using D(1,2,4,5,7) D(9) tn t c nd
    by (intro sa_inv0I) (auto intro: D(6,8))
  from wait_for_entry_inv [OF this, of t w r e] show ?thesis
    using r w nd by (simp add: wait_for_entry_resume_def signal_target_def) (simp add: goto_def)
qed

lemma release_entry_inv:
  assumes inv: "sa_inv0 s" and t: "sy_place s t = Holding" and w: "signal_target (sy_condvar s) w"
  shows "sa_inv (goto t Idle (release_entry w (sy_entry s)) s)"
proof -
  note D = sa_inv0D [OF inv]
  have c: "u \<in> cv_waiting (sy_condvar s) \<or> u \<in> cv_woken (sy_condvar s) \<longleftrightarrow> u \<in> at s WaitingFor \<or> u \<in> removers s" for u
    using D(3) by blast
  have tn: "t \<notin> cv_waiting (sy_condvar s)" "t \<notin> cv_woken (sy_condvar s)" "t \<notin> removers s" "t \<notin> at s WaitingFor"
    using on_condvar_iff [OF inv, of t] t by (auto simp: removers_iff)
  have h: "at s Holding = {t}"
    using D(6) t by fastforce
  have "\<not> sy_destroyed s" "at s InThreadsLoop = {}"
    using D(5,9) D(10) [of t] t h by auto
  then have "sa_inv0 (goto t Idle (release_entry w (sy_entry s)) s)"
    using D(1,2,4,7) tn c h unfolding release_entry_def
    by (intro sa_inv0I) (auto intro: D(8))
  then show ?thesis
    using w by (auto simp: sa_inv_def wakeup_pending_def signal_target_def release_entry_def)
qed

text \<open>
  The removing thread: a state in which it is about to test the loop conditions is one in which it
  is in the first loop, neither waiting nor woken.
\<close>

definition remove_ready :: "tid \<Rightarrow> sa_system \<Rightarrow> bool" where
  "remove_ready t s \<longleftrightarrow>
     finite (at s WaitingFor) \<and> wf_condvar (sy_condvar s) \<and>
     (\<forall>u. u \<in> cv_waiting (sy_condvar s) \<or> u \<in> cv_woken (sy_condvar s) \<longleftrightarrow> u \<in> at s WaitingFor) \<and>
     es_waiting_threads (sy_entry s) = card (at s WaitingFor) \<and>
     (es_locked (sy_entry s) \<longleftrightarrow> at s Holding \<noteq> {}) \<and>
     (\<forall>t u. t \<in> at s Holding \<longrightarrow> u \<in> at s Holding \<longrightarrow> t = u) \<and>
     es_awaits_deletion (sy_entry s) \<and> \<not> sy_destroyed s \<and> removers s = {} \<and> sy_place s t = Idle"

lemma remove_readyD:
  assumes "remove_ready t s"
  shows "finite (at s WaitingFor)" "wf_condvar (sy_condvar s)"
    "u \<in> cv_waiting (sy_condvar s) \<or> u \<in> cv_woken (sy_condvar s) \<longleftrightarrow> u \<in> at s WaitingFor"
    "es_waiting_threads (sy_entry s) = card (at s WaitingFor)"
    "es_locked (sy_entry s) \<longleftrightarrow> at s Holding \<noteq> {}"
    "u \<in> at s Holding \<Longrightarrow> v \<in> at s Holding \<Longrightarrow> u = v"
    "es_awaits_deletion (sy_entry s)" "\<not> sy_destroyed s" "removers s = {}" "sy_place s t = Idle"
  using assms unfolding remove_ready_def by blast+

lemma wait_remove_threads_inv:
  assumes rd: "remove_ready t s" and nl: "\<not> es_locked (sy_entry s)"
  shows "sa_inv (finish_remove t (wait_remove_threads t (sy_entry s)) s)"
proof -
  note D = remove_readyD [OF rd]
  have tn: "t \<notin> cv_waiting (sy_condvar s)" "t \<notin> cv_woken (sy_condvar s)" "t \<notin> at s WaitingFor"
    using D(3) [of t] D(10) by auto
  have nr: "at s InThreadsLoop = {}" "at s InLockedLoop = {}"
    using D(9) by (auto simp: removers_def)
  have nh: "at s Holding = {}"
    using D(5) nl by blast
  show ?thesis
  proof (cases "es_waiting_threads (sy_entry s) > 0")
    case True
    then obtain u where u: "u \<in> at s WaitingFor"
      using D(4) by (metis card.empty ex_in_conv less_nat_zero_code)
    then have "u \<in> cv_waiting (sy_condvar s) \<or> u \<in> cv_woken (sy_condvar s)"
      using D(3) by blast
    moreover have "sa_inv0 (finish_remove t (wait_remove_threads t (sy_entry s)) s)"
      using True D(1,2,4,7,8,9,10) nl nh nr tn
      unfolding wait_remove_threads_def finish_remove_def
      by (intro sa_inv0I) (auto simp: D(3) [unfolded at_iff, symmetric])
    ultimately show ?thesis
      using True by (auto simp: sa_inv_def wakeup_pending_def wait_remove_threads_def finish_remove_def)
  next
    case False
    then have w: "at s WaitingFor = {}"
      using D(1,4) by simp
    then have idle: "sy_place s u = Idle" for u
      using nh nr by (cases "sy_place s u") (auto simp: at_def)
    have cv: "cv_waiting (sy_condvar s) = {}" "cv_woken (sy_condvar s) = {}"
      using D(3) w by auto
    have "sa_inv0 (finish_remove t (wait_remove_threads t (sy_entry s)) s)"
      using False D(2,4,7,8,9,10) nl nh nr tn w idle cv
      unfolding wait_remove_threads_def finish_remove_def
      by (intro sa_inv0I) auto
    then show ?thesis
      using False cv by (auto simp: sa_inv_def wakeup_pending_def wait_remove_threads_def finish_remove_def)
  qed
qed

lemma wait_remove_locked_inv:
  assumes rd: "remove_ready t s"
  shows "sa_inv (finish_remove t (wait_remove_locked t (sy_entry s)) s)"
proof (cases "es_locked (sy_entry s)")
  case True
  note D = remove_readyD [OF rd]
  have tn: "t \<notin> cv_waiting (sy_condvar s)" "t \<notin> cv_woken (sy_condvar s)" "t \<notin> at s WaitingFor" "t \<notin> at s Holding"
    using D(3) [of t] D(10) by auto
  have nr: "at s InThreadsLoop = {}" "at s InLockedLoop = {}"
    using D(9) by (auto simp: removers_def)
  have "sa_inv0 (finish_remove t (wait_remove_locked t (sy_entry s)) s)"
    using True D(1,2,4,5,7,8,9,10) nr tn D(3)
    unfolding wait_remove_locked_def finish_remove_def
    by (intro sa_inv0I) (auto intro: D(6))
  then show ?thesis
    using True by (auto simp: sa_inv_def wakeup_pending_def wait_remove_locked_def finish_remove_def)
next
  case False
  then show ?thesis
    using wait_remove_threads_inv [OF rd] by (simp add: wait_remove_locked_def)
qed

lemma finish_remove_goto: "finish_remove t r (goto t q e s) = finish_remove t r s"
  by (simp add: finish_remove_def goto_def)

lemma wait_remove_entry_inv:
  assumes inv: "sa_inv s" and t: "sy_place s t = Idle" "\<not> sy_destroyed s"
  shows "sa_inv (finish_remove t (wait_remove_entry t (sy_entry s)) s)"
proof (cases "es_awaits_deletion (sy_entry s)")
  case True
  then have "finish_remove t (wait_remove_entry t (sy_entry s)) s = s"
    using t by (simp add: wait_remove_entry_def finish_remove_def goto_def fun_upd_idem)
  then show ?thesis using inv by simp
next
  case False
  have inv0: "sa_inv0 s"
    using inv by (simp add: sa_inv_def)
  note D = sa_inv0D [OF inv0]
  let ?e = "(sy_entry s)\<lparr>es_awaits_deletion := True\<rparr>"
  have nr: "removers s = {}"
    using D(7) False by blast
  have "remove_ready t (goto t Idle ?e s)"
    unfolding remove_ready_def using D(1-5) D(6) nr t by auto
  from wait_remove_locked_inv [OF this] show ?thesis
    using False by (simp add: finish_remove_goto wait_remove_entry_def)
qed

lemma resume_remove_ready:
  assumes inv: "sa_inv0 s" and t: "t \<in> removers s" "t \<in> cv_woken (sy_condvar s)"
  shows "remove_ready t (goto t Idle (resume_entry t (sy_entry s)) s)"
proof -
  note D = sa_inv0D [OF inv]
  have r: "removers s = {t}"
    using D(8) t(1) by blast
  have tn: "t \<notin> cv_waiting (sy_condvar s)" "t \<notin> at s WaitingFor" "t \<notin> at s Holding"
    using D(2) t by (auto simp: removers_iff wf_condvar_def)
  have c: "u \<in> cv_waiting (sy_condvar s) \<or> u \<in> cv_woken (sy_condvar s) \<longleftrightarrow> u \<in> at s WaitingFor \<or> u \<in> removers s" for u
    using D(3) by blast
  have "\<not> sy_destroyed s"
    using D(10) [of t] t(1) by (auto simp: removers_iff)
  then show ?thesis
    unfolding remove_ready_def resume_entry_def using D(1,2,4,5,7) D(6) r tn c t by auto
qed

lemma sa_internal_inv:
  assumes "sa_internal s s'" "sa_inv s"
  shows "sa_inv s'"
  using assms
proof (cases rule: sa_internal.cases)
  case (resume_locked t)
  have "t \<in> removers s"
    using resume_locked(2) by (simp add: removers_iff)
  then have "remove_ready t (goto t Idle (resume_entry t (sy_entry s)) s)"
    using resume_remove_ready resume_locked(3) assms(2) by (simp add: sa_inv_def)
  from wait_remove_locked_inv [OF this] show ?thesis
    using resume_locked(1) by (simp add: finish_remove_goto)
next
  case (resume_threads t)
  have inv0: "sa_inv0 s"
    using assms(2) by (simp add: sa_inv_def)
  have loop: "t \<in> at s InThreadsLoop"
    using resume_threads(2) by simp
  then have nl: "\<not> es_locked (sy_entry s)"
    using sa_inv0D(9) [OF inv0] by blast
  from loop have "t \<in> removers s"
    by (simp add: removers_iff)
  with nl have "remove_ready t (goto t Idle (resume_entry t (sy_entry s)) s)"
    "\<not> es_locked (sy_entry (goto t Idle (resume_entry t (sy_entry s)) s))"
    using resume_remove_ready resume_threads(3) assms(2) by (simp_all add: sa_inv_def resume_entry_def)
  from wait_remove_threads_inv [OF this] show ?thesis
    using resume_threads(1) by (simp add: finish_remove_goto)
qed (use wait_for_entry_resume_inv release_entry_inv in \<open>auto simp: sa_inv_def\<close>)

lemma sa_step_inv:
  assumes "sa_step s s'" "sa_inv s"
  shows "sa_inv s'"
  using assms
proof (cases rule: sa_step.cases)
  case internal
  then show ?thesis using sa_internal_inv assms(2) by blast
next
  case (checkout t w r e)
  then show ?thesis using wait_for_entry_inv assms(2) by (auto simp: sa_inv_def)
next
  case (remove t)
  then show ?thesis using wait_remove_entry_inv assms(2) by blast
next
  case (spurious t)
  have inv0: "sa_inv0 s" using assms(2) by (simp add: sa_inv_def)
  note D = sa_inv0D [OF inv0]
  have c: "u \<in> cv_waiting (sy_condvar s) \<or> u \<in> cv_woken (sy_condvar s) \<longleftrightarrow> u \<in> at s WaitingFor \<or> u \<in> removers s" for u
    using D(3) by blast
  have "sa_inv0 s'"
    using D(1,2,4,5,7) D(9) c spurious unfolding spurious(1)
    by (intro sa_inv0I) (auto intro: D(6,8) D(10))
  then show ?thesis
    using spurious by (auto simp: sa_inv_def wakeup_pending_def)
qed

lemma sa_reachable_inv: "sa_step\<^sup>*\<^sup>* sa_system_init s \<Longrightarrow> sa_inv s"
  by (induction rule: rtranclp_induct) (auto intro: sa_init_inv sa_step_inv)

section \<open>Properties\<close>

text \<open>
  C13: Under any interleaving of threads that check an SA out and in, update, query and delete it,
  with spurious wakeups, at most one thread holds the SA, only one thread deletes it, and the entry is
  destroyed only when no thread holds it, waits for it or is in the middle of deleting it.
\<close>

theorem sa_entry_exclusive:
  assumes "sa_step\<^sup>*\<^sup>* sa_system_init s"
  shows "(sy_place s t = Holding \<longrightarrow> sy_place s u = Holding \<longrightarrow> t = u) \<and>
         (sy_place s t = Holding \<longrightarrow> es_locked (sy_entry s)) \<and>
         (sy_place s t \<in> {InLockedLoop, InThreadsLoop} \<longrightarrow> sy_place s u \<in> {InLockedLoop, InThreadsLoop} \<longrightarrow> t = u) \<and>
         (sy_destroyed s \<longrightarrow> sy_place s t = Idle)"
proof -
  have inv: "sa_inv0 s"
    using sa_reachable_inv [OF assms] by (simp add: sa_inv_def)
  note D = sa_inv0D [OF inv]
  have "t \<in> at s Holding \<longrightarrow> es_locked (sy_entry s)"
    using D(5) by blast
  then show ?thesis
    using D(6) [of t u] D(8) [of t u] D(10) [of t] by (auto simp: removers_iff)
qed

text \<open>Thread 1 holds the SA, thread 2 waits for it, thread 3 deletes it.\<close>

definition demo_contended :: sa_system where
  "demo_contended =
     (let s = goto 1 Holding (snd (wait_for_entry 1 0 create_sync)) sa_system_init;
          s = goto 2 WaitingFor (snd (wait_for_entry 2 0 (sy_entry s))) s
      in finish_remove 3 (wait_remove_entry 3 (sy_entry s)) s)"

lemma demo_contended_reachable: "sa_step\<^sup>*\<^sup>* sa_system_init demo_contended"
proof -
  let ?s1 = "goto 1 Holding (snd (wait_for_entry 1 0 create_sync)) sa_system_init"
  let ?s2 = "goto 2 WaitingFor (snd (wait_for_entry 2 0 (sy_entry ?s1))) ?s1"
  have "sa_step sa_system_init ?s1"
    using sa_step.checkout [of sa_system_init 1 0 "Some True" "snd (wait_for_entry 1 0 create_sync)"]
    by (simp add: sa_system_init_def create_sync_def signal_target_def wait_for_entry_def)
  moreover have "sa_step ?s1 ?s2"
    using sa_step.checkout [of ?s1 2 0 None "snd (wait_for_entry 2 0 (sy_entry ?s1))"]
    by (simp add: sa_system_init_def create_sync_def signal_target_def wait_for_entry_def)
  moreover have "sa_step ?s2 demo_contended"
    using sa_step.remove [of ?s2 3] by (simp add: demo_contended_def Let_def sa_system_init_def)
  ultimately show ?thesis
    by (meson rtranclp.rtrancl_into_rtrancl rtranclp.rtrancl_refl)
qed

lemma demo_contended_places:
  "sy_place demo_contended 1 = Holding" "sy_place demo_contended 2 = WaitingFor"
  "sy_place demo_contended 3 = InLockedLoop" "es_awaits_deletion (sy_entry demo_contended)"
  by (simp_all add: demo_contended_def finish_remove_def wait_remove_entry_def wait_remove_locked_def
      wait_for_entry_def create_sync_def sa_system_init_def Let_def)

theorem sa_entry_exclusive_witness:
  "sy_place demo_contended 1 = Holding \<and> es_locked (sy_entry demo_contended) \<and>
   sy_place demo_contended 2 \<noteq> Holding"
  using sa_entry_exclusive [OF demo_contended_reachable, of 1 1] sa_entry_exclusive [OF demo_contended_reachable, of 2 1]
    demo_contended_places(1) by simp

text \<open>
  A measure for the internal steps: how far the threads are from done, then the woken threads.
\<close>

definition to_do :: "sa_system \<Rightarrow> nat" where
  "to_do s = 2 * card (at s WaitingFor) + card (at s Holding) + 2 * card (at s InLockedLoop) + card (at s InThreadsLoop)"

lemma at_most_one:
  assumes "\<And>x y. x \<in> A \<Longrightarrow> y \<in> A \<Longrightarrow> x = y"
  shows "finite A"
proof (cases "A = {}")
  case False
  then obtain a where a: "a \<in> A" by blast
  have "A \<subseteq> {a}"
    using assms [OF _ a] by blast
  then show ?thesis
    by (rule finite_subset) simp
qed simp

lemma sa_inv0_finite:
  assumes "sa_inv0 s"
  shows "finite (at s Holding)" "finite (at s InLockedLoop)" "finite (at s InThreadsLoop)"
proof -
  note D = sa_inv0D [OF assms]
  show "finite (at s Holding)"
    by (rule at_most_one) (rule D(6))
  have "finite (removers s)"
    by (rule at_most_one) (rule D(8))
  then show "finite (at s InLockedLoop)" "finite (at s InThreadsLoop)"
    by (simp_all add: removers_def)
qed

lemma card_move:
  "finite A \<Longrightarrow> t \<in> A \<Longrightarrow> card A = card (A - {t}) + 1"
  using card.remove [of A t] by simp

definition woken_count :: "sa_system \<Rightarrow> nat" where
  "woken_count s = card (cv_woken (sy_condvar s))"

lemma to_do_moves:
  assumes "sa_inv0 s"
  shows "sy_place s t = WaitingFor \<Longrightarrow> to_do (goto t Holding e s) < to_do s"
    and "sy_place s t \<noteq> Idle \<Longrightarrow> to_do (goto t Idle e s) < to_do s"
    and "sy_place s t = InLockedLoop \<Longrightarrow> to_do (goto t InThreadsLoop e s) < to_do s"
    and "sy_place s t = q \<Longrightarrow> to_do (goto t q e s) = to_do s"
proof -
  note F = sa_inv0D(1) [OF assms] sa_inv0_finite [OF assms]
  note M = card_move [OF F(1), of t] card_move [OF F(2), of t] card_move [OF F(3), of t] card_move [OF F(4), of t]
  have keep: "t \<notin> A \<Longrightarrow> A - {t} = A" "t \<in> A \<Longrightarrow> insert t A = A" for A :: "tid set"
    by auto
  show "sy_place s t = WaitingFor \<Longrightarrow> to_do (goto t Holding e s) < to_do s"
    using M(1) F by (simp add: to_do_def keep)
  show "sy_place s t \<noteq> Idle \<Longrightarrow> to_do (goto t Idle e s) < to_do s"
    using M by (cases "sy_place s t") (simp_all add: to_do_def keep)
  show "sy_place s t = InLockedLoop \<Longrightarrow> to_do (goto t InThreadsLoop e s) < to_do s"
    using M(3) F by (simp add: to_do_def keep)
  show "sy_place s t = q \<Longrightarrow> to_do (goto t q e s) = to_do s"
    by (cases q) (simp_all add: to_do_def keep)
qed

lemma to_do_destroyed [simp]: "to_do (s\<lparr>sy_destroyed := d\<rparr>) = to_do s"
  by (simp add: to_do_def)

lemma woken_resume:
  assumes "sa_inv0 s" "t \<in> cv_woken (sy_condvar s)"
  shows "card (cv_woken (sy_condvar s) - {t}) < card (cv_woken (sy_condvar s))"
  using sa_inv0D(2) [OF assms(1)] assms(2) by (intro card_Diff1_less) (auto simp: wf_condvar_def)

lemma sa_internal_decreases:
  assumes "sa_internal s s'" "sa_inv s"
  shows "to_do s' < to_do s \<or> to_do s' = to_do s \<and> woken_count s' < woken_count s"
proof -
  have inv0: "sa_inv0 s"
    using assms(2) by (simp add: sa_inv_def)
  note moves = to_do_moves [OF inv0]
  from assms(1) show ?thesis
  proof (cases rule: sa_internal.cases)
    case (resume_wait t w r e)
    show ?thesis
    proof (cases r)
      case None
      then have "cv_woken (es_condvar e) = cv_woken (sy_condvar s) - {t}"
        using resume_wait(5) by (auto simp: wait_for_entry_resume_def wait_for_entry_def split: if_splits)
      then show ?thesis
        using resume_wait(1,2,3) None moves(4) woken_resume [OF inv0] by (simp add: woken_count_def)
    next
      case (Some b)
      then show ?thesis
        using resume_wait(1,2) moves(1,2) by (cases b) auto
    qed
  next
    case (checkin t w)
    then show ?thesis using moves(2) by simp
  next
    case (resume_locked t)
    show ?thesis
    proof (cases "es_locked (sy_entry s)")
      case True
      then show ?thesis
        using resume_locked moves(4) woken_resume [OF inv0]
        by (simp add: finish_remove_def wait_remove_locked_def resume_entry_def woken_count_def)
    next
      case False
      then show ?thesis
        using resume_locked moves(2,3)
        by (simp add: finish_remove_def wait_remove_locked_def wait_remove_threads_def resume_entry_def)
    qed
  next
    case (resume_threads t)
    have loop: "t \<in> at s InThreadsLoop" "t \<in> removers s"
      using resume_threads(2) by (simp_all add: removers_iff)
    have "at s InThreadsLoop \<subseteq> {t}"
      using sa_inv0D(8) [OF inv0 _ loop(2)] by (auto simp: removers_iff)
    then have "cv_waiting (sy_condvar s) \<subseteq> {t}"
      using sa_inv0D(9) [OF inv0] loop(1) by blast
    then have "cv_waiting (sy_condvar s) = {}"
      using sa_inv0D(2) [OF inv0] resume_threads(3) by (auto simp: wf_condvar_def)
    then show ?thesis
      using resume_threads moves(2,4) woken_resume [OF inv0]
      by (simp add: finish_remove_def wait_remove_threads_def resume_entry_def woken_count_def)
  qed
qed

lemma signal_target_ex: "\<exists>w. signal_target cv w"
  by (auto simp: signal_target_def)

lemma sa_internal_quiet:
  assumes inv: "sa_inv s" and quiet: "\<And>s'. \<not> sa_internal s s'"
  shows "sy_place s t = Idle" "es_awaits_deletion (sy_entry s) \<Longrightarrow> sy_destroyed s"
proof -
  have inv0: "sa_inv0 s"
    using inv by (simp add: sa_inv_def)
  obtain w where w: "signal_target (sy_condvar s) w"
    using signal_target_ex by blast
  have nh: "sy_place s u \<noteq> Holding" for u
    using sa_internal.checkin [OF _ w] quiet by blast
  have nw: "u \<notin> cv_woken (sy_condvar s)" for u
  proof
    assume u: "u \<in> cv_woken (sy_condvar s)"
    then consider "sy_place s u = WaitingFor" | "sy_place s u = InLockedLoop" | "sy_place s u = InThreadsLoop"
      using on_condvar_iff [OF inv0, of u] by blast
    then show False
      using sa_internal.resume_wait [OF _ u w] sa_internal.resume_locked [OF _ u]
        sa_internal.resume_threads [OF _ u] quiet by (cases; metis surj_pair)
  qed
  then have "cv_waiting (sy_condvar s) = {}"
    using inv sa_inv0D(5) [OF inv0] nh by (auto simp: sa_inv_def wakeup_pending_def)
  then have idle: "sy_place s u = Idle" for u
    using on_condvar_iff [OF inv0, of u] nw nh [of u] by (cases "sy_place s u") auto
  then show "sy_place s t = Idle" .
  show "es_awaits_deletion (sy_entry s) \<Longrightarrow> sy_destroyed s"
    using sa_inv0D(7) [OF inv0] idle by (auto simp: removers_def at_def)
qed

lemma sa_internal_reachable_inv: "sa_internal\<^sup>*\<^sup>* s s' \<Longrightarrow> sa_inv s \<Longrightarrow> sa_inv s'"
  by (induction rule: rtranclp_induct) (auto intro: sa_internal_inv)

text \<open>
  C14: Nobody waits for ever. From every reachable state, if threads that hold the SA check it in and
  woken threads take their turns, only finitely many such steps are possible, in any order; and when
  none is left, no thread waits any more, and an entry whose deletion has begun is destroyed. No
  wakeup is lost on the way.
\<close>

theorem sa_entry_progress:
  assumes "sa_step\<^sup>*\<^sup>* sa_system_init s"
  shows "\<not> (\<exists>f. f 0 = s \<and> (\<forall>n. sa_internal (f n) (f (Suc n)))) \<and>
         (\<forall>s'. sa_internal\<^sup>*\<^sup>* s s' \<longrightarrow> (\<forall>s''. \<not> sa_internal s' s'') \<longrightarrow>
           (\<forall>t. sy_place s' t = Idle) \<and> (es_awaits_deletion (sy_entry s') \<longrightarrow> sy_destroyed s'))"
proof (intro conjI allI impI)
  have inv: "sa_inv s"
    using sa_reachable_inv [OF assms] .
  show "\<not> (\<exists>f. f 0 = s \<and> (\<forall>n. sa_internal (f n) (f (Suc n))))"
  proof
    assume "\<exists>f. f 0 = s \<and> (\<forall>n. sa_internal (f n) (f (Suc n)))"
    then obtain f where f: "f 0 = s" "\<And>n. sa_internal (f n) (f (Suc n))" by blast
    have "sa_inv (f n)" for n
      by (induction n) (use f inv sa_internal_inv in auto)
    then have "(f (Suc n), f n) \<in> measures [to_do, woken_count]" for n
      using sa_internal_decreases [OF f(2) [of n]] by auto
    then show False
      using wf_measures [of "[to_do, woken_count]"] unfolding wf_iff_no_infinite_down_chain by blast
  qed
  fix s' t
  assume r: "sa_internal\<^sup>*\<^sup>* s s'" and q: "\<forall>s''. \<not> sa_internal s' s''"
  note Q = sa_internal_quiet [OF sa_internal_reachable_inv [OF r inv], rule_format]
  show "sy_place s' t = Idle"
    using Q(1) q by blast
  show "sy_destroyed s'" if "es_awaits_deletion (sy_entry s')"
    using Q(2) q that by blast
qed

theorem sa_entry_progress_witness:
  "sy_place demo_contended 2 = WaitingFor \<and> sy_place demo_contended 3 = InLockedLoop \<and>
   \<not> (\<exists>f. f 0 = demo_contended \<and> (\<forall>n. sa_internal (f n) (f (Suc n))))"
  using sa_entry_progress [OF demo_contended_reachable] demo_contended_places(2,3) by blast

end
