(* ===== verification/Ipsec_Sa_Mgr.thy ===== *)
theory Ipsec_Sa_Mgr
  imports Ipsec_Sa Sa_Entry
begin

text \<open>
  \<open>libipsec/ipsec_sa_mgr.c\<close>: the database of installed SAs. An entry is identified by its address,
  and so is its SA. Every operation runs under the mutex of the manager until it returns or waits on
  the condition variable of an entry; operations that may wait come with the function that continues
  them when the thread is woken. Expiration jobs handed to the scheduler and events raised are part
  of the results.
\<close>

section \<open>State\<close>

record 'a sa_entry =
  ent_ptr :: addr
  ent_sa_ptr :: addr
  ent_sa :: "'a ipsec_sa"
  ent_sync :: sa_sync

record ('a, 'r) sa_mgr =
  mgr_sas :: "'a sa_entry list"
  mgr_allocated_spis :: "u32 list"
  mgr_rng :: "'r option"

record sa_expired_job =
  job_entry :: addr
  job_spi :: u32
  job_hard_offset :: u32

datatype 'x outcome = Returns 'x | Waits

definition ipsec_sa_mgr_create :: "('a, 'r) sa_mgr" where
  "ipsec_sa_mgr_create = \<lparr>mgr_sas = [], mgr_allocated_spis = [], mgr_rng = None\<rparr>"

definition create_entry :: "addr \<Rightarrow> addr \<Rightarrow> 'a ipsec_sa \<Rightarrow> 'a sa_entry" where
  "create_entry p sp sa = \<lparr>ent_ptr = p, ent_sa_ptr = sp, ent_sa = sa, ent_sync = create_sync\<rparr>"

definition find_entry :: "('a sa_entry \<Rightarrow> bool) \<Rightarrow> ('a, 'r) sa_mgr \<Rightarrow> 'a sa_entry option" where
  "find_entry P this = List.find P (mgr_sas this)"

definition change_entry :: "addr \<Rightarrow> ('a sa_entry \<Rightarrow> 'a sa_entry) \<Rightarrow> ('a, 'r) sa_mgr \<Rightarrow> ('a, 'r) sa_mgr" where
  "change_entry p f this = this\<lparr>mgr_sas := map (\<lambda>e. if ent_ptr e = p then f e else e) (mgr_sas this)\<rparr>"

definition drop_entry :: "addr \<Rightarrow> ('a, 'r) sa_mgr \<Rightarrow> ('a, 'r) sa_mgr" where
  "drop_entry p this = this\<lparr>mgr_sas := filter (\<lambda>e. ent_ptr e \<noteq> p) (mgr_sas this)\<rparr>"

section \<open>Allocation of SPIs\<close>

definition match_entry_by_spi_inbound :: "u32 \<Rightarrow> bool \<Rightarrow> 'a sa_entry \<Rightarrow> bool" where
  "match_entry_by_spi_inbound spi inb item \<longleftrightarrow> sa_spi (ent_sa item) = spi \<and> sa_inbound (ent_sa item) = inb"

definition allocate_spi :: "u32 \<Rightarrow> ('a, 'r) sa_mgr \<Rightarrow> bool \<times> ('a, 'r) sa_mgr" where
  "allocate_spi spi this =
     (if spi \<in> set (mgr_allocated_spis this) \<or> find_entry (match_entry_by_spi_inbound spi True) this \<noteq> None
      then (False, this)
      else (True, this\<lparr>mgr_allocated_spis := spi # mgr_allocated_spis this\<rparr>))"

text \<open>The configured range, from the settings: ordered, and clear of the reserved SPIs.\<close>

definition spi_range :: "u32 \<Rightarrow> u32 \<Rightarrow> u32 \<times> u32" where
  "spi_range spi_min spi_max =
     (let (lo, hi) = (if spi_min > spi_max then (spi_max, spi_min) else (spi_min, spi_max))
      in (max lo 0x100, max hi 0x100))"

text \<open>The loop that draws random SPIs until one is free; \<open>fuel\<close> bounds the number of draws.\<close>

fun get_spi_loop ::
  "nat \<Rightarrow> 'r rng_t \<Rightarrow> u32 \<Rightarrow> u32 \<Rightarrow> 'r \<Rightarrow> ('a, 'r) sa_mgr \<Rightarrow> (u32 option \<times> ('a, 'r) sa_mgr) option" where
  "get_spi_loop 0 R lo hi rng this = None"
| "get_spi_loop (Suc fuel) R lo hi rng this =
     (case get_bytes R rng 4 of
        (None, rng) \<Rightarrow> Some (None, this\<lparr>mgr_rng := Some rng\<rparr>)
      | (Some bytes, rng) \<Rightarrow>
          (let spi_new = htonl (lo + of_nat (le_nat bytes) mod (hi - lo + 1))
           in case allocate_spi spi_new this of
                (True, this) \<Rightarrow> Some (Some spi_new, this\<lparr>mgr_rng := Some rng\<rparr>)
              | (False, this) \<Rightarrow> get_spi_loop fuel R lo hi rng this))"

definition get_spi ::
  "nat \<Rightarrow> 'r rng_t \<Rightarrow> (rng_quality_t \<Rightarrow> 'r option) \<Rightarrow> u32 \<Rightarrow> u32 \<Rightarrow> ('a, 'r) sa_mgr
    \<Rightarrow> ((status_t \<times> u32 option) \<times> ('a, 'r) sa_mgr) option" where
  "get_spi fuel R rngs spi_min spi_max this =
     (case spi_range spi_min spi_max of (lo, hi) \<Rightarrow>
      (case (case mgr_rng this of Some rng \<Rightarrow> Some rng | None \<Rightarrow> rngs RNG_WEAK) of
        None \<Rightarrow> Some ((FAILED, None), this)
      | Some rng \<Rightarrow>
          (case get_spi_loop fuel R lo hi rng this of
             None \<Rightarrow> None
           | Some (None, this) \<Rightarrow> Some ((FAILED, None), this)
           | Some (Some spi, this) \<Rightarrow> Some ((SUCCESS, Some spi), this))))"

section \<open>Expiration jobs\<close>

text \<open>The job and its timeout in seconds; times are \<open>uint64_t\<close>, offset and timeout are \<open>uint32_t\<close>.\<close>

definition schedule_expiration :: "'a sa_entry \<Rightarrow> (sa_expired_job \<times> u32) option" where
  "schedule_expiration entry =
     (let lifetime = lt_time (sa_lifetime (ent_sa entry));
          job = \<lambda>off. \<lparr>job_entry = ent_ptr entry, job_spi = sa_spi (ent_sa entry), job_hard_offset = off\<rparr>
      in if lim_life lifetime = 0 then None
         else if lim_life lifetime \<le> lim_rekey lifetime \<or> lim_rekey lifetime = 0
         then Some (job 0, ucast (lim_life lifetime))
         else Some (job (ucast (lim_life lifetime - lim_rekey lifetime)), ucast (lim_rekey lifetime)))"

section \<open>Removing entries\<close>

text \<open>What a removing thread does once \<open>wait_remove_entry\<close> has run a round on the entry.\<close>

definition after_remove :: "addr \<Rightarrow> removal \<times> sa_sync \<Rightarrow> ('a, 'r) sa_mgr \<Rightarrow> bool outcome \<times> ('a, 'r) sa_mgr" where
  "after_remove p r this =
     (case r of
        (Refused, _) \<Rightarrow> (Returns False, this)
      | (Removable, _) \<Rightarrow> (Returns True, drop_entry p this)
      | (_, y) \<Rightarrow> (Waits, change_entry p (\<lambda>e. e\<lparr>ent_sync := y\<rparr>) this))"

definition remove_entry :: "tid \<Rightarrow> addr \<Rightarrow> ('a, 'r) sa_mgr \<Rightarrow> bool outcome \<times> ('a, 'r) sa_mgr" where
  "remove_entry t p this =
     (case find_entry (\<lambda>e. ent_ptr e = p) this of
        None \<Rightarrow> (Returns False, this)
      | Some current \<Rightarrow> after_remove p (wait_remove_entry t (ent_sync current)) this)"

text \<open>The same after a wait, in the loop the thread waits in.\<close>

definition remove_entry_resume :: "tid \<Rightarrow> bool \<Rightarrow> addr \<Rightarrow> ('a, 'r) sa_mgr \<Rightarrow> bool outcome \<times> ('a, 'r) sa_mgr" where
  "remove_entry_resume t in_locked p this =
     (case find_entry (\<lambda>e. ent_ptr e = p) this of
        None \<Rightarrow> (Returns False, this)
      | Some current \<Rightarrow>
          (let y = resume_entry t (ent_sync current)
           in after_remove p (if in_locked then wait_remove_locked t y else wait_remove_threads t y) this))"

definition del_sa :: "tid \<Rightarrow> host \<Rightarrow> host \<Rightarrow> u32 \<Rightarrow> ('a, 'r) sa_mgr \<Rightarrow> status_t outcome \<times> ('a, 'r) sa_mgr" where
  "del_sa t src dst spi this =
     (case find_entry (\<lambda>e. match_by_spi_src_dst spi src dst (ent_sa e)) this of
        None \<Rightarrow> (Returns FAILED, this)
      | Some current \<Rightarrow>
          (case after_remove (ent_ptr current) (wait_remove_entry t (ent_sync current)) this of
             (Waits, this) \<Rightarrow> (Waits, this)
           | (Returns True, this) \<Rightarrow> (Returns SUCCESS, this)
           | (Returns False, this) \<Rightarrow> (Returns FAILED, this)))"

text \<open>
  \<open>sa_expired\<close>: the job of an entry whose soft or hard time limit is reached. It returns the events
  and, for a soft limit, the time after which the scheduler runs it again.
\<close>

definition sa_expired ::
  "tid \<Rightarrow> sa_expired_job \<Rightarrow> ('a, 'r) sa_mgr
    \<Rightarrow> (sa_expired_job \<times> u32) option outcome \<times> ipsec_event list \<times> ('a, 'r) sa_mgr" where
  "sa_expired t expired this =
     (case find_entry (\<lambda>e. ent_ptr e = job_entry expired) this of
        None \<Rightarrow> (Returns None, [], this)
      | Some entry \<Rightarrow>
          if job_spi expired \<noteq> sa_spi (ent_sa entry) then (Returns None, [], this)
          else
            (let off = job_hard_offset expired;
                 (events, sa) = sa_expire (off = 0) (ent_sa entry);
                 this = change_entry (ent_ptr entry) (\<lambda>e. e\<lparr>ent_sa := sa\<rparr>) this
             in if off \<noteq> 0 then (Returns (Some (expired\<lparr>job_hard_offset := 0\<rparr>, off)), events, this)
                else
                  (case remove_entry t (job_entry expired) this of
                     (Waits, this) \<Rightarrow> (Waits, events, this)
                   | (Returns _, this) \<Rightarrow> (Returns None, events, this))))"

text \<open>
  \<open>flush_entries\<close>: the entries from some position on, up to one the thread has to wait for, whose
  address is returned. While the thread waits, new entries are only inserted in front.
\<close>

fun flush_from :: "tid \<Rightarrow> 'a sa_entry list \<Rightarrow> ('a, 'r) sa_mgr \<Rightarrow> addr option \<times> ('a, 'r) sa_mgr" where
  "flush_from t [] this = (None, this)"
| "flush_from t (current # later) this =
     (case after_remove (ent_ptr current) (wait_remove_entry t (ent_sync current)) this of
        (Waits, this) \<Rightarrow> (Some (ent_ptr current), this)
      | (Returns _, this) \<Rightarrow> flush_from t later this)"

definition flush_sas :: "tid \<Rightarrow> ('a, 'r) sa_mgr \<Rightarrow> addr option \<times> ('a, 'r) sa_mgr" where
  "flush_sas t this = flush_from t (mgr_sas this) this"

definition flush_resume :: "tid \<Rightarrow> bool \<Rightarrow> addr \<Rightarrow> ('a, 'r) sa_mgr \<Rightarrow> addr option \<times> ('a, 'r) sa_mgr" where
  "flush_resume t in_locked p this =
     (let later = tl (dropWhile (\<lambda>e. ent_ptr e \<noteq> p) (mgr_sas this))
      in case remove_entry_resume t in_locked p this of
           (Waits, this) \<Rightarrow> (Some p, this)
         | (Returns _, this) \<Rightarrow> flush_from t later this)"

section \<open>Installing, updating and using SAs\<close>

definition add_sa ::
  "('a, 'r) aead_t \<Rightarrow> 'c crypter_t \<Rightarrow> 's signer_t \<Rightarrow> 'r rng_t \<Rightarrow> ('r, 'c, 's, 'a) crypto_factory
    \<Rightarrow> addr \<Rightarrow> addr \<Rightarrow> sa_params \<Rightarrow> bool
    \<Rightarrow> (('a, ('c, 's, 'r) private_aead) aead_obj, 'q) sa_mgr
    \<Rightarrow> (status_t \<times> (sa_expired_job \<times> u32) option) \<times> (('a, ('c, 's, 'r) private_aead) aead_obj, 'q) sa_mgr" where
  "add_sa A C S R F p sp params update this =
     (case ipsec_sa_create A C S R F params of
        None \<Rightarrow> ((FAILED, None), this)
      | Some sa_new \<Rightarrow>
          (let this = (if update
                 then this\<lparr>mgr_allocated_spis := removeAll (sp_spi params) (mgr_allocated_spis this)\<rparr> else this)
           in if find_entry (\<lambda>e. match_by_spi_src_dst (sp_spi params) (sp_src params) (sp_dst params) (ent_sa e)) this \<noteq> None
              then ((FAILED, None), this)
              else let entry = create_entry p sp sa_new
                   in ((SUCCESS, schedule_expiration entry), this\<lparr>mgr_sas := entry # mgr_sas this\<rparr>)))"

text \<open>
  What a thread does with an entry once \<open>wait_for_entry\<close> has run a round: it waits, or it gives up
  because the entry is being deleted, or it goes on with the entry locked.
\<close>

definition after_wait ::
  "addr \<Rightarrow> bool option \<times> sa_sync \<Rightarrow> 'x \<Rightarrow> ('a sa_entry \<Rightarrow> 'x \<times> 'a sa_entry) \<Rightarrow> 'a sa_entry
    \<Rightarrow> ('a, 'r) sa_mgr \<Rightarrow> 'x outcome \<times> ('a, 'r) sa_mgr" where
  "after_wait p r refused locked entry this =
     (case r of
        (None, y) \<Rightarrow> (Waits, change_entry p (\<lambda>e. e\<lparr>ent_sync := y\<rparr>) this)
      | (Some False, y) \<Rightarrow> (Returns refused, change_entry p (\<lambda>e. e\<lparr>ent_sync := y\<rparr>) this)
      | (Some True, y) \<Rightarrow>
          (case locked (entry\<lparr>ent_sync := y\<rparr>) of (x, entry) \<Rightarrow> (Returns x, change_entry p (\<lambda>_. entry) this)))"

definition checkin_entry :: "tid \<Rightarrow> 'a sa_entry \<Rightarrow> 'a sa_entry" where
  "checkin_entry w entry = entry\<lparr>ent_sync := release_entry w (ent_sync entry)\<rparr>"

definition update_locked :: "tid \<Rightarrow> host \<Rightarrow> host \<Rightarrow> 'a sa_entry \<Rightarrow> status_t \<times> 'a sa_entry" where
  "update_locked w new_src new_dst entry =
     (SUCCESS, checkin_entry w (entry\<lparr>ent_sa := sa_set_destination new_dst (sa_set_source new_src (ent_sa entry))\<rparr>))"

definition update_sa ::
  "tid \<Rightarrow> tid \<Rightarrow> u32 \<Rightarrow> host \<Rightarrow> host \<Rightarrow> host \<Rightarrow> host \<Rightarrow> bool \<Rightarrow> ('a, 'r) sa_mgr \<Rightarrow> status_t outcome \<times> ('a, 'r) sa_mgr" where
  "update_sa t w spi src dst new_src new_dst new_encap this =
     (if \<not> new_encap then (Returns NOT_SUPPORTED, this)
      else case find_entry (\<lambda>e. match_by_spi_src_dst spi src dst (ent_sa e)) this of
        None \<Rightarrow> (Returns FAILED, this)
      | Some entry \<Rightarrow>
          after_wait (ent_ptr entry) (wait_for_entry t w (ent_sync entry)) SUCCESS
            (update_locked w new_src new_dst) entry this)"

definition query_locked :: "tid \<Rightarrow> 'a sa_entry \<Rightarrow> (status_t \<times> (u64 \<times> u64 \<times> int) option) \<times> 'a sa_entry" where
  "query_locked w entry = ((SUCCESS, Some (get_usestats (ent_sa entry))), checkin_entry w entry)"

definition query_sa ::
  "tid \<Rightarrow> tid \<Rightarrow> host \<Rightarrow> host \<Rightarrow> u32 \<Rightarrow> ('a, 'r) sa_mgr
    \<Rightarrow> (status_t \<times> (u64 \<times> u64 \<times> int) option) outcome \<times> ('a, 'r) sa_mgr" where
  "query_sa t w src dst spi this =
     (case find_entry (\<lambda>e. match_by_spi_src_dst spi src dst (ent_sa e)) this of
        None \<Rightarrow> (Returns (NOT_FOUND, None), this)
      | Some entry \<Rightarrow>
          after_wait (ent_ptr entry) (wait_for_entry t w (ent_sync entry)) (SUCCESS, None) (query_locked w) entry this)"

definition checkout_entry ::
  "tid \<Rightarrow> tid \<Rightarrow> ('a sa_entry \<Rightarrow> bool) \<Rightarrow> ('a, 'r) sa_mgr \<Rightarrow> addr option outcome \<times> ('a, 'r) sa_mgr" where
  "checkout_entry t w P this =
     (case find_entry P this of
        None \<Rightarrow> (Returns None, this)
      | Some entry \<Rightarrow>
          after_wait (ent_ptr entry) (wait_for_entry t w (ent_sync entry)) None
            (\<lambda>entry. (Some (ent_sa_ptr entry), entry)) entry this)"

definition checkout_by_reqid ::
  "tid \<Rightarrow> tid \<Rightarrow> u32 \<Rightarrow> bool \<Rightarrow> ('a, 'r) sa_mgr \<Rightarrow> addr option outcome \<times> ('a, 'r) sa_mgr" where
  "checkout_by_reqid t w reqid inb = checkout_entry t w (\<lambda>e. match_by_reqid reqid inb (ent_sa e))"

definition checkout_by_spi ::
  "tid \<Rightarrow> tid \<Rightarrow> u32 \<Rightarrow> host \<Rightarrow> ('a, 'r) sa_mgr \<Rightarrow> addr option outcome \<times> ('a, 'r) sa_mgr" where
  "checkout_by_spi t w spi dst = checkout_entry t w (\<lambda>e. match_by_spi_dst spi dst (ent_sa e))"

text \<open>The continuations of the operations that wait for an entry, when their thread is woken.\<close>

definition wait_resume ::
  "tid \<Rightarrow> tid \<Rightarrow> addr \<Rightarrow> 'x \<Rightarrow> ('a sa_entry \<Rightarrow> 'x \<times> 'a sa_entry) \<Rightarrow> ('a, 'r) sa_mgr \<Rightarrow> 'x outcome \<times> ('a, 'r) sa_mgr" where
  "wait_resume t w p refused locked this =
     (case find_entry (\<lambda>e. ent_ptr e = p) this of
        None \<Rightarrow> (Returns refused, this)
      | Some entry \<Rightarrow> after_wait p (wait_for_entry_resume t w (ent_sync entry)) refused locked entry this)"

definition checkin :: "tid \<Rightarrow> addr \<Rightarrow> ('a, 'r) sa_mgr \<Rightarrow> ('a, 'r) sa_mgr" where
  "checkin w sa this =
     (case find_entry (\<lambda>e. ent_sa_ptr e = sa) this of
        None \<Rightarrow> this
      | Some entry \<Rightarrow>
          if es_locked (ent_sync entry) then change_entry (ent_ptr entry) (checkin_entry w) this else this)"

text \<open>The thread that holds an SA reads and changes it in place.\<close>

definition sa_of :: "addr \<Rightarrow> ('a, 'r) sa_mgr \<Rightarrow> 'a ipsec_sa option" where
  "sa_of sa this = map_option ent_sa (find_entry (\<lambda>e. ent_sa_ptr e = sa) this)"

definition set_sa :: "addr \<Rightarrow> 'a ipsec_sa \<Rightarrow> ('a, 'r) sa_mgr \<Rightarrow> ('a, 'r) sa_mgr" where
  "set_sa sa v this =
     this\<lparr>mgr_sas := map (\<lambda>e. if ent_sa_ptr e = sa then e\<lparr>ent_sa := v\<rparr> else e) (mgr_sas this)\<rparr>"

section \<open>Properties\<close>

text \<open>The range is never empty and never the whole space, so the modulus does not vanish.\<close>

lemma spi_range_bounds:
  assumes "spi_range a b = (lo, hi)"
  shows "256 \<le> unat lo" "lo \<le> hi" "unat (hi - lo + 1) = unat hi - unat lo + 1"
proof -
  show lo: "256 \<le> unat lo"
    using assms by (auto simp: spi_range_def word_le_nat_alt max_def Let_def split: if_splits)
  show le: "lo \<le> hi"
    using assms by (auto simp: spi_range_def max_def Let_def split: if_splits)
  have "unat hi < 4294967296"
    using unsigned_less [of hi, where ?'a = nat] by simp
  moreover have "unat (hi - lo) = unat hi - unat lo"
    using le by (rule unat_sub)
  ultimately have "unat (hi - lo) + 1 < 4294967296"
    using lo by arith
  then show "unat (hi - lo + 1) = unat hi - unat lo + 1"
    using le by (simp add: unat_word_ariths(1) unat_sub)
qed

lemma spi_drawn:
  fixes x :: u32
  assumes "spi_range a b = (lo, hi)"
  defines "v \<equiv> lo + x mod (hi - lo + 1)"
  shows "unat lo \<le> unat v" "unat v \<le> unat hi"
proof -
  note B = spi_range_bounds [OF assms(1)]
  have hi: "unat lo \<le> unat hi" "unat hi < 2 ^ 32"
    using B(2) unsigned_less [of hi, where ?'a = nat] by (simp_all add: word_le_nat_alt)
  have "unat (x mod (hi - lo + 1)) < unat hi - unat lo + 1"
    unfolding unat_mod B(3) by simp
  then have "unat lo + unat (x mod (hi - lo + 1)) \<le> unat hi"
    using hi by linarith
  moreover from this have "unat lo + unat (x mod (hi - lo + 1)) < 2 ^ 32"
    using hi(2) by linarith
  then have "unat v = unat lo + unat (x mod (hi - lo + 1))"
    by (simp add: v_def unat_word_ariths(1))
  ultimately show "unat lo \<le> unat v" "unat v \<le> unat hi" by simp_all
qed

lemma get_spi_loop_sound:
  assumes "spi_range a b = (lo, hi)" "get_spi_loop fuel R lo hi rng m = Some (Some spi, m')"
  shows "unat lo \<le> unat (ntohl spi) \<and> unat (ntohl spi) \<le> unat hi \<and> spi \<notin> set (mgr_allocated_spis m) \<and>
    find_entry (match_entry_by_spi_inbound spi True) m = None \<and>
    mgr_sas m' = mgr_sas m \<and> mgr_allocated_spis m' = spi # mgr_allocated_spis m"
  using assms(2)
proof (induction fuel arbitrary: rng)
  case (Suc fuel)
  obtain bs rng' where g: "get_bytes R rng 4 = (Some bs, rng')"
    using Suc.prems by (auto split: prod.splits option.splits)
  let ?spi = "htonl (lo + of_nat (le_nat bs) mod (hi - lo + 1))"
  show ?case
  proof (cases "fst (allocate_spi ?spi m)")
    case True
    then show ?thesis
      using Suc.prems g spi_drawn [OF assms(1)]
      by (auto simp: allocate_spi_def htonl_htonl Let_def split: if_splits)
  next
    case False
    then have "allocate_spi ?spi m = (False, m)"
      by (simp add: allocate_spi_def split: if_splits)
    then show ?thesis
      using Suc g by (simp add: Let_def)
  qed
qed simp

text \<open>
  The loop returns when a draw fails or gives a free SPI. While every SPI it draws is taken it goes
  on, with the mutex held.
\<close>

fun draw :: "'r rng_t \<Rightarrow> 'r \<Rightarrow> nat \<Rightarrow> chunk option" where
  "draw R rng 0 = fst (get_bytes R rng 4)"
| "draw R rng (Suc k) = draw R (snd (get_bytes R rng 4)) k"

lemma get_spi_loop_returns:
  assumes "case draw R rng k of None \<Rightarrow> True
      | Some bs \<Rightarrow> fst (allocate_spi (htonl (lo + of_nat (le_nat bs) mod (hi - lo + 1))) m)"
    and "k < fuel"
  shows "get_spi_loop fuel R lo hi rng m \<noteq> None"
  using assms
proof (induction fuel arbitrary: rng k)
  case (Suc fuel)
  obtain d rng' where g: "get_bytes R rng 4 = (d, rng')" by (cases "get_bytes R rng 4")
  show ?case
  proof (cases k)
    case 0
    then show ?thesis
      using Suc.prems(1) g by (cases d) (auto simp: Let_def split: prod.splits bool.splits)
  next
    case (Suc j)
    then have "get_spi_loop fuel R lo hi rng' m \<noteq> None"
      using Suc.prems Suc.IH [of rng' j] g by simp
    then show ?thesis
      using g by (cases d) (auto simp: Let_def allocate_spi_def)
  qed
qed simp


text \<open>A generator whose draws are all zero, and a manager without SAs.\<close>

definition zero_rng :: "unit rng_t" where
  "zero_rng = \<lparr>get_bytes = \<lambda>r n. (Some (replicate n 0), r), allocate_bytes = \<lambda>r n. (Some (replicate n 0), r)\<rparr>"


subsection \<open>Well-formedness\<close>

definition sa_ok :: "'a ipsec_sa \<Rightarrow> bool" where
  "sa_ok sa \<longleftrightarrow> sa_protocol sa = IPPROTO_ESP \<and> sa_mode sa = MODE_TUNNEL \<and> \<not> sa_esn sa \<and>
     inbound (sa_esp_context sa) = sa_inbound sa"

definition mgr_wf :: "('a, 'r) sa_mgr \<Rightarrow> bool" where
  "mgr_wf m \<longleftrightarrow> distinct (map ent_ptr (mgr_sas m)) \<and> distinct (map ent_sa_ptr (mgr_sas m)) \<and>
     distinct (mgr_allocated_spis m) \<and> (\<forall>e \<in> set (mgr_sas m). sa_ok (ent_sa e))"

lemma find_entry_SomeD: "find_entry P m = Some e \<Longrightarrow> e \<in> set (mgr_sas m) \<and> P e"
  by (auto simp: find_entry_def find_Some_iff in_set_conv_nth)

lemma mgr_wf_ptr:
  "mgr_wf m \<Longrightarrow> e \<in> set (mgr_sas m) \<Longrightarrow> e' \<in> set (mgr_sas m) \<Longrightarrow> ent_ptr e = ent_ptr e' \<Longrightarrow> e = e'"
  unfolding mgr_wf_def by (metis distinct_map inj_onD)

lemma change_entry_wf:
  assumes "mgr_wf m"
    and "\<And>e. e \<in> set (mgr_sas m) \<Longrightarrow> ent_ptr e = p \<Longrightarrow>
      ent_ptr (f e) = ent_ptr e \<and> ent_sa_ptr (f e) = ent_sa_ptr e \<and> sa_ok (ent_sa (f e))"
  shows "mgr_wf (change_entry p f m)"
proof -
  have "map ent_ptr (mgr_sas (change_entry p f m)) = map ent_ptr (mgr_sas m)"
    "map ent_sa_ptr (mgr_sas (change_entry p f m)) = map ent_sa_ptr (mgr_sas m)"
    using assms(2) by (auto simp: change_entry_def)
  moreover have "sa_ok (ent_sa e)" if "e \<in> set (mgr_sas (change_entry p f m))" for e
    using that assms by (auto simp: change_entry_def mgr_wf_def split: if_splits)
  ultimately show ?thesis
    using assms(1) by (simp add: mgr_wf_def) (simp add: change_entry_def)
qed

lemma change_sync_wf: "mgr_wf m \<Longrightarrow> mgr_wf (change_entry p (\<lambda>e. e\<lparr>ent_sync := y\<rparr>) m)"
  by (rule change_entry_wf) (auto simp: mgr_wf_def)

lemma drop_entry_wf: "mgr_wf m \<Longrightarrow> mgr_wf (drop_entry p m)"
  by (auto simp: mgr_wf_def drop_entry_def distinct_map_filter)

lemma after_remove_wf:
  "mgr_wf m \<Longrightarrow> after_remove p r m = (res, m') \<Longrightarrow> mgr_wf m'"
  by (auto simp: after_remove_def drop_entry_wf change_sync_wf split: prod.splits removal.splits)

lemma after_wait_wf:
  assumes "mgr_wf m" "entry \<in> set (mgr_sas m)" "after_wait (ent_ptr entry) r x locked entry m = (res, m')"
    and "\<And>y. case locked (entry\<lparr>ent_sync := y\<rparr>) of (_, e) \<Rightarrow>
      ent_ptr e = ent_ptr entry \<and> ent_sa_ptr e = ent_sa_ptr entry \<and> sa_ok (ent_sa e)"
  shows "mgr_wf m'"
proof -
  obtain b y where r: "r = (b, y)" by (cases r)
  obtain x' e where l: "locked (entry\<lparr>ent_sync := y\<rparr>) = (x', e)"
    by (cases "locked (entry\<lparr>ent_sync := y\<rparr>)")
  have "mgr_wf (change_entry (ent_ptr entry) (\<lambda>_. e) m)"
    using assms(4) [of y] l mgr_wf_ptr [OF assms(1) _ assms(2)] by (intro change_entry_wf [OF assms(1)]) auto
  then show ?thesis
    using assms(3) r l change_sync_wf [OF assms(1)] by (auto simp: after_wait_def split: option.splits bool.splits)
qed

lemma entry_locked_ok:
  assumes "mgr_wf m" "entry \<in> set (mgr_sas m)"
  shows "case update_locked w ns nd (entry\<lparr>ent_sync := y\<rparr>) of (_, e) \<Rightarrow>
      ent_ptr e = ent_ptr entry \<and> ent_sa_ptr e = ent_sa_ptr entry \<and> sa_ok (ent_sa e)"
    and "case query_locked w (entry\<lparr>ent_sync := y\<rparr>) of (_, e) \<Rightarrow>
      ent_ptr e = ent_ptr entry \<and> ent_sa_ptr e = ent_sa_ptr entry \<and> sa_ok (ent_sa e)"
    and "case (Some (ent_sa_ptr (entry\<lparr>ent_sync := y\<rparr>)), entry\<lparr>ent_sync := y\<rparr>) of (_, e) \<Rightarrow>
      ent_ptr e = ent_ptr entry \<and> ent_sa_ptr e = ent_sa_ptr entry \<and> sa_ok (ent_sa e)"
  using assms
  by (auto simp: update_locked_def query_locked_def checkin_entry_def sa_ok_def mgr_wf_def
      sa_set_source_def sa_set_destination_def)

lemma flush_from_wf:
  "mgr_wf m \<Longrightarrow> flush_from t es m = (res, m') \<Longrightarrow> mgr_wf m'"
proof (induction es arbitrary: m)
  case (Cons e es)
  obtain o1 m1 where r: "after_remove (ent_ptr e) (wait_remove_entry t (ent_sync e)) m = (o1, m1)"
    by (cases "after_remove (ent_ptr e) (wait_remove_entry t (ent_sync e)) m")
  then have "mgr_wf m1"
    using after_remove_wf Cons.prems(1) by blast
  then show ?case
    using Cons r by (cases o1) auto
qed simp

lemma sa_exec_ok:
  "sa_ok sa \<Longrightarrow> sa_ok (snd (sa_expire hard sa))" "sa_ok sa \<Longrightarrow> sa_ok (snd (update_usestats now bytes sa))"
  by (auto simp: sa_ok_def sa_expire_def update_usestats_def Let_def)

lemma remove_entry_wf:
  "mgr_wf m \<Longrightarrow> remove_entry t p m = (res, m') \<Longrightarrow> mgr_wf m'"
  "mgr_wf m \<Longrightarrow> remove_entry_resume t b p m = (res, m') \<Longrightarrow> mgr_wf m'"
  by (auto simp: remove_entry_def remove_entry_resume_def Let_def split: option.splits dest: after_remove_wf)

lemma sa_expired_wf:
  assumes "mgr_wf m" "sa_expired t job m = (res, ev, m')"
  shows "mgr_wf m'"
proof (cases "find_entry (\<lambda>e. ent_ptr e = job_entry job) m")
  case None
  then show ?thesis using assms by (simp add: sa_expired_def)
next
  case (Some entry)
  obtain evs sa where x: "sa_expire (job_hard_offset job = 0) (ent_sa entry) = (evs, sa)"
    by (cases "sa_expire (job_hard_offset job = 0) (ent_sa entry)")
  let ?m = "change_entry (ent_ptr entry) (\<lambda>e. e\<lparr>ent_sa := sa\<rparr>) m"
  have "sa_ok (ent_sa entry)"
    using assms(1) find_entry_SomeD [OF Some] by (simp add: mgr_wf_def)
  from sa_exec_ok(1) [OF this, of "job_hard_offset job = 0"] have "mgr_wf ?m"
    using x by (intro change_entry_wf [OF assms(1)]) auto
  moreover obtain o1 m1 where "remove_entry t (job_entry job) ?m = (o1, m1)"
    by (cases "remove_entry t (job_entry job) ?m")
  ultimately show ?thesis
    using assms Some x remove_entry_wf(1) [of ?m t "job_entry job" o1 m1]
    by (cases o1) (auto simp: sa_expired_def Let_def split: if_splits)
qed

lemma get_spi_loop_wf:
  "mgr_wf m \<Longrightarrow> get_spi_loop fuel R lo hi rng m = Some (res, m') \<Longrightarrow> mgr_wf m'"
  by (induction fuel arbitrary: rng m)
    (auto simp: allocate_spi_def mgr_wf_def Let_def split: prod.splits option.splits if_splits)

text \<open>
  Everything threads do with the manager: the operations, their continuations after a wait, and the
  use of an SA by the thread that holds it. A new entry and its SA have addresses not in use.
\<close>

inductive mgr_step ::
  "('a, 'r) aead_t \<Rightarrow> 'c crypter_t \<Rightarrow> 's signer_t \<Rightarrow> 'r rng_t \<Rightarrow> ('r, 'c, 's, 'a) crypto_factory
    \<Rightarrow> (('a, ('c, 's, 'r) private_aead) aead_obj, 'q) sa_mgr \<Rightarrow> (('a, ('c, 's, 'r) private_aead) aead_obj, 'q) sa_mgr \<Rightarrow> bool"
  for A C S R F where
  get: "get_spi fuel Q rngs lo hi m = Some (res, m') \<Longrightarrow> mgr_step A C S R F m m'"
| add: "add_sa A C S R F p sp params update m = (res, m') \<Longrightarrow>
    p \<notin> ent_ptr ` set (mgr_sas m) \<Longrightarrow> sp \<notin> ent_sa_ptr ` set (mgr_sas m) \<Longrightarrow> mgr_step A C S R F m m'"
| update: "update_sa t w spi src dst ns nd encap m = (r1, m') \<Longrightarrow> mgr_step A C S R F m m'"
| update_resume: "wait_resume t w p SUCCESS (update_locked w ns nd) m = (r1, m') \<Longrightarrow> mgr_step A C S R F m m'"
| query: "query_sa t w src dst spi m = (r2, m') \<Longrightarrow> mgr_step A C S R F m m'"
| query_resume: "wait_resume t w p (SUCCESS, None) (query_locked w) m = (r2, m') \<Longrightarrow> mgr_step A C S R F m m'"
| checkout_spi: "checkout_by_spi t w spi dst m = (r3, m') \<Longrightarrow> mgr_step A C S R F m m'"
| checkout_reqid: "checkout_by_reqid t w reqid inb m = (r3, m') \<Longrightarrow> mgr_step A C S R F m m'"
| checkout_resume: "wait_resume t w p None (\<lambda>entry. (Some (ent_sa_ptr entry), entry)) m = (r3, m') \<Longrightarrow> mgr_step A C S R F m m'"
| checkin: "mgr_step A C S R F m (checkin w sa m)"
| use: "sa_of sa m = Some v \<Longrightarrow> update_usestats now bytes v = (ev, v') \<Longrightarrow> mgr_step A C S R F m (set_sa sa v' m)"
| del: "del_sa t src dst spi m = (r1, m') \<Longrightarrow> mgr_step A C S R F m m'"
| remove_resume: "remove_entry_resume t b p m = (r4, m') \<Longrightarrow> mgr_step A C S R F m m'"
| expired: "sa_expired t job m = (r5, ev, m') \<Longrightarrow> mgr_step A C S R F m m'"
| flush: "flush_sas t m = (r6, m') \<Longrightarrow> mgr_step A C S R F m m'"
| flush_resume: "flush_resume t b p m = (r6, m') \<Longrightarrow> mgr_step A C S R F m m'"

lemma create_entry_sa_ok:
  assumes "ipsec_sa_create A C S R F p = Some sa"
  shows "sa_ok sa"
  using assms created_fields(3) [of A C S R F "sp_enc_alg p" "sp_enc_key p" "sp_int_alg p" "sp_int_key p" "sp_inbound p"]
  by (auto simp: ipsec_sa_create_def sa_ok_def split: if_splits option.splits)

lemma add_sa_wf:
  assumes "mgr_wf m" "add_sa A C S R F p sp params update m = (res, m')"
    "p \<notin> ent_ptr ` set (mgr_sas m)" "sp \<notin> ent_sa_ptr ` set (mgr_sas m)"
  shows "mgr_wf m'"
  using assms create_entry_sa_ok [of A C S R F params]
  by (auto simp: add_sa_def mgr_wf_def Let_def find_entry_def create_entry_def distinct_removeAll
      split: option.splits if_splits)

lemma find_locked_wf:
  assumes wf: "mgr_wf m" and e: "entry \<in> set (mgr_sas m)"
  shows "after_wait (ent_ptr entry) r x1 (update_locked w ns nd) entry m = (res1, m') \<Longrightarrow> mgr_wf m'"
    and "after_wait (ent_ptr entry) r x2 (query_locked w) entry m = (res2, m') \<Longrightarrow> mgr_wf m'"
    and "after_wait (ent_ptr entry) r x3 (\<lambda>entry. (Some (ent_sa_ptr entry), entry)) entry m = (res3, m') \<Longrightarrow> mgr_wf m'"
  by (erule after_wait_wf [OF wf e], rule entry_locked_ok [OF wf e])+

lemma set_sa_wf:
  assumes "mgr_wf m" "sa_of sa m = Some v" "sa_ok v'"
  shows "mgr_wf (set_sa sa v' m)"
proof -
  have "map ent_ptr (mgr_sas (set_sa sa v' m)) = map ent_ptr (mgr_sas m)"
    "map ent_sa_ptr (mgr_sas (set_sa sa v' m)) = map ent_sa_ptr (mgr_sas m)"
    by (auto simp: set_sa_def)
  then show ?thesis
    using assms(1,3) by (simp add: mgr_wf_def) (auto simp: set_sa_def)
qed

lemma checkin_wf: "mgr_wf m \<Longrightarrow> mgr_wf (checkin w sa m)"
proof (cases "find_entry (\<lambda>e. ent_sa_ptr e = sa) m")
  case (Some entry)
  assume "mgr_wf m"
  then have "mgr_wf (change_entry (ent_ptr entry) (checkin_entry w) m)"
    by (rule change_entry_wf) (use \<open>mgr_wf m\<close> in \<open>auto simp: checkin_entry_def mgr_wf_def\<close>)
  then show ?thesis
    using \<open>mgr_wf m\<close> Some by (simp add: checkin_def)
qed (simp add: checkin_def)

lemma mgr_step_wf:
  assumes "mgr_step A C S R F m m'" "mgr_wf m"
  shows "mgr_wf m'"
  using assms
proof (induction rule: mgr_step.induct)
  case (get fuel Q rngs lo hi m res m')
  then show ?case
    using get_spi_loop_wf [of m fuel Q]
    by (fastforce simp: get_spi_def split: prod.splits option.splits)
next
  case (add p sp params update m res m')
  then show ?case using add_sa_wf by blast
next
  case (update t w spi src dst ns nd encap m r1 m')
  then show ?case
    by (auto simp: update_sa_def split: option.splits if_splits dest!: find_entry_SomeD dest: find_locked_wf(1))
next
  case (update_resume t w p ns nd m r1 m')
  then show ?case
    by (auto simp: wait_resume_def split: option.splits dest!: find_entry_SomeD dest: find_locked_wf(1))
next
  case (use sa m v now bytes ev v')
  have "sa_ok v"
    using use(1,3) find_entry_SomeD by (fastforce simp: sa_of_def mgr_wf_def)
  then have "sa_ok v'"
    using sa_exec_ok(2) [of v now bytes] use(2) by simp
  then show ?case using set_sa_wf use by blast
next
  case (checkin m w sa)
  then show ?case by (rule checkin_wf)
qed (auto simp: query_sa_def wait_resume_def checkout_by_spi_def checkout_by_reqid_def checkout_entry_def del_sa_def
    flush_sas_def flush_resume_def Let_def split: option.splits prod.splits outcome.splits bool.splits
    dest!: find_entry_SomeD dest: find_locked_wf(2,3) after_remove_wf remove_entry_wf(2) sa_expired_wf flush_from_wf)



definition demo_mgr ::
  "(((chapoly_drv_portable, unit) chapoly_aead, (unit, unit, unit) private_aead) aead_obj, unit) sa_mgr" where
  "demo_mgr = snd (add_sa (chapoly_methods portable_drv []) no_crypter no_signer constant_rng
     (chapoly_factory constant_rng (\<lambda>q. Some ())) 100 200 demo_sa_params True ipsec_sa_mgr_create)"

lemma demo_mgr_add:
  "\<exists>sa. demo_sa_create demo_sa_params = Some sa \<and> mgr_sas demo_mgr = [create_entry 100 200 sa] \<and>
     add_sa (chapoly_methods portable_drv []) no_crypter no_signer constant_rng
       (chapoly_factory constant_rng (\<lambda>q. Some ())) 100 200 demo_sa_params True ipsec_sa_mgr_create =
       ((SUCCESS, schedule_expiration (create_entry 100 200 sa)), demo_mgr)"
proof -
  obtain sa where "demo_sa_create demo_sa_params = Some sa"
    using demo_sa_ex by blast
  then show ?thesis
    by (auto simp: demo_mgr_def add_sa_def demo_sa_create_def ipsec_sa_mgr_create_def find_entry_def Let_def)
qed

lemma demo_mgr_reachable:
  "(mgr_step (chapoly_methods portable_drv []) no_crypter no_signer constant_rng
     (chapoly_factory constant_rng (\<lambda>q. Some ())))\<^sup>*\<^sup>* ipsec_sa_mgr_create demo_mgr"
proof (rule r_into_rtranclp)
  obtain res where "add_sa (chapoly_methods portable_drv []) no_crypter no_signer constant_rng
       (chapoly_factory constant_rng (\<lambda>q. Some ())) 100 200 demo_sa_params True ipsec_sa_mgr_create = (res, demo_mgr)"
    using demo_mgr_add by blast
  then show "mgr_step (chapoly_methods portable_drv []) no_crypter no_signer constant_rng
      (chapoly_factory constant_rng (\<lambda>q. Some ())) ipsec_sa_mgr_create demo_mgr"
    by (rule mgr_step.add) (simp_all add: ipsec_sa_mgr_create_def)
qed


subsection \<open>Lookup\<close>

text \<open>
  C16: An SA that was installed is found: checking out its SPI and destination returns this SA, as it
  was created; until it is checked in any other thread that asks for it waits, and afterwards gets it;
  and a second SA with the same SPI and addresses is refused.
\<close>

theorem installed_sa_found:
  assumes "add_sa A C S R F p sp params update m = ((SUCCESS, job), m1)"
    and "wf_host (sp_dst params)" "wf_host (sp_src params)"
  shows "\<exists>m2 sa. checkout_by_spi t w (sp_spi params) (sp_dst params) m1 = (Returns (Some sp), m2) \<and>
           ipsec_sa_create A C S R F params = Some sa \<and> sa_of sp m2 = Some sa \<and>
           fst (checkout_by_spi t' w' (sp_spi params) (sp_dst params) m2) = Waits \<and>
           fst (checkout_by_spi t' w' (sp_spi params) (sp_dst params) (checkin w sp m2)) = Returns (Some sp) \<and>
           fst (fst (add_sa A C S R F p' sp' params update' m1)) = FAILED"
proof -
  obtain sa where sa: "ipsec_sa_create A C S R F params = Some sa"
    using assms(1) by (auto simp: add_sa_def split: option.splits)
  note f = ipsec_sa_create_fresh [OF sa]
  have m1: "mgr_sas m1 = create_entry p sp sa # mgr_sas m"
    using assms(1) sa by (auto simp: add_sa_def Let_def split: if_splits)
  have match: "match_by_spi_dst (sp_spi params) (sp_dst params) sa"
    "match_by_spi_src_dst (sp_spi params) (sp_src params) (sp_dst params) sa"
    using f assms(2,3) by (simp_all add: match_by_spi_dst_def match_by_spi_src_dst_def ip_equals_iff)
  show ?thesis
    using sa match m1
    by (auto simp: checkout_by_spi_def checkout_entry_def find_entry_def after_wait_def wait_for_entry_def
        create_entry_def create_sync_def change_entry_def sa_of_def checkin_def checkin_entry_def
        release_entry_def add_sa_def Let_def)
qed

theorem installed_sa_found_witness:
  "\<exists>m2. checkout_by_spi 1 2 0x1234 (sp_dst demo_sa_params) demo_mgr = (Returns (Some 200), m2) \<and>
     fst (checkout_by_spi 3 4 0x1234 (sp_dst demo_sa_params) m2) = Waits"
proof -
  have h: "wf_host (sp_dst demo_sa_params)" "wf_host (sp_src demo_sa_params)" and spi: "sp_spi demo_sa_params = 0x1234"
    by (simp_all add: demo_sa_params_def wf_host_def)
  obtain job where "add_sa (chapoly_methods portable_drv []) no_crypter no_signer constant_rng
       (chapoly_factory constant_rng (\<lambda>q. Some ())) 100 200 demo_sa_params True ipsec_sa_mgr_create = ((SUCCESS, job), demo_mgr)"
    using demo_mgr_add by blast
  from installed_sa_found [OF this h, of 1 2 3 4] show ?thesis
    unfolding spi by blast
qed

text \<open>
  C39: When the SA that \<open>update_sa\<close> or \<open>query_sa\<close> finds is being deleted by another thread, both
  report success although nothing was updated and no statistics are returned.
\<close>

theorem deleted_sa_reported_updated:
  assumes "find_entry (\<lambda>e. match_by_spi_src_dst spi src dst (ent_sa e)) m = Some entry"
    and "es_awaits_deletion (ent_sync entry)"
  shows "fst (update_sa t w spi src dst new_src new_dst True m) = Returns SUCCESS \<and>
         map ent_sa (mgr_sas (snd (update_sa t w spi src dst new_src new_dst True m))) = map ent_sa (mgr_sas m) \<and>
         fst (query_sa t w src dst spi m) = Returns (SUCCESS, None)"
  using assms by (auto simp: update_sa_def query_sa_def after_wait_def wait_for_entry_def change_entry_def)

definition deleting_mgr ::
  "(((chapoly_drv_portable, unit) chapoly_aead, (unit, unit, unit) private_aead) aead_obj, unit) sa_mgr" where
  "deleting_mgr = snd (del_sa 3 (sp_src demo_sa_params) (sp_dst demo_sa_params) 0x1234
     (snd (checkout_by_spi 1 2 0x1234 (sp_dst demo_sa_params) demo_mgr)))"

theorem deleted_sa_reported_updated_witness:
  "fst (update_sa 5 1 0x1234 (sp_src demo_sa_params) (sp_dst demo_sa_params) (sp_dst demo_sa_params)
     (sp_src demo_sa_params) True deleting_mgr) = Returns SUCCESS"
proof -
  obtain sa where sa: "demo_sa_create demo_sa_params = Some sa" "mgr_sas demo_mgr = [create_entry 100 200 sa]"
    using demo_mgr_add by blast
  note f = ipsec_sa_create_fresh [OF sa(1) [unfolded demo_sa_create_def]]
  have h: "wf_host (sp_dst demo_sa_params)" "wf_host (sp_src demo_sa_params)" and spi: "sp_spi demo_sa_params = 0x1234"
    by (simp_all add: demo_sa_params_def wf_host_def)
  have match: "match_by_spi_dst 0x1234 (sp_dst demo_sa_params) sa"
    "match_by_spi_src_dst 0x1234 (sp_src demo_sa_params) (sp_dst demo_sa_params) sa"
    using f h spi by (simp_all add: match_by_spi_dst_def match_by_spi_src_dst_def ip_equals_iff)
  have "\<exists>entry. find_entry (\<lambda>e. match_by_spi_src_dst 0x1234 (sp_src demo_sa_params) (sp_dst demo_sa_params) (ent_sa e)) deleting_mgr = Some entry \<and>
      es_awaits_deletion (ent_sync entry)"
    using sa(2) match
    by (simp add: deleting_mgr_def del_sa_def checkout_by_spi_def checkout_entry_def find_entry_def after_wait_def
        after_remove_def wait_for_entry_def wait_remove_entry_def wait_remove_locked_def create_entry_def
        create_sync_def change_entry_def)
  then show ?thesis
    using deleted_sa_reported_updated by blast
qed

subsection \<open>Expiration by time\<close>

lemma find_entry_ptr:
  assumes "mgr_wf m" "e \<in> set (mgr_sas m)"
  shows "find_entry (\<lambda>e'. ent_ptr e' = ent_ptr e) m = Some e"
proof -
  obtain e' where e': "find_entry (\<lambda>e'. ent_ptr e' = ent_ptr e) m = Some e'"
    using assms(2) by (metis (mono_tags, lifting) find_None_iff find_entry_def not_None_eq)
  then show ?thesis
    using find_entry_SomeD [OF e'] mgr_wf_ptr [OF assms(1)] assms(2) by auto
qed

lemma change_entry_in:
  "e \<in> set (mgr_sas m) \<Longrightarrow> f e \<in> set (mgr_sas (change_entry (ent_ptr e) f m))"
  by (auto simp: change_entry_def)

definition entry_free :: "'a sa_entry \<Rightarrow> bool" where
  "entry_free e \<longleftrightarrow> \<not> es_locked (ent_sync e) \<and> es_waiting_threads (ent_sync e) = 0 \<and> \<not> es_awaits_deletion (ent_sync e)"

lemma sa_expired_hard:
  assumes wf: "mgr_wf m" and e: "e \<in> set (mgr_sas m)" "entry_free e" "\<not> hard_expired (ent_sa e)"
    and job: "job_entry job = ent_ptr e" "job_spi job = sa_spi (ent_sa e)" "job_hard_offset job = 0"
  shows "\<exists>m'. sa_expired t job m = (Returns None, [sa_event (ent_sa e) True], m') \<and>
           ent_ptr e \<notin> ent_ptr ` set (mgr_sas m')"
proof -
  let ?sa = "(ent_sa e)\<lparr>hard_expired := True\<rparr>"
  let ?m = "change_entry (ent_ptr e) (\<lambda>e. e\<lparr>ent_sa := ?sa\<rparr>) m"
  have "sa_ok ?sa"
    using wf e(1) by (simp add: mgr_wf_def sa_ok_def)
  then have "mgr_wf ?m"
    by (intro change_entry_wf [OF wf]) simp
  from find_entry_ptr [OF this change_entry_in [OF e(1), of "\<lambda>e. e\<lparr>ent_sa := ?sa\<rparr>"]]
  have "find_entry (\<lambda>e'. ent_ptr e' = ent_ptr e) ?m = Some (e\<lparr>ent_sa := ?sa\<rparr>)" by simp
  then have "remove_entry t (ent_ptr e) ?m = (Returns True, drop_entry (ent_ptr e) ?m)"
    using e(2) by (simp add: remove_entry_def entry_free_def wait_remove_entry_def wait_remove_locked_def
        wait_remove_threads_def after_remove_def)
  then show ?thesis
    using find_entry_ptr [OF wf e(1)] job e(3)
    by (auto simp: sa_expired_def sa_expire_def drop_entry_def)
qed

lemma sa_expired_soft:
  assumes wf: "mgr_wf m" and e: "e \<in> set (mgr_sas m)" "\<not> hard_expired (ent_sa e)" "\<not> soft_expired (ent_sa e)"
    and job: "job_entry job = ent_ptr e" "job_spi job = sa_spi (ent_sa e)" "job_hard_offset job \<noteq> 0"
  shows "sa_expired t job m = (Returns (Some (job\<lparr>job_hard_offset := 0\<rparr>, job_hard_offset job)),
           [sa_event (ent_sa e) False], change_entry (ent_ptr e) (\<lambda>e'. e'\<lparr>ent_sa := (ent_sa e)\<lparr>soft_expired := True\<rparr>\<rparr>) m)"
  using find_entry_ptr [OF wf e(1)] job e(2,3) by (simp add: sa_expired_def sa_expire_def)

text \<open>
  C18: An SA with time limits below \<open>2\<^sup>3\<^sup>2\<close> seconds that nobody uses when they are reached expires in
  time: with a rekey time before its life time the scheduler runs the job after the rekey time, which
  raises a soft expire event and runs the job again after the rest of the life time, when it raises a
  hard expire event and removes the SA; without one the hard event comes after the life time.
\<close>

theorem sa_expires_in_time:
  assumes wf: "mgr_wf m" and e: "e \<in> set (mgr_sas m)" "entry_free e" "\<not> hard_expired (ent_sa e)" "\<not> soft_expired (ent_sa e)"
  defines "lt \<equiv> lt_time (sa_lifetime (ent_sa e))"
  assumes life: "0 < unat (lim_life lt)" "unat (lim_life lt) < 2 ^ 32"
  shows "\<exists>job timeout. schedule_expiration e = Some (job, timeout) \<and>
           (if 0 < unat (lim_rekey lt) \<and> unat (lim_rekey lt) < unat (lim_life lt)
            then unat timeout = unat (lim_rekey lt) \<and>
              (\<exists>job' off m1 m2. sa_expired t job m = (Returns (Some (job', off)), [sa_event (ent_sa e) False], m1) \<and>
                 unat timeout + unat off = unat (lim_life lt) \<and>
                 sa_expired t' job' m1 = (Returns None, [sa_event (ent_sa e) True], m2) \<and>
                 ent_ptr e \<notin> ent_ptr ` set (mgr_sas m2))
            else unat timeout = unat (lim_life lt) \<and>
              (\<exists>m2. sa_expired t job m = (Returns None, [sa_event (ent_sa e) True], m2) \<and>
                 ent_ptr e \<notin> ent_ptr ` set (mgr_sas m2)))"
proof -
  let ?job = "\<lambda>off. \<lparr>job_entry = ent_ptr e, job_spi = sa_spi (ent_sa e), job_hard_offset = off\<rparr>"
  have narrow: "unat (ucast x :: u32) = unat x" if "unat x < 2 ^ 32" for x :: u64
    using that by (simp add: unsigned_ucast_eq unsigned_take_bit_eq take_bit_eq_mod)
  have nz: "lim_life lt \<noteq> 0"
    using life(1) by auto
  show ?thesis
  proof (cases "0 < unat (lim_rekey lt) \<and> unat (lim_rekey lt) < unat (lim_life lt)")
    case True
    let ?off = "ucast (lim_life lt - lim_rekey lt) :: u32"
    have diff: "unat (lim_life lt - lim_rekey lt) = unat (lim_life lt) - unat (lim_rekey lt)"
      using True by (intro unat_sub) (simp add: word_le_nat_alt)
    have off: "unat ?off = unat (lim_life lt) - unat (lim_rekey lt)"
      using narrow [of "lim_life lt - lim_rekey lt"] diff life(2) by linarith
    have "?off \<noteq> 0"
      using off True by (metis diff_is_0_eq not_le unsigned_0)
    have sched: "schedule_expiration e = Some (?job ?off, ucast (lim_rekey lt))"
      using True nz by (auto simp: schedule_expiration_def lt_def [symmetric] Let_def word_le_nat_alt)
    let ?e = "e\<lparr>ent_sa := (ent_sa e)\<lparr>soft_expired := True\<rparr>\<rparr>"
    let ?m = "change_entry (ent_ptr e) (\<lambda>e'. e'\<lparr>ent_sa := (ent_sa e)\<lparr>soft_expired := True\<rparr>\<rparr>) m"
    have s: "sa_expired t (?job ?off) m = (Returns (Some (?job 0, ?off)), [sa_event (ent_sa e) False], ?m)"
      using sa_expired_soft [OF wf e(1,3,4), of "?job ?off" t] \<open>?off \<noteq> 0\<close> by simp
    have "sa_ok ((ent_sa e)\<lparr>soft_expired := True\<rparr>)"
      using wf e(1) by (simp add: mgr_wf_def sa_ok_def)
    then have "mgr_wf ?m"
      by (intro change_entry_wf [OF wf]) simp
    from sa_expired_hard [OF this change_entry_in [OF e(1), of "\<lambda>e'. e'\<lparr>ent_sa := (ent_sa e)\<lparr>soft_expired := True\<rparr>\<rparr>"], of "?job 0" t']
    obtain m2 where "sa_expired t' (?job 0) ?m = (Returns None, [sa_event (ent_sa e) True], m2)"
      "ent_ptr e \<notin> ent_ptr ` set (mgr_sas m2)"
      using e(2,3) by (auto simp: entry_free_def sa_event_def)
    then show ?thesis
      using sched s off True narrow [of "lim_rekey lt"] life(2) by auto
  next
    case False
    then have sched: "schedule_expiration e = Some (?job 0, ucast (lim_life lt))"
      using nz by (auto simp: schedule_expiration_def lt_def [symmetric] Let_def word_le_nat_alt unat_eq_0)
    show ?thesis
      unfolding if_not_P [OF False]
      using sched sa_expired_hard [OF wf e(1,2,3), of "?job 0" t] narrow [OF life(2)] by auto
  qed
qed

definition demo_timed :: "'a ipsec_sa \<Rightarrow> 'a ipsec_sa" where
  "demo_timed sa = sa\<lparr>sa_lifetime := (sa_lifetime sa)\<lparr>lt_time := \<lparr>lim_life = 60, lim_rekey = 50, lim_jitter = 0\<rparr>\<rparr>\<rparr>"

theorem sa_expires_in_time_witness:
  "\<exists>sa job timeout. demo_sa_create demo_sa_params = Some sa \<and>
     schedule_expiration (create_entry 1 2 (demo_timed sa)) = Some (job, timeout) \<and> unat timeout = 50 \<and>
     (\<exists>job' off m1. sa_expired 7 job \<lparr>mgr_sas = [create_entry 1 2 (demo_timed sa)], mgr_allocated_spis = [], mgr_rng = None :: unit option\<rparr> =
        (Returns (Some (job', off)), [sa_event (demo_timed sa) False], m1) \<and> unat timeout + unat off = 60)"
proof -
  obtain sa where sa: "demo_sa_create demo_sa_params = Some sa"
    using demo_sa_ex by blast
  note f = ipsec_sa_create_fresh [OF sa [unfolded demo_sa_create_def]]
  note ok = create_entry_sa_ok [OF sa [unfolded demo_sa_create_def]]
  let ?e = "create_entry 1 2 (demo_timed sa)"
  let ?m = "\<lparr>mgr_sas = [?e], mgr_allocated_spis = [], mgr_rng = None :: unit option\<rparr>"
  have wf: "mgr_wf ?m"
    using ok by (simp add: mgr_wf_def create_entry_def demo_timed_def sa_ok_def)
  have e: "?e \<in> set (mgr_sas ?m)" "entry_free ?e" "\<not> hard_expired (ent_sa ?e)" "\<not> soft_expired (ent_sa ?e)"
    using f by (simp_all add: create_entry_def entry_free_def create_sync_def demo_timed_def)
  have lt: "lt_time (sa_lifetime (ent_sa ?e)) = \<lparr>lim_life = 60, lim_rekey = 50, lim_jitter = 0\<rparr>"
    by (simp add: create_entry_def demo_timed_def)
  have "ent_sa ?e = demo_timed sa"
    by (simp add: create_entry_def)
  then show ?thesis
    using sa_expires_in_time [OF wf e, of 7 7, unfolded lt] sa by auto
qed

end
