(* ===== verification/Traffic_Selector.thy ===== *)
theory Traffic_Selector
  imports Host
begin

unbundle bit_operations_syntax

text \<open>
  \<open>selectors/traffic_selector.c\<close>: ranges of addresses, a protocol and a range of ports. The arrays
  \<open>from\<close> and \<open>to\<close> have room for an IPv6 address; an IPv4 selector uses their first four bytes.
  Printing and the constructors from strings are left to the C library's address parser.
\<close>

section \<open>Selectors\<close>

datatype ts_type_t = TS_IPV4_ADDR_RANGE | TS_IPV6_ADDR_RANGE | TS_TYPE_OTHER

record traffic_selector =
  ts_type :: ts_type_t
  ts_protocol :: u8
  ts_dynamic :: bool
  ts_netbits :: u8
  ts_from :: chunk
  ts_to :: chunk
  ts_from_port :: u16
  ts_to_port :: u16

abbreviation (input) NON_SUBNET_ADDRESS_RANGE :: u8 where "NON_SUBNET_ADDRESS_RANGE \<equiv> 255"
abbreviation (input) IPPROTO_ICMP :: u8 where "IPPROTO_ICMP \<equiv> 1"
abbreviation (input) IPPROTO_ICMPV6 :: u8 where "IPPROTO_ICMPV6 \<equiv> 58"

definition TS_IP_LEN :: "traffic_selector \<Rightarrow> nat" where
  "TS_IP_LEN this = (if ts_type this = TS_IPV4_ADDR_RANGE then IPV4_LEN else IPV6_LEN)"

text \<open>ICMP type and code are a port: type in the upper, code in the lower byte.\<close>

definition icmp_port :: "u8 \<Rightarrow> u16 \<Rightarrow> u16" where
  "icmp_port protocol port =
     (if protocol = IPPROTO_ICMP \<or> protocol = IPPROTO_ICMPV6
      then (if port < 256 then push_bit 8 port else port) else port)"

definition traffic_selector_create :: "u8 \<Rightarrow> ts_type_t \<Rightarrow> u16 \<Rightarrow> u16 \<Rightarrow> traffic_selector option" where
  "traffic_selector_create protocol type from_port to_port =
     (if type \<noteq> TS_IPV4_ADDR_RANGE \<and> type \<noteq> TS_IPV6_ADDR_RANGE then None
      else Some \<lparr>ts_type = type, ts_protocol = protocol, ts_dynamic = False, ts_netbits = 0,
        ts_from = replicate IPV6_LEN 0, ts_to = replicate IPV6_LEN 0,
        ts_from_port = icmp_port protocol from_port, ts_to_port = icmp_port protocol to_port\<rparr>)"

section \<open>Prefix lengths\<close>

text \<open>
  \<open>calc_range\<close>: \<open>to\<close> from \<open>from\<close> and a prefix length. For length 0 the source also writes the byte
  before the arrays, with its own value.
\<close>

definition calc_range :: "traffic_selector \<Rightarrow> u8 \<Rightarrow> traffic_selector" where
  "calc_range this netbits =
     (let len = TS_IP_LEN this;
          bytes = (unat netbits + 7) div 8;
          bits = bytes * 8 - unat netbits;
          m = (if bits \<noteq> 0 then push_bit bits 1 - 1 else 0) :: u8;
          to = memcpy_at (memcpy_at (ts_to this) 0 (take bytes (ts_from this))) bytes (replicate (len - bytes) 0xff);
          from = memcpy_at (ts_from this) bytes (replicate (len - bytes) 0)
      in this\<lparr>ts_netbits := netbits,
           ts_from := (if bytes = 0 then from else from[bytes - 1 := from ! (bytes - 1) AND NOT m]),
           ts_to := (if bytes = 0 then to else to[bytes - 1 := to ! (bytes - 1) OR m])\<rparr>)"

text \<open>
  \<open>calc_netbits\<close>: the loop over all bits, first byte and highest bit first. It returns the length of
  the common prefix and what it leaves in the \<open>netbits\<close> field.
\<close>

fun calc_netbits_loop :: "chunk \<Rightarrow> chunk \<Rightarrow> nat list \<Rightarrow> bool \<Rightarrow> u8 \<Rightarrow> u8 \<Rightarrow> u8 \<times> u8" where
  "calc_netbits_loop from to [] prefix netbits field = (netbits, field)"
| "calc_netbits_loop from to (i # is) prefix netbits field =
     (let bitmask = push_bit (7 - i mod 8) 1; f = bitmask AND from ! (i div 8); t = bitmask AND to ! (i div 8)
      in if prefix
         then if f \<noteq> t then calc_netbits_loop from to is False (of_nat i) (of_nat i)
              else calc_netbits_loop from to is True netbits field
         else if f \<noteq> 0 \<or> t = 0 then (netbits, NON_SUBNET_ADDRESS_RANGE)
              else calc_netbits_loop from to is False netbits field)"

definition calc_netbits :: "traffic_selector \<Rightarrow> u8 \<times> traffic_selector" where
  "calc_netbits this =
     (let size = TS_IP_LEN this; netbits = of_nat (size * 8)
      in case calc_netbits_loop (ts_from this) (ts_to this) [0 ..< size * 8] True netbits netbits of
           (netbits, field) \<Rightarrow> (netbits, this\<lparr>ts_netbits := field\<rparr>))"

section \<open>Operations\<close>

definition is_opaque :: "traffic_selector \<Rightarrow> bool" where
  "is_opaque this \<longleftrightarrow> ts_from_port this = 0xffff \<and> ts_to_port this = 0"

definition is_any :: "traffic_selector \<Rightarrow> bool" where
  "is_any this \<longleftrightarrow> ts_from_port this = 0 \<and> ts_to_port this = 0xffff"

text \<open>The higher \<open>from\<close> and the lower \<open>to\<close> address.\<close>

definition subset_from :: "traffic_selector \<Rightarrow> traffic_selector \<Rightarrow> chunk" where
  "subset_from this other =
     (if memcmp (ts_from this) (ts_from other) (TS_IP_LEN this) > 0 then ts_from this else ts_from other)"

definition subset_to :: "traffic_selector \<Rightarrow> traffic_selector \<Rightarrow> chunk" where
  "subset_to this other =
     (if memcmp (ts_to this) (ts_to other) (TS_IP_LEN this) > 0 then ts_to other else ts_to this)"

definition get_subset :: "traffic_selector \<Rightarrow> traffic_selector \<Rightarrow> traffic_selector option" where
  "get_subset this other =
     (if ts_dynamic this \<or> ts_dynamic other then None
      else if ts_type this \<noteq> ts_type other then None
      else if ts_protocol this \<noteq> ts_protocol other \<and> ts_protocol this \<noteq> 0 \<and> ts_protocol other \<noteq> 0 then None
      else
        (let protocol = max (ts_protocol this) (ts_protocol other);
             opaque = is_opaque this \<and> is_opaque other \<or> is_opaque this \<and> is_any other \<or> is_opaque other \<and> is_any this;
             from_port = (if opaque then 0xffff else max (ts_from_port this) (ts_from_port other));
             to_port = (if opaque then 0 else min (ts_to_port this) (ts_to_port other));
             size = TS_IP_LEN this; from = subset_from this other; to = subset_to this other
         in if \<not> opaque \<and> from_port > to_port then None
            else if memcmp from to size > 0 then None
            else
              (case traffic_selector_create protocol (ts_type this) from_port to_port of
                 None \<Rightarrow> None
               | Some sub \<Rightarrow> Some (snd (calc_netbits
                   (sub\<lparr>ts_from := memcpy_at (ts_from sub) 0 (take size from),
                        ts_to := memcpy_at (ts_to sub) 0 (take size to)\<rparr>))))))"

definition compare_int :: "int \<Rightarrow> int \<Rightarrow> int" where
  "compare_int a b = a - b"

text \<open>The types are numbered 7 and 8 in the protocol.\<close>

fun ts_type_num :: "ts_type_t \<Rightarrow> int" where
  "ts_type_num TS_IPV4_ADDR_RANGE = 7"
| "ts_type_num TS_IPV6_ADDR_RANGE = 8"
| "ts_type_num TS_TYPE_OTHER = 0"

definition traffic_selector_cmp :: "traffic_selector \<Rightarrow> traffic_selector \<Rightarrow> int" where
  "traffic_selector_cmp a b =
     (let len = TS_IP_LEN a; res = compare_int (ts_type_num (ts_type a)) (ts_type_num (ts_type b))
      in if res \<noteq> 0 then res
         else let res = memcmp (ts_from a) (ts_from b) len
         in if res \<noteq> 0 then res
         else let res = memcmp (ts_to b) (ts_to a) len
         in if res \<noteq> 0 then res
         else let res = compare_int (uint (ts_protocol a)) (uint (ts_protocol b))
         in if res \<noteq> 0 then res
         else let res = compare_int (uint (ts_from_port a)) (uint (ts_from_port b))
         in if res \<noteq> 0 then res
         else compare_int (uint (ts_to_port b)) (uint (ts_to_port a)))"

definition ts_equals :: "traffic_selector \<Rightarrow> traffic_selector \<Rightarrow> bool" where
  "ts_equals this other \<longleftrightarrow> traffic_selector_cmp this other = 0"

definition is_contained_in :: "traffic_selector \<Rightarrow> traffic_selector \<Rightarrow> bool" where
  "is_contained_in this other = (case get_subset this other of None \<Rightarrow> False | Some sub \<Rightarrow> ts_equals sub this)"

definition host_matches_type :: "traffic_selector \<Rightarrow> host \<Rightarrow> bool" where
  "host_matches_type this host \<longleftrightarrow>
     (get_family host = AF_INET \<and> ts_type this = TS_IPV4_ADDR_RANGE) \<or>
     (get_family host = AF_INET6 \<and> ts_type this = TS_IPV6_ADDR_RANGE)"

definition ts_includes :: "traffic_selector \<Rightarrow> host \<Rightarrow> bool" where
  "ts_includes this host =
     (if host_matches_type this host
      then memcmp (ts_from this) (get_address host) (length (get_address host)) \<le> 0 \<and>
           memcmp (ts_to this) (get_address host) (length (get_address host)) \<ge> 0
      else False)"

definition is_host :: "traffic_selector \<Rightarrow> host option \<Rightarrow> bool" where
  "is_host this host =
     (case host of
        Some h \<Rightarrow> host_matches_type this h \<and> memeq (get_address h) (ts_from this) (length (get_address h)) \<and>
          memeq (get_address h) (ts_to this) (length (get_address h))
      | None \<Rightarrow> ts_dynamic this \<or> memeq (ts_from this) (ts_to this) (TS_IP_LEN this))"

definition set_address :: "traffic_selector \<Rightarrow> host \<Rightarrow> traffic_selector" where
  "set_address this host =
     (let this = this\<lparr>ts_type := if get_family host = AF_INET then TS_IPV4_ADDR_RANGE else TS_IPV6_ADDR_RANGE\<rparr>;
          this = (if is_anyaddr host
            then this\<lparr>ts_from := replicate IPV6_LEN 0, ts_to := replicate IPV6_LEN 0xff, ts_netbits := 0\<rparr>
            else this\<lparr>ts_from := memcpy_at (ts_from this) 0 (get_address host),
                      ts_to := memcpy_at (ts_to this) 0 (get_address host),
                      ts_netbits := of_nat (length (get_address host) * 8)\<rparr>)
      in this\<lparr>ts_dynamic := False\<rparr>)"

text \<open>\<open>to_subnet\<close>: whether the range is a subnet, its address and prefix length, and the selector.\<close>

definition subnet_bytes :: "nat \<Rightarrow> chunk \<Rightarrow> u8 \<Rightarrow> chunk" where
  "subnet_bytes len from netmask =
     (if netmask = 0 then replicate len 0
      else let n = (unat netmask + 7) div 8; bs = take n from @ replicate (len - n) 0
           in bs[n - 1 := bs ! (n - 1) AND push_bit (8 * n - unat netmask) 0xff])"

definition to_subnet :: "traffic_selector \<Rightarrow> ((bool \<times> host option \<times> u8) \<times> traffic_selector)" where
  "to_subnet this =
     (let (netmask, this) = (if ts_netbits this = NON_SUBNET_ADDRESS_RANGE then calc_netbits this
                             else (ts_netbits this, this));
          port = (if ts_to_port this = ts_from_port this then ts_to_port this else 0)
      in case ts_type this of
           TS_TYPE_OTHER \<Rightarrow> ((False, None, netmask), this)
         | TS_IPV4_ADDR_RANGE \<Rightarrow>
             ((ts_netbits this \<noteq> NON_SUBNET_ADDRESS_RANGE,
               host_create_from_chunk AF_INET (subnet_bytes IPV4_LEN (ts_from this) netmask) port, netmask), this)
         | TS_IPV6_ADDR_RANGE \<Rightarrow>
             ((ts_netbits this \<noteq> NON_SUBNET_ADDRESS_RANGE,
               host_create_from_chunk AF_INET6 (subnet_bytes IPV6_LEN (ts_from this) netmask) port, netmask), this))"

definition ts_clone :: "traffic_selector \<Rightarrow> traffic_selector option" where
  "ts_clone this =
     (let len = TS_IP_LEN this
      in map_option (\<lambda>clone. clone\<lparr>ts_netbits := ts_netbits this, ts_dynamic := ts_dynamic this,
             ts_from := memcpy_at (ts_from clone) 0 (take len (ts_from this)),
             ts_to := memcpy_at (ts_to clone) 0 (take len (ts_to this))\<rparr>)
           (traffic_selector_create (ts_protocol this) (ts_type this) (ts_from_port this) (ts_to_port this)))"

section \<open>Constructors\<close>

definition traffic_selector_create_from_bytes ::
  "u8 \<Rightarrow> ts_type_t \<Rightarrow> chunk \<Rightarrow> u16 \<Rightarrow> chunk \<Rightarrow> u16 \<Rightarrow> traffic_selector option" where
  "traffic_selector_create_from_bytes protocol type from from_port to to_port =
     (case traffic_selector_create protocol type from_port to_port of
        None \<Rightarrow> None
      | Some this \<Rightarrow>
          if length from \<noteq> length to \<or> length from \<noteq> TS_IP_LEN this then None
          else Some (snd (calc_netbits (this\<lparr>ts_from := memcpy_at (ts_from this) 0 from,
                                             ts_to := memcpy_at (ts_to this) 0 to\<rparr>))))"

text \<open>
  The constructor for address blocks of certificates, bit strings with the number of unused bits in
  front. The result \<open>None\<close> stands for a write behind the end of an array, or a shift by the width of
  an \<open>int\<close> or more; \<open>Some None\<close> is the result \<open>NULL\<close>. \<open>check_address_object\<close> is what the parser of
  certificates checks before it calls the constructor.
\<close>

definition traffic_selector_create_from_rfc3779_format ::
  "ts_type_t \<Rightarrow> chunk \<Rightarrow> chunk \<Rightarrow> traffic_selector option option" where
  "traffic_selector_create_from_rfc3779_format type from to =
     (case traffic_selector_create 0 type 0 65535 of
        None \<Rightarrow> Some None
      | Some this \<Rightarrow>
          (let len = TS_IP_LEN this;
               this_from = memcpy_at (ts_from this) 0 (replicate len 0x00);
               this_to = memcpy_at (ts_to this) 0 (replicate len 0xff)
           in if length from > IPV6_LEN + 1 \<or> length to > IPV6_LEN + 1 \<or> (length to > 1 \<and> to ! 0 > 30) then None
              else
                let this_from = (if length from > 1 then memcpy_at this_from 0 (drop 1 from) else this_from);
                    m = (if to ! 0 \<noteq> 0 then push_bit (unat (to ! 0)) 1 - 1 else 0) :: u8;
                    this_to = (if length to > 1
                      then (memcpy_at this_to 0 (drop 1 to))[length to - 2 := memcpy_at this_to 0 (drop 1 to) ! (length to - 2) OR m]
                      else this_to)
                in Some (Some (snd (calc_netbits (this\<lparr>ts_from := this_from, ts_to := this_to\<rparr>))))))"

definition check_address_object :: "ts_type_t \<Rightarrow> chunk \<Rightarrow> bool" where
  "check_address_object type obj =
     (if type = TS_IPV4_ADDR_RANGE \<and> length obj > 5 then False
      else if type = TS_IPV6_ADDR_RANGE \<and> length obj > 17 then False
      else if type \<noteq> TS_IPV4_ADDR_RANGE \<and> type \<noteq> TS_IPV6_ADDR_RANGE then False
      else if length obj = 0 then False
      else if length obj = 1 \<and> obj ! 0 \<noteq> 0 then False
      else obj ! 0 \<le> 7)"

definition traffic_selector_create_from_subnet ::
  "host \<Rightarrow> u8 \<Rightarrow> u8 \<Rightarrow> u16 \<Rightarrow> u16 \<Rightarrow> traffic_selector option" where
  "traffic_selector_create_from_subnet net netbits protocol from_port to_port =
     (case get_family net of
        AF_INET \<Rightarrow>
          map_option (\<lambda>this. calc_range (this\<lparr>ts_from := memcpy_at (ts_from this) 0 (get_address net)\<rparr>)
              (min netbits (of_nat (TS_IP_LEN this * 8))))
            (traffic_selector_create protocol TS_IPV4_ADDR_RANGE from_port to_port)
      | AF_INET6 \<Rightarrow>
          map_option (\<lambda>this. calc_range (this\<lparr>ts_from := memcpy_at (ts_from this) 0 (get_address net)\<rparr>)
              (min netbits (of_nat (TS_IP_LEN this * 8))))
            (traffic_selector_create protocol TS_IPV6_ADDR_RANGE from_port to_port)
      | _ \<Rightarrow> None)"

definition traffic_selector_create_dynamic :: "u8 \<Rightarrow> u16 \<Rightarrow> u16 \<Rightarrow> traffic_selector option" where
  "traffic_selector_create_dynamic protocol from_port to_port =
     map_option (\<lambda>this. this\<lparr>ts_from := replicate IPV6_LEN 0, ts_to := replicate IPV6_LEN 0xff,
         ts_netbits := 0, ts_dynamic := True\<rparr>)
       (traffic_selector_create protocol TS_IPV4_ADDR_RANGE from_port to_port)"

section \<open>What a selector stands for\<close>

text \<open>
  A selector matches an address of its type, a protocol and a port; protocol 0 stands for any. It is
  well formed when the arrays have their length and ICMP ports are a type and a code.
\<close>

definition lower :: "traffic_selector \<Rightarrow> nat" where
  "lower ts = be_nat (take (TS_IP_LEN ts) (ts_from ts))"

definition upper :: "traffic_selector \<Rightarrow> nat" where
  "upper ts = be_nat (take (TS_IP_LEN ts) (ts_to ts))"

definition ts_matches :: "traffic_selector \<Rightarrow> ts_type_t \<Rightarrow> chunk \<Rightarrow> u8 \<Rightarrow> u16 \<Rightarrow> bool" where
  "ts_matches ts type addr protocol port \<longleftrightarrow>
     type = ts_type ts \<and> length addr = TS_IP_LEN ts \<and> lower ts \<le> be_nat addr \<and> be_nat addr \<le> upper ts \<and>
     (ts_protocol ts = 0 \<or> protocol = ts_protocol ts) \<and> ts_from_port ts \<le> port \<and> port \<le> ts_to_port ts"

definition is_icmp :: "u8 \<Rightarrow> bool" where
  "is_icmp protocol \<longleftrightarrow> protocol = IPPROTO_ICMP \<or> protocol = IPPROTO_ICMPV6"

definition wf_ts :: "traffic_selector \<Rightarrow> bool" where
  "wf_ts ts \<longleftrightarrow> ts_type ts \<noteq> TS_TYPE_OTHER \<and> length (ts_from ts) = IPV6_LEN \<and> length (ts_to ts) = IPV6_LEN \<and>
     (is_icmp (ts_protocol ts) \<longrightarrow>
       (ts_from_port ts = 0 \<or> 256 \<le> ts_from_port ts) \<and> (ts_to_port ts = 0 \<or> 256 \<le> ts_to_port ts))"

lemma TS_IP_LEN_le: "TS_IP_LEN ts \<le> IPV6_LEN"
  by (simp add: TS_IP_LEN_def)

lemma memcmp_take: "memcmp (take n a) (take n b) n = memcmp a b n"
  by (induction a b n rule: memcmp.induct) auto

lemma memcmp_prefix:
  assumes "n \<le> length a" "n \<le> length b"
  shows "memcmp a b n > 0 \<longleftrightarrow> be_nat (take n a) > be_nat (take n b)"
    and "memcmp a b n = 0 \<longleftrightarrow> take n a = take n b"
    and "memcmp a b n \<le> 0 \<longleftrightarrow> be_nat (take n a) \<le> be_nat (take n b)"
    and "memcmp a b n \<ge> 0 \<longleftrightarrow> be_nat (take n a) \<ge> be_nat (take n b)"
  using memcmp_signs [of "take n a" n "take n b"] assms by (simp_all add: memcmp_take)

lemma calc_netbits_fields [simp]:
  "ts_type (snd (calc_netbits ts)) = ts_type ts" "ts_protocol (snd (calc_netbits ts)) = ts_protocol ts"
  "ts_from (snd (calc_netbits ts)) = ts_from ts" "ts_to (snd (calc_netbits ts)) = ts_to ts"
  "ts_from_port (snd (calc_netbits ts)) = ts_from_port ts" "ts_to_port (snd (calc_netbits ts)) = ts_to_port ts"
  "ts_dynamic (snd (calc_netbits ts)) = ts_dynamic ts" "TS_IP_LEN (snd (calc_netbits ts)) = TS_IP_LEN ts"
  by (simp_all add: calc_netbits_def TS_IP_LEN_def Let_def split: prod.splits)

lemma icmp_port_id:
  "is_icmp p \<longrightarrow> port = 0 \<or> 256 \<le> port \<Longrightarrow> icmp_port p port = port"
  by (auto simp: icmp_port_def is_icmp_def)

lemma take_memcpy_0: "length d \<le> length m \<Longrightarrow> take (length d) (memcpy_at m 0 d) = d"
  by (simp add: memcpy_at_def)

text \<open>Address blocks of certificates never make the constructor leave its arrays.\<close>

lemma checked_address_block:
  assumes "check_address_object type from" "check_address_object type to"
  shows "\<exists>ts. traffic_selector_create_from_rfc3779_format type from to = Some (Some ts) \<and> wf_ts ts \<and> ts_type ts = type"
proof -
  have t: "type = TS_IPV4_ADDR_RANGE \<or> type = TS_IPV6_ADDR_RANGE" and l: "length from \<le> 17" "length to \<le> 17" "to ! 0 \<le> 7"
    using assms by (auto simp: check_address_object_def split: if_splits)
  have "\<not> to ! 0 > 30"
    using l(3) by (simp add: not_less) (erule order_trans, simp)
  then show ?thesis
    using t l by (auto simp: traffic_selector_create_from_rfc3779_format_def traffic_selector_create_def icmp_port_def
        wf_ts_def is_icmp_def TS_IP_LEN_def memcpy_at_def Let_def)
qed

text \<open>The fields of a common subset, for selectors with port ranges.\<close>

definition subset_guard :: "traffic_selector \<Rightarrow> traffic_selector \<Rightarrow> bool" where
  "subset_guard a b \<longleftrightarrow> \<not> ts_dynamic a \<and> \<not> ts_dynamic b \<and> ts_type a = ts_type b \<and>
     (ts_protocol a = ts_protocol b \<or> ts_protocol a = 0 \<or> ts_protocol b = 0) \<and>
     max (ts_from_port a) (ts_from_port b) \<le> min (ts_to_port a) (ts_to_port b) \<and>
     memcmp (subset_from a b) (subset_to a b) (TS_IP_LEN a) \<le> 0"

lemma get_subset_ranges:
  assumes "\<not> is_opaque a" "\<not> is_opaque b"
  shows "get_subset a b =
    (if subset_guard a b
     then map_option (\<lambda>sub. snd (calc_netbits
         (sub\<lparr>ts_from := memcpy_at (ts_from sub) 0 (take (TS_IP_LEN a) (subset_from a b)),
              ts_to := memcpy_at (ts_to sub) 0 (take (TS_IP_LEN a) (subset_to a b))\<rparr>)))
       (traffic_selector_create (max (ts_protocol a) (ts_protocol b)) (ts_type a)
         (max (ts_from_port a) (ts_from_port b)) (min (ts_to_port a) (ts_to_port b)))
     else None)"
proof (cases "subset_guard a b")
  case True
  then show ?thesis
    using assms
    by (auto simp: get_subset_def Let_def subset_guard_def not_less [symmetric] split: option.split)
next
  case False
  then show ?thesis
    using assms
    by (auto simp: get_subset_def Let_def subset_guard_def not_less [symmetric] split: option.split)
qed

lemma subset_ends:
  assumes wf: "wf_ts a" "wf_ts b" and ty: "ts_type a = ts_type b"
  shows "TS_IP_LEN a \<le> length (subset_from a b)" "TS_IP_LEN a \<le> length (subset_to a b)"
    "be_nat (take (TS_IP_LEN a) (subset_from a b)) = max (lower a) (lower b)"
    "be_nat (take (TS_IP_LEN a) (subset_to a b)) = min (upper a) (upper b)"
proof -
  have n: "TS_IP_LEN a \<le> length (ts_from a)" "TS_IP_LEN a \<le> length (ts_from b)"
    "TS_IP_LEN a \<le> length (ts_to a)" "TS_IP_LEN a \<le> length (ts_to b)"
    using wf TS_IP_LEN_le [of a] by (simp_all add: wf_ts_def)
  have nb: "TS_IP_LEN b = TS_IP_LEN a"
    using ty by (simp add: TS_IP_LEN_def)
  show "TS_IP_LEN a \<le> length (subset_from a b)" "TS_IP_LEN a \<le> length (subset_to a b)"
    using n by (simp_all add: subset_from_def subset_to_def)
  show "be_nat (take (TS_IP_LEN a) (subset_from a b)) = max (lower a) (lower b)"
    "be_nat (take (TS_IP_LEN a) (subset_to a b)) = min (upper a) (upper b)"
    using memcmp_prefix(1) [OF n(1,2)] memcmp_prefix(1) [OF n(3,4)] nb
    by (auto simp: subset_from_def subset_to_def lower_def upper_def)
qed

definition ports_comparable :: "traffic_selector \<Rightarrow> traffic_selector \<Rightarrow> bool" where
  "ports_comparable a b \<longleftrightarrow>
     (ts_protocol a = 0 \<longrightarrow> is_icmp (ts_protocol b) \<longrightarrow> is_any a) \<and>
     (ts_protocol b = 0 \<longrightarrow> is_icmp (ts_protocol a) \<longrightarrow> is_any b)"

lemma subset_ports_icmp:
  assumes "wf_ts a" "wf_ts b" "ports_comparable a b"
    and "ts_protocol a = ts_protocol b \<or> ts_protocol a = 0 \<or> ts_protocol b = 0"
    and "is_icmp (max (ts_protocol a) (ts_protocol b))"
  shows "max (ts_from_port a) (ts_from_port b) = 0 \<or> 256 \<le> max (ts_from_port a) (ts_from_port b)"
    and "min (ts_to_port a) (ts_to_port b) = 0 \<or> 256 \<le> min (ts_to_port a) (ts_to_port b)"
proof -
  have "is_icmp (ts_protocol a) \<or> ts_protocol a = 0" "is_icmp (ts_protocol b) \<or> ts_protocol b = 0"
    "is_icmp (ts_protocol a) \<or> is_icmp (ts_protocol b)"
    using assms(4,5) by (auto simp: max_def is_icmp_def split: if_splits)
  then have "ts_from_port a = 0 \<or> 256 \<le> ts_from_port a" "ts_from_port b = 0 \<or> 256 \<le> ts_from_port b"
    "ts_to_port a = 0 \<or> 256 \<le> ts_to_port a" "ts_to_port b = 0 \<or> 256 \<le> ts_to_port b"
    using assms(1-3) by (auto simp: wf_ts_def ports_comparable_def is_any_def)
  then show "max (ts_from_port a) (ts_from_port b) = 0 \<or> 256 \<le> max (ts_from_port a) (ts_from_port b)"
    "min (ts_to_port a) (ts_to_port b) = 0 \<or> 256 \<le> min (ts_to_port a) (ts_to_port b)"
    by (auto simp: max_def min_def)
qed

lemma get_subset_Some:
  assumes wf: "wf_ts a" "wf_ts b" and op: "\<not> is_opaque a" "\<not> is_opaque b" and pc: "ports_comparable a b"
    and s: "get_subset a b = Some c"
  shows "subset_guard a b" "ts_type c = ts_type a" "TS_IP_LEN c = TS_IP_LEN a"
    "ts_protocol c = max (ts_protocol a) (ts_protocol b)"
    "ts_from_port c = max (ts_from_port a) (ts_from_port b)"
    "ts_to_port c = min (ts_to_port a) (ts_to_port b)"
    "lower c = max (lower a) (lower b)" "upper c = min (upper a) (upper b)" "wf_ts c" "\<not> ts_dynamic c"
proof -
  let ?n = "TS_IP_LEN a"
  let ?p = "max (ts_protocol a) (ts_protocol b)"
  let ?fp = "max (ts_from_port a) (ts_from_port b)" and ?tp = "min (ts_to_port a) (ts_to_port b)"
  show g: "subset_guard a b"
    using s get_subset_ranges [OF op] by (auto split: if_splits)
  then have ty: "ts_type a = ts_type b" and pr: "ts_protocol a = ts_protocol b \<or> ts_protocol a = 0 \<or> ts_protocol b = 0"
    by (simp_all add: subset_guard_def)
  note ends = subset_ends [OF wf ty]
  note icmp = subset_ports_icmp [OF wf pc pr]
  obtain sub where sub: "traffic_selector_create ?p (ts_type a) ?fp ?tp = Some sub"
    and c: "c = snd (calc_netbits (sub\<lparr>ts_from := memcpy_at (ts_from sub) 0 (take ?n (subset_from a b)),
      ts_to := memcpy_at (ts_to sub) 0 (take ?n (subset_to a b))\<rparr>))"
    using s g get_subset_ranges [OF op] by auto
  have subf: "ts_type sub = ts_type a" "ts_protocol sub = ?p" "ts_from_port sub = ?fp" "ts_to_port sub = ?tp"
    "length (ts_from sub) = 16" "length (ts_to sub) = 16" "\<not> ts_dynamic sub"
    using sub icmp_port_id [of ?p ?fp] icmp_port_id [of ?p ?tp] icmp
    by (auto simp: traffic_selector_create_def split: if_splits)
  show len: "TS_IP_LEN c = TS_IP_LEN a" and "ts_type c = ts_type a"
    "ts_protocol c = ?p" "ts_from_port c = ?fp" "ts_to_port c = ?tp" "\<not> ts_dynamic c"
    using c subf by (simp_all add: TS_IP_LEN_def)
  have ln: "length (take ?n (subset_from a b)) = ?n" "length (take ?n (subset_to a b)) = ?n"
    using ends(1,2) by auto
  have "?n \<le> 16"
    using TS_IP_LEN_le [of a] by simp
  then have "take ?n (ts_from c) = take ?n (subset_from a b)" "take ?n (ts_to c) = take ?n (subset_to a b)"
    using c subf take_memcpy_0 [of "take ?n (subset_from a b)" "ts_from sub"]
      take_memcpy_0 [of "take ?n (subset_to a b)" "ts_to sub"] unfolding ln by simp_all
  then show "lower c = max (lower a) (lower b)" "upper c = min (upper a) (upper b)"
    using ends(3,4) len by (simp_all add: lower_def upper_def)
  show "wf_ts c"
    using c subf icmp wf(1) ln \<open>?n \<le> 16\<close> by (auto simp: wf_ts_def)
qed

lemma protocol_meet:
  assumes "p = q \<or> p = (0::u8) \<or> q = 0"
  shows "(max p q = 0 \<or> r = max p q) = ((p = 0 \<or> r = p) \<and> (q = 0 \<or> r = q))"
proof -
  consider "p = q" | "p = 0" | "q = 0" using assms by blast
  then show ?thesis
    by cases (auto simp: max_def)
qed

lemma get_subset_matches:
  assumes "wf_ts a" "wf_ts b" "\<not> is_opaque a" "\<not> is_opaque b" "ports_comparable a b"
    and "get_subset a b = Some c"
  shows "ts_matches c type addr protocol port \<longleftrightarrow>
    ts_matches a type addr protocol port \<and> ts_matches b type addr protocol port"
proof -
  note c = get_subset_Some [OF assms]
  have ty: "ts_type b = ts_type a" "TS_IP_LEN b = TS_IP_LEN a"
    and pr: "ts_protocol a = ts_protocol b \<or> ts_protocol a = 0 \<or> ts_protocol b = 0"
    using c(1) by (simp_all add: subset_guard_def TS_IP_LEN_def)
  show ?thesis
    unfolding ts_matches_def ty c(2-8) max.bounded_iff min.bounded_iff protocol_meet [OF pr] by blast
qed

lemma common_traffic_guard:
  assumes "wf_ts a" "wf_ts b" "\<not> ts_dynamic a" "\<not> ts_dynamic b"
    and m: "ts_matches a type addr protocol port" "ts_matches b type addr protocol port"
  shows "subset_guard a b"
proof -
  have ty: "ts_type a = ts_type b"
    using m by (simp add: ts_matches_def)
  note ends = subset_ends [OF assms(1,2) ty]
  have "max (lower a) (lower b) \<le> be_nat addr" "be_nat addr \<le> min (upper a) (upper b)"
    using m by (simp_all add: ts_matches_def)
  then have "max (lower a) (lower b) \<le> min (upper a) (upper b)"
    by (rule order_trans)
  then have 1: "memcmp (subset_from a b) (subset_to a b) (TS_IP_LEN a) \<le> 0"
    using memcmp_prefix(3) [OF ends(1,2)] ends(3,4) by metis
  have "max (ts_from_port a) (ts_from_port b) \<le> port" "port \<le> min (ts_to_port a) (ts_to_port b)"
    using m by (simp_all add: ts_matches_def)
  then have 2: "max (ts_from_port a) (ts_from_port b) \<le> min (ts_to_port a) (ts_to_port b)"
    by (rule order_trans)
  have 3: "ts_protocol a = ts_protocol b \<or> ts_protocol a = 0 \<or> ts_protocol b = 0"
    using m unfolding ts_matches_def by metis
  show ?thesis
    unfolding subset_guard_def using 1 2 3 ty assms(3,4) by blast
qed

lemma get_subset_None:
  assumes "wf_ts a" "\<not> is_opaque a" "\<not> is_opaque b" "get_subset a b = None"
  shows "\<not> subset_guard a b"
proof -
  have "\<exists>sub. traffic_selector_create p (ts_type a) fp tp = Some sub" for p fp tp
    using assms(1) by (cases "ts_type a") (auto simp: traffic_selector_create_def wf_ts_def)
  then obtain sub where "traffic_selector_create (max (ts_protocol a) (ts_protocol b)) (ts_type a)
         (max (ts_from_port a) (ts_from_port b)) (min (ts_to_port a) (ts_to_port b)) = Some sub"
    by blast
  then show ?thesis
    using assms(4) get_subset_ranges [OF assms(2,3)] by (simp split: if_splits)
qed

lemma ts_equals_iff:
  assumes "wf_ts a" "wf_ts b"
  shows "ts_equals a b \<longleftrightarrow> ts_type a = ts_type b \<and> lower a = lower b \<and> upper a = upper b \<and>
    ts_protocol a = ts_protocol b \<and> ts_from_port a = ts_from_port b \<and> ts_to_port a = ts_to_port b"
proof (cases "ts_type a = ts_type b")
  case True
  have n: "TS_IP_LEN a \<le> length (ts_from a)" "TS_IP_LEN a \<le> length (ts_from b)"
    "TS_IP_LEN a \<le> length (ts_to a)" "TS_IP_LEN a \<le> length (ts_to b)" "TS_IP_LEN b = TS_IP_LEN a"
    using assms TS_IP_LEN_le [of a] True by (simp_all add: wf_ts_def TS_IP_LEN_def)
  have "memcmp (ts_from a) (ts_from b) (TS_IP_LEN a) = 0 \<longleftrightarrow> lower a = lower b"
    "memcmp (ts_to b) (ts_to a) (TS_IP_LEN a) = 0 \<longleftrightarrow> upper a = upper b"
    using memcmp_prefix(2) [OF n(1,2)] memcmp_prefix(2) [OF n(4,3)] n
    by (auto simp: lower_def upper_def be_nat_inject)
  then show ?thesis
    using True by (auto simp: ts_equals_def traffic_selector_cmp_def compare_int_def Let_def word_uint_eq_iff [symmetric])
next
  case False
  then have "ts_type_num (ts_type a) \<noteq> ts_type_num (ts_type b)"
    by (cases "ts_type a"; cases "ts_type b") auto
  then show ?thesis
    using False by (simp add: ts_equals_def traffic_selector_cmp_def compare_int_def Let_def)
qed

definition inhabited :: "traffic_selector \<Rightarrow> bool" where
  "inhabited ts \<longleftrightarrow> lower ts \<le> upper ts \<and> ts_from_port ts \<le> ts_to_port ts"

lemma other_protocol: "q \<noteq> (0::u8) \<Longrightarrow> \<exists>r. r \<noteq> q"
  by (rule exI [of _ 0]) simp

lemma ts_matches_corner:
  assumes "wf_ts a" "lower a \<le> v" "v \<le> upper a" "ts_from_port a \<le> port" "port \<le> ts_to_port a"
    and "ts_protocol a = 0 \<or> protocol = ts_protocol a"
  obtains addr where "be_nat addr = v" "ts_matches a (ts_type a) addr protocol port"
proof -
  have "length (take (TS_IP_LEN a) (ts_to a)) = TS_IP_LEN a"
    using assms(1) TS_IP_LEN_le [of a] by (simp add: wf_ts_def)
  then have "v < 256 ^ TS_IP_LEN a"
    using be_nat_bound [of "take (TS_IP_LEN a) (ts_to a)"] assms(3) by (simp add: upper_def)
  then have "be_nat (nat_be (TS_IP_LEN a) v) = v"
    by (simp add: be_nat_nat_be)
  then show thesis
    using that [of "nat_be (TS_IP_LEN a) v"] assms by (simp add: ts_matches_def)
qed

lemma inclusion_fields:
  assumes wf: "wf_ts a" and inh: "inhabited a"
    and sub: "\<And>type addr protocol port. ts_matches a type addr protocol port \<Longrightarrow> ts_matches b type addr protocol port"
  shows "ts_type b = ts_type a" "lower b \<le> lower a" "upper a \<le> upper b" "ts_from_port b \<le> ts_from_port a"
    "ts_to_port a \<le> ts_to_port b" "ts_protocol b = ts_protocol a \<or> ts_protocol b = 0"
proof -
  have inh': "lower a \<le> upper a" "ts_from_port a \<le> ts_to_port a"
    using inh by (simp_all add: inhabited_def)
  obtain x where x: "be_nat x = lower a" "ts_matches a (ts_type a) x (ts_protocol a) (ts_from_port a)"
    using ts_matches_corner [OF wf _ inh'(1) _ inh'(2), of "ts_protocol a"] by blast
  obtain y where y: "be_nat y = upper a" "ts_matches a (ts_type a) y (ts_protocol a) (ts_to_port a)"
    using ts_matches_corner [OF wf inh'(1) _ inh'(2), of "ts_protocol a"] by blast
  show "ts_type b = ts_type a" "lower b \<le> lower a" "ts_from_port b \<le> ts_from_port a"
    using sub [OF x(2)] x(1) by (simp_all add: ts_matches_def)
  show "upper a \<le> upper b" "ts_to_port a \<le> ts_to_port b"
    using sub [OF y(2)] y(1) by (simp_all add: ts_matches_def)
  show "ts_protocol b = ts_protocol a \<or> ts_protocol b = 0"
    using sub [OF x(2)] by (auto simp: ts_matches_def)
qed

text \<open>
  C25: For selectors with address and port ranges \<open>get_subset\<close> computes the intersection: a result
  matches exactly the traffic that both selectors match, and without a result no traffic matches both.
  The selectors are resolved, not opaque, and one for any protocol has no port range where the other
  is for ICMP.
\<close>

theorem get_subset_intersection:
  assumes "wf_ts a" "wf_ts b" "\<not> ts_dynamic a" "\<not> ts_dynamic b" "\<not> is_opaque a" "\<not> is_opaque b"
    and "ports_comparable a b"
  shows "(ts_matches a type addr protocol port \<and> ts_matches b type addr protocol port) =
         (case get_subset a b of None \<Rightarrow> False | Some c \<Rightarrow> ts_matches c type addr protocol port)"
proof (cases "get_subset a b")
  case (Some c)
  then show ?thesis
    using get_subset_matches [OF assms(1,2,5,6,7) Some] by simp
next
  case None
  then show ?thesis
    using get_subset_None [OF assms(1,5,6)] common_traffic_guard [OF assms(1-4)] by auto
qed

definition ts_10_8 :: traffic_selector where
  "ts_10_8 = \<lparr>ts_type = TS_IPV4_ADDR_RANGE, ts_protocol = 0, ts_dynamic = False, ts_netbits = 8,
     ts_from = [10, 0, 0, 0, 0, 0, 0, 0, 0, 0, 0, 0, 0, 0, 0, 0], ts_to = [10, 255, 255, 255, 0, 0, 0, 0, 0, 0, 0, 0, 0, 0, 0, 0],
     ts_from_port = 0, ts_to_port = 0xffff\<rparr>"

definition ts_10_1_tcp :: traffic_selector where
  "ts_10_1_tcp = \<lparr>ts_type = TS_IPV4_ADDR_RANGE, ts_protocol = 6, ts_dynamic = False, ts_netbits = 16,
     ts_from = [10, 1, 0, 0, 0, 0, 0, 0, 0, 0, 0, 0, 0, 0, 0, 0], ts_to = [10, 1, 255, 255, 0, 0, 0, 0, 0, 0, 0, 0, 0, 0, 0, 0],
     ts_from_port = 80, ts_to_port = 443\<rparr>"

lemma ts_examples:
  "wf_ts ts_10_8" "wf_ts ts_10_1_tcp" "\<not> ts_dynamic ts_10_8" "\<not> ts_dynamic ts_10_1_tcp"
  "\<not> is_opaque ts_10_8" "\<not> is_opaque ts_10_1_tcp" "ports_comparable ts_10_8 ts_10_1_tcp"
  "ports_comparable ts_10_1_tcp ts_10_8" "inhabited ts_10_1_tcp" "inhabited ts_10_8"
  by (simp_all add: ts_10_8_def ts_10_1_tcp_def wf_ts_def is_opaque_def ports_comparable_def is_icmp_def
      is_any_def inhabited_def lower_def upper_def TS_IP_LEN_def)

theorem get_subset_intersection_witness:
  "\<exists>c. get_subset ts_10_8 ts_10_1_tcp = Some c \<and> ts_matches c TS_IPV4_ADDR_RANGE [10, 1, 2, 3] 6 443 \<and>
     \<not> ts_matches c TS_IPV4_ADDR_RANGE [10, 1, 2, 3] 17 443"
proof -
  note ex = get_subset_intersection [OF ts_examples(1-7)]
  have 1: "ts_matches ts_10_8 TS_IPV4_ADDR_RANGE [10, 1, 2, 3] 6 443 \<and> ts_matches ts_10_1_tcp TS_IPV4_ADDR_RANGE [10, 1, 2, 3] 6 443"
    "\<not> ts_matches ts_10_1_tcp TS_IPV4_ADDR_RANGE [10, 1, 2, 3] 17 443"
    by (simp_all add: ts_10_8_def ts_10_1_tcp_def ts_matches_def lower_def upper_def TS_IP_LEN_def)
  then show ?thesis
    using ex [of TS_IPV4_ADDR_RANGE "[10, 1, 2, 3]" 6 443] ex [of TS_IPV4_ADDR_RANGE "[10, 1, 2, 3]" 17 443]
    by (cases "get_subset ts_10_8 ts_10_1_tcp") simp_all
qed

text \<open>
  C26: A selector that matches something is contained in another one, as \<open>is_contained_in\<close> decides it
  by comparing the common subset, exactly when everything it matches is matched by the other one.
\<close>

theorem is_contained_in_inclusion:
  assumes "wf_ts a" "wf_ts b" "\<not> ts_dynamic a" "\<not> ts_dynamic b" "\<not> is_opaque a" "\<not> is_opaque b"
    and "ports_comparable a b" "inhabited a"
  shows "is_contained_in a b \<longleftrightarrow>
    (\<forall>type addr protocol port. ts_matches a type addr protocol port \<longrightarrow> ts_matches b type addr protocol port)"
proof
  assume "is_contained_in a b"
  then obtain c where c: "get_subset a b = Some c" "ts_equals c a"
    by (auto simp: is_contained_in_def split: option.splits)
  note f = get_subset_Some [OF assms(1,2,5-7) c(1)]
  have "ts_matches c = ts_matches a"
    using c(2) f(3) by (simp add: ts_equals_iff [OF f(9) assms(1)] ts_matches_def fun_eq_iff)
  then show "\<forall>type addr protocol port. ts_matches a type addr protocol port \<longrightarrow> ts_matches b type addr protocol port"
    using get_subset_matches [OF assms(1,2,5-7) c(1)] by metis
next
  assume sub: "\<forall>type addr protocol port. ts_matches a type addr protocol port \<longrightarrow> ts_matches b type addr protocol port"
  note i = inclusion_fields [OF assms(1,8) sub [rule_format]]
  obtain addr where m: "ts_matches a (ts_type a) addr (ts_protocol a) (ts_from_port a)"
    using ts_matches_corner [OF assms(1) order_refl, of "ts_from_port a" "ts_protocol a"] assms(8)
    by (auto simp: inhabited_def)
  then have "subset_guard a b"
    using common_traffic_guard [OF assms(1-4) m] sub by blast
  then obtain c where c: "get_subset a b = Some c"
    using get_subset_None [OF assms(1,5,6)] by (cases "get_subset a b") auto
  note f = get_subset_Some [OF assms(1,2,5-7) c]
  have "max (ts_protocol a) (ts_protocol b) = ts_protocol a"
    using i(6) by (auto simp: max_def)
  then have "ts_equals c a"
    using i(2-5) by (simp add: ts_equals_iff [OF f(9) assms(1)] f max_absorb1 min_absorb1)
  then show "is_contained_in a b"
    using c by (simp add: is_contained_in_def)
qed

theorem is_contained_in_inclusion_witness:
  "\<not> is_contained_in ts_10_8 ts_10_1_tcp \<and> ts_matches ts_10_8 TS_IPV4_ADDR_RANGE [10, 2, 0, 0] 6 80"
proof -
  have "ts_matches ts_10_8 TS_IPV4_ADDR_RANGE [10, 2, 0, 0] 6 80"
    "\<not> ts_matches ts_10_1_tcp TS_IPV4_ADDR_RANGE [10, 2, 0, 0] 6 80"
    by (simp_all add: ts_10_8_def ts_10_1_tcp_def ts_matches_def lower_def upper_def TS_IP_LEN_def)
  then show ?thesis
    using is_contained_in_inclusion [OF ts_examples(1-7,10)] by blast
qed

end
