(* ===== verification/Ipsec_Policy.thy ===== *)
theory Ipsec_Policy
  imports Traffic_Selector Ip_Packet Ipsec_Sa
begin

text \<open>
  \<open>libipsec/ipsec_policy.c\<close>: a policy with its selectors, and whether it matches another policy's
  parameters or a packet. Policies are shared: they live in a heap and count their references with
  \<open>ref_get\<close> and \<open>ref_put\<close>, of which an access to a freed policy is the result \<open>None\<close>.
\<close>

section \<open>Types\<close>

datatype policy_dir_t = POLICY_IN | POLICY_OUT | POLICY_FWD
datatype policy_type_t = POLICY_IPSEC | POLICY_PASS | POLICY_DROP
datatype policy_priority_t =
  POLICY_PRIORITY_PASS | POLICY_PRIORITY_DEFAULT | POLICY_PRIORITY_ROUTED | POLICY_PRIORITY_FALLBACK

record mark_t =
  mark_value :: u32
  mark_mask :: u32

record ipsec_sa_cfg =
  cfg_mode :: ipsec_mode_t
  cfg_reqid :: u32
  cfg_policy_count :: u32
  cfg_esp :: "bool \<times> u32"
  cfg_ah :: "bool \<times> u32"
  cfg_ipcomp :: "u16 \<times> u16"

record ipsec_policy =
  pol_src :: host
  pol_dst :: host
  pol_src_ts :: traffic_selector
  pol_dst_ts :: traffic_selector
  pol_protocol :: u8
  pol_direction :: policy_dir_t
  pol_type :: policy_type_t
  pol_sa :: ipsec_sa_cfg
  pol_mark :: mark_t
  pol_priority :: policy_priority_t
  pol_refcount :: u32

section \<open>Operations\<close>

definition policy_match ::
  "traffic_selector \<Rightarrow> traffic_selector \<Rightarrow> policy_dir_t \<Rightarrow> u32 \<Rightarrow> mark_t \<Rightarrow> policy_priority_t \<Rightarrow> ipsec_policy \<Rightarrow> bool" where
  "policy_match src_ts dst_ts direction reqid mark priority this \<longleftrightarrow>
     pol_direction this = direction \<and> pol_priority this = priority \<and> cfg_reqid (pol_sa this) = reqid \<and>
     pol_mark this = mark \<and> ts_equals (pol_src_ts this) src_ts \<and> ts_equals (pol_dst_ts this) dst_ts"

definition match_port :: "traffic_selector \<Rightarrow> host \<Rightarrow> bool" where
  "match_port ts host =
     (let from = ts_from_port ts; to = ts_to_port ts
      in if from = 0 \<and> to = 0xffff \<or> from = 0xffff \<and> to = 0 then True
         else from \<le> get_port host \<and> get_port host \<le> to)"

definition match_packet :: "ip_packet \<Rightarrow> ipsec_policy \<Rightarrow> bool" where
  "match_packet packet this \<longleftrightarrow>
     (pol_protocol this = 0 \<or> pol_protocol this = ip_next_header packet) \<and>
     ts_includes (pol_src_ts this) (ip_src packet) \<and> match_port (pol_src_ts this) (ip_src packet) \<and>
     ts_includes (pol_dst_ts this) (ip_dst packet) \<and> match_port (pol_dst_ts this) (ip_dst packet)"

text \<open>Cloning a selector of an unknown type dereferences \<open>NULL\<close>.\<close>

definition ipsec_policy_create ::
  "host \<Rightarrow> host \<Rightarrow> traffic_selector \<Rightarrow> traffic_selector \<Rightarrow> policy_dir_t \<Rightarrow> policy_type_t \<Rightarrow> ipsec_sa_cfg \<Rightarrow> mark_t
    \<Rightarrow> policy_priority_t \<Rightarrow> ipsec_policy option" where
  "ipsec_policy_create src dst src_ts dst_ts direction type sa mark priority = do {
     src_clone \<leftarrow> ts_clone src_ts;
     dst_clone \<leftarrow> ts_clone dst_ts;
     Some \<lparr>pol_src = src, pol_dst = dst, pol_src_ts = src_clone, pol_dst_ts = dst_clone,
       pol_protocol = max (ts_protocol src_ts) (ts_protocol dst_ts), pol_direction = direction, pol_type = type,
       pol_sa = sa, pol_mark = mark, pol_priority = priority, pol_refcount = 1\<rparr>}"

section \<open>References\<close>

type_synonym policy_heap = "addr \<rightharpoonup> ipsec_policy"

definition policy_get_ref :: "addr \<Rightarrow> policy_heap \<Rightarrow> policy_heap option" where
  "policy_get_ref p heap = do {this \<leftarrow> heap p; Some (heap(p \<mapsto> this\<lparr>pol_refcount := pol_refcount this + 1\<rparr>))}"

definition policy_destroy :: "addr \<Rightarrow> policy_heap \<Rightarrow> policy_heap option" where
  "policy_destroy p heap = do {
     this \<leftarrow> heap p;
     let this = this\<lparr>pol_refcount := pol_refcount this - 1\<rparr>;
     Some (if pol_refcount this = 0 then heap(p := None) else heap(p \<mapsto> this))}"

section \<open>Properties\<close>

lemma ts_includes_iff:
  assumes "wf_ts ts" "length (get_address host) = TS_IP_LEN ts"
  shows "ts_includes ts host \<longleftrightarrow>
    host_matches_type ts host \<and> lower ts \<le> be_nat (get_address host) \<and> be_nat (get_address host) \<le> upper ts"
proof -
  have "TS_IP_LEN ts \<le> length (ts_from ts)" "TS_IP_LEN ts \<le> length (ts_to ts)"
    using assms(1) TS_IP_LEN_le [of ts] by (simp_all add: wf_ts_def)
  then show ?thesis
    using assms(2) memcmp_prefix(3) [of "TS_IP_LEN ts" "ts_from ts" "get_address host"]
      memcmp_prefix(4) [of "TS_IP_LEN ts" "ts_to ts" "get_address host"]
    by (auto simp: ts_includes_def lower_def upper_def)
qed

text \<open>The type of the selectors that may contain an address.\<close>

definition type_of :: "host \<Rightarrow> ts_type_t" where
  "type_of host = (case get_family host of AF_INET \<Rightarrow> TS_IPV4_ADDR_RANGE | AF_INET6 \<Rightarrow> TS_IPV6_ADDR_RANGE
     | _ \<Rightarrow> TS_TYPE_OTHER)"

lemma ts_includes_matches:
  assumes "wf_ts ts" "wf_host host"
  shows "ts_includes ts host \<longleftrightarrow>
    type_of host = ts_type ts \<and> lower ts \<le> be_nat (get_address host) \<and> be_nat (get_address host) \<le> upper ts"
proof (cases "host_matches_type ts host")
  case True
  then have "length (get_address host) = TS_IP_LEN ts" "type_of host = ts_type ts"
    using assms(2) by (auto simp: host_matches_type_def wf_host_def TS_IP_LEN_def type_of_def get_family_def length_get_address)
  then show ?thesis
    using ts_includes_iff [OF assms(1)] True by simp
next
  case False
  then have "type_of host \<noteq> ts_type ts"
    using assms by (auto simp: host_matches_type_def wf_host_def type_of_def wf_ts_def get_family_def)
  then show ?thesis
    using False by (simp add: ts_includes_def)
qed

text \<open>A policy matches the packets its two selectors match; opaque port ranges stand for any port.\<close>

lemma match_port_iff:
  "match_port ts host \<longleftrightarrow> is_opaque ts \<or> ts_from_port ts \<le> get_port host \<and> get_port host \<le> ts_to_port ts"
proof -
  have "p \<le> 0xffff" for p :: u16
  proof -
    have "unat p < 65536" "unat (0xffff :: u16) = 65535"
      using unsigned_less [of p, where ?'a = nat] by simp_all
    then show ?thesis
      unfolding word_le_nat_alt by linarith
  qed
  then show ?thesis
    by (auto simp: match_port_def is_opaque_def Let_def)
qed

lemma match_packet_iff:
  assumes "wf_ts (pol_src_ts pol)" "wf_ts (pol_dst_ts pol)" "wf_host (ip_src packet)" "wf_host (ip_dst packet)"
    and "\<not> is_opaque (pol_src_ts pol)" "\<not> is_opaque (pol_dst_ts pol)"
    and pr: "pol_protocol pol = max (ts_protocol (pol_src_ts pol)) (ts_protocol (pol_dst_ts pol))"
      "ts_protocol (pol_src_ts pol) = ts_protocol (pol_dst_ts pol) \<or> ts_protocol (pol_src_ts pol) = 0 \<or> ts_protocol (pol_dst_ts pol) = 0"
  shows "match_packet packet pol \<longleftrightarrow>
    ts_matches (pol_src_ts pol) (type_of (ip_src packet)) (get_address (ip_src packet)) (ip_next_header packet) (get_port (ip_src packet)) \<and>
    ts_matches (pol_dst_ts pol) (type_of (ip_dst packet)) (get_address (ip_dst packet)) (ip_next_header packet) (get_port (ip_dst packet))"
proof -
  have len: "type_of h = ts_type ts \<Longrightarrow> length (get_address h) = TS_IP_LEN ts" if "wf_host h" for h ts
    using that by (auto simp: length_get_address wf_host_def type_of_def TS_IP_LEN_def get_family_def)
  have "(pol_protocol pol = 0 \<or> pol_protocol pol = ip_next_header packet) \<longleftrightarrow>
      (ts_protocol (pol_src_ts pol) = 0 \<or> ip_next_header packet = ts_protocol (pol_src_ts pol)) \<and>
      (ts_protocol (pol_dst_ts pol) = 0 \<or> ip_next_header packet = ts_protocol (pol_dst_ts pol))"
    using protocol_meet [OF pr(2), of "ip_next_header packet"] pr(1) by metis
  then show ?thesis
    using assms(5,6) len [OF assms(3), of "pol_src_ts pol"] len [OF assms(4), of "pol_dst_ts pol"]
    unfolding match_packet_def ts_matches_def match_port_iff
      ts_includes_matches [OF assms(1,3)] ts_includes_matches [OF assms(2,4)]
    by blast
qed

end
