(* ===== verification/Ipsec_Policy_Mgr.thy ===== *)
theory Ipsec_Policy_Mgr
  imports Ipsec_Policy Linked_List
begin

text \<open>
  \<open>libipsec/ipsec_policy_mgr.c\<close>: the installed policies, in a linked list sorted by a
  pseudo-priority. The list is the one of \<open>collections/linked_list.c\<close>, with its elements in a store;
  the entries point to policies in a heap. The operations run under the write or read lock of the
  manager and are one step each.
\<close>

section \<open>Prefix lengths of selectors\<close>

definition wf_netbits :: "traffic_selector \<Rightarrow> bool" where
  "wf_netbits ts \<longleftrightarrow> ts_netbits ts = NON_SUBNET_ADDRESS_RANGE \<or> unat (ts_netbits ts) \<le> 8 * TS_IP_LEN ts"

lemma calc_netbits_loop_bound:
  assumes "\<forall>i \<in> set is. i \<le> n" "n < 256" "unat netbits \<le> n" "field = NON_SUBNET_ADDRESS_RANGE \<or> unat field \<le> n"
  shows "unat (fst (calc_netbits_loop from to is prefix netbits field)) \<le> n \<and>
    (snd (calc_netbits_loop from to is prefix netbits field) = NON_SUBNET_ADDRESS_RANGE \<or>
     unat (snd (calc_netbits_loop from to is prefix netbits field)) \<le> n)"
  using assms
proof (induction "from" to "is" prefix netbits field rule: calc_netbits_loop.induct)
  case (2 "from" to i "is" prefix netbits field)
  have "unat (of_nat i :: u8) = i"
    using 2(4,5) by (simp add: unat_of_nat)
  then show ?case
    using 2 by (simp add: Let_def)
qed simp

lemma calc_netbits_bound:
  assumes "calc_netbits ts = (netbits, ts')"
  shows "unat netbits \<le> 8 * TS_IP_LEN ts" "wf_netbits ts'"
proof -
  define n where "n = TS_IP_LEN ts * 8"
  have n: "n < 256"
    using TS_IP_LEN_le [of ts] by (simp add: n_def)
  then have u: "unat (of_nat n :: u8) \<le> n"
    by (simp add: unat_of_nat)
  obtain m f where l: "calc_netbits_loop (ts_from ts) (ts_to ts) [0 ..< n] True (of_nat n) (of_nat n) = (m, f)"
    by fastforce
  have "unat m \<le> n \<and> (f = NON_SUBNET_ADDRESS_RANGE \<or> unat f \<le> n)"
    using calc_netbits_loop_bound [of "[0 ..< n]" n "of_nat n" "of_nat n" "ts_from ts" "ts_to ts" True] n u l by simp
  moreover have "netbits = m" "ts' = ts\<lparr>ts_netbits := f\<rparr>"
    using assms l by (simp_all add: calc_netbits_def Let_def n_def del: of_nat_mult)
  ultimately show "unat netbits \<le> 8 * TS_IP_LEN ts" "wf_netbits ts'"
    by (auto simp: wf_netbits_def TS_IP_LEN_def n_def)
qed

text \<open>The field is the prefix length, or says that there is none; computing it again changes nothing.\<close>

lemma calc_netbits_loop_field:
  "field = netbits \<Longrightarrow> calc_netbits_loop from to is prefix netbits field = (m, f) \<Longrightarrow> f = NON_SUBNET_ADDRESS_RANGE \<or> f = m"
  by (induction "from" to "is" prefix netbits field rule: calc_netbits_loop.induct) (auto simp: Let_def split: if_splits)

lemma calc_netbits_again: "calc_netbits (ts\<lparr>ts_netbits := x\<rparr>) = calc_netbits ts"
  by (simp add: calc_netbits_def Let_def TS_IP_LEN_def)

lemma to_subnet_again:
  assumes "to_subnet ts = (r, ts')"
  shows "to_subnet ts' = (r, ts')"
proof (cases "ts_netbits ts = NON_SUBNET_ADDRESS_RANGE")
  case False
  then have "ts' = ts"
    using assms by (auto simp: to_subnet_def Let_def split: ts_type_t.splits)
  then show ?thesis
    using assms by simp
next
  case True
  obtain m f where c: "calc_netbits ts = (m, ts\<lparr>ts_netbits := f\<rparr>)" "f = NON_SUBNET_ADDRESS_RANGE \<or> f = m"
    using calc_netbits_loop_field by (fastforce simp: calc_netbits_def Let_def split: prod.splits)
  then have "ts' = ts\<lparr>ts_netbits := f\<rparr>"
    using assms True by (auto simp: to_subnet_def Let_def split: ts_type_t.splits)
  then show ?thesis
    using assms True c by (cases "ts_type ts") (auto simp: to_subnet_def Let_def calc_netbits_again)
qed

lemma length_subnet_bytes:
  "unat netmask \<le> 8 * len \<Longrightarrow> len \<le> length from \<Longrightarrow> length (subnet_bytes len from netmask) = len"
  by (auto simp: subnet_bytes_def Let_def)

text \<open>The prefix length \<open>to_subnet\<close> reports.\<close>

definition prefix_len :: "traffic_selector \<Rightarrow> nat" where
  "prefix_len ts = unat (snd (snd (fst (to_subnet ts))))"

definition single_port :: "traffic_selector \<Rightarrow> u16" where
  "single_port ts = (if ts_to_port ts = ts_from_port ts then ts_to_port ts else 0)"

lemma to_subnet_spec:
  assumes "wf_ts ts" "wf_netbits ts"
  obtains ok net netmask nb where "to_subnet ts = ((ok, Some net, netmask), ts\<lparr>ts_netbits := nb\<rparr>)"
    "unat netmask = prefix_len ts" "prefix_len ts \<le> 8 * TS_IP_LEN ts" "get_port net = single_port ts"
    "wf_netbits (ts\<lparr>ts_netbits := nb\<rparr>)"
proof -
  define r where "r = (if ts_netbits ts = NON_SUBNET_ADDRESS_RANGE then calc_netbits ts else (ts_netbits ts, ts))"
  obtain netmask ts' where r: "r = (netmask, ts')" by fastforce
  have b: "unat netmask \<le> 8 * TS_IP_LEN ts" "wf_netbits ts'"
    using r assms(2) calc_netbits_bound [of ts netmask ts'] by (auto simp: r_def wf_netbits_def split: if_splits)
  obtain nb where ts': "ts' = ts\<lparr>ts_netbits := nb\<rparr>"
    using r that [of "ts_netbits ts"]
    by (auto simp: r_def calc_netbits_def Let_def split: if_splits prod.splits)
  let ?bytes = "subnet_bytes (TS_IP_LEN ts) (ts_from ts) netmask"
  let ?fam = "if ts_type ts = TS_IPV4_ADDR_RANGE then AF_INET else AF_INET6"
  have len: "length ?bytes = TS_IP_LEN ts"
    using b(1) length_subnet_bytes [of netmask "TS_IP_LEN ts" "ts_from ts"] assms(1) TS_IP_LEN_le [of ts]
    by (simp add: wf_ts_def)
  then obtain net where net: "host_create_from_chunk ?fam ?bytes (single_port ts) = Some net" "get_port net = single_port ts"
    by (auto simp: host_create_from_chunk_def get_port_def TS_IP_LEN_def split: if_splits)
  have "to_subnet ts = ((ts_netbits ts' \<noteq> NON_SUBNET_ADDRESS_RANGE, Some net, netmask), ts')"
    using r net(1) ts' assms(1) unfolding to_subnet_def r_def [symmetric]
    by (cases "ts_type ts") (auto simp: Let_def single_port_def TS_IP_LEN_def wf_ts_def)
  moreover from this have "prefix_len ts = unat netmask"
    by (simp add: prefix_len_def)
  ultimately show thesis
    using that [of "ts_netbits ts' \<noteq> NON_SUBNET_ADDRESS_RANGE" net netmask nb] b net(2) ts' by simp
qed

section \<open>Priorities\<close>

abbreviation (input) PRIO_BASE :: u32 where "PRIO_BASE \<equiv> 384"

text \<open>The cases of the \<open>switch\<close> fall through.\<close>

fun priority_base :: "policy_priority_t \<Rightarrow> u32" where
  "priority_base POLICY_PRIORITY_FALLBACK = push_bit 1 (push_bit 1 (push_bit 1 PRIO_BASE))"
| "priority_base POLICY_PRIORITY_ROUTED = push_bit 1 (push_bit 1 PRIO_BASE)"
| "priority_base POLICY_PRIORITY_DEFAULT = push_bit 1 PRIO_BASE"
| "priority_base POLICY_PRIORITY_PASS = PRIO_BASE"

text \<open>\<open>to_subnet\<close> may recompute the prefix length cached in a selector, so they are returned too.\<close>

definition calculate_priority ::
  "policy_priority_t \<Rightarrow> traffic_selector \<Rightarrow> traffic_selector \<Rightarrow> (u32 \<times> traffic_selector \<times> traffic_selector) option" where
  "calculate_priority policy_priority src dst =
     (case to_subnet src of ((_, net, netmask), src) \<Rightarrow> do {
        net \<leftarrow> net;
        let priority = priority_base policy_priority - ucast netmask;
        let proto = ts_protocol src;
        let port = get_port net;
        (case to_subnet dst of ((_, net, netmask), dst) \<Rightarrow> do {
           net \<leftarrow> net;
           let priority = priority - ucast netmask;
           let proto = max proto (ts_protocol dst);
           let port = max port (get_port net);
           let priority = push_bit 2 priority;
           let priority = priority + (if port \<noteq> 0 then 0 else 2);
           let priority = priority + (if proto \<noteq> 0 then 0 else 1);
           Some (priority, src, dst)})})"

fun priority_class :: "policy_priority_t \<Rightarrow> nat" where
  "priority_class POLICY_PRIORITY_PASS = 0"
| "priority_class POLICY_PRIORITY_DEFAULT = 1"
| "priority_class POLICY_PRIORITY_ROUTED = 2"
| "priority_class POLICY_PRIORITY_FALLBACK = 3"

definition generality :: "traffic_selector \<Rightarrow> traffic_selector \<Rightarrow> nat" where
  "generality src dst =
     (if single_port src = 0 \<and> single_port dst = 0 then 2 else 0) +
     (if ts_protocol src = 0 \<and> ts_protocol dst = 0 then 1 else 0)"

lemma priority_base_class: "unat (priority_base pp) = 384 * 2 ^ priority_class pp"
  by (cases pp) simp_all

lemma unat_priority:
  fixes base m m' g g' :: u32
  assumes "384 \<le> unat base" "unat base \<le> 3072" "unat m \<le> 128" "unat m' \<le> 128" "unat g \<le> 2" "unat g' \<le> 1"
  shows "unat (push_bit 2 (base - m - m') + g + g') = 4 * (unat base - unat m - unat m') + unat g + unat g'"
proof -
  have 1: "unat (base - m) = unat base - unat m"
    using assms(1,3) by (intro unat_sub) (simp add: word_le_nat_alt)
  have 2: "unat (base - m - m') = unat base - unat m - unat m'"
    using assms(1,3,4) 1 by (subst unat_sub) (simp_all add: word_le_nat_alt)
  have shift: "unat (push_bit 2 x) = 4 * unat x" if "unat x \<le> 3072" for x :: u32
    using that by (simp add: push_bit_eq_mult unat_word_ariths(2))
  have 3: "unat (push_bit 2 (base - m - m')) = 4 * (unat base - unat m - unat m')"
    using assms(2) 2 shift [of "base - m - m'"] by linarith
  show ?thesis
    unfolding unat_word_ariths(1) 3 using assms by simp
qed

lemma calculate_priority_value:
  assumes "wf_ts src" "wf_ts dst" "wf_netbits src" "wf_netbits dst"
  obtains prio nb nb' where "calculate_priority pp src dst = Some (prio, src\<lparr>ts_netbits := nb\<rparr>, dst\<lparr>ts_netbits := nb'\<rparr>)"
    "unat prio = 4 * (384 * 2 ^ priority_class pp - prefix_len src - prefix_len dst) + generality src dst"
    "prefix_len src + prefix_len dst \<le> 256" "wf_netbits (src\<lparr>ts_netbits := nb\<rparr>)" "wf_netbits (dst\<lparr>ts_netbits := nb'\<rparr>)"
proof -
  obtain ok net m nb where s: "to_subnet src = ((ok, Some net, m), src\<lparr>ts_netbits := nb\<rparr>)"
    "unat m = prefix_len src" "prefix_len src \<le> 8 * TS_IP_LEN src" "get_port net = single_port src"
    "wf_netbits (src\<lparr>ts_netbits := nb\<rparr>)"
    using to_subnet_spec [OF assms(1,3)] .
  obtain ok' net' m' nb' where d: "to_subnet dst = ((ok', Some net', m'), dst\<lparr>ts_netbits := nb'\<rparr>)"
    "unat m' = prefix_len dst" "prefix_len dst \<le> 8 * TS_IP_LEN dst" "get_port net' = single_port dst"
    "wf_netbits (dst\<lparr>ts_netbits := nb'\<rparr>)"
    using to_subnet_spec [OF assms(2,4)] .
  define g g' :: u32 where "g = (if max (single_port src) (single_port dst) \<noteq> 0 then 0 else 2)"
    and "g' = (if max (ts_protocol src) (ts_protocol dst) \<noteq> 0 then 0 else 1)"
  have g: "unat g \<le> 2" "unat g' \<le> 1" "unat g + unat g' = generality src dst"
    by (auto simp: g_def g'_def generality_def max_def)
  define prio where "prio = push_bit 2 (priority_base pp - ucast m - ucast m') + g + g'"
  have le: "prefix_len src \<le> 128" "prefix_len dst \<le> 128"
    using s(3) d(3) TS_IP_LEN_le [of src] TS_IP_LEN_le [of dst] by simp_all
  have u: "unat (ucast m :: u32) = prefix_len src" "unat (ucast m' :: u32) = prefix_len dst"
    using s(2) d(2) le by (simp_all add: unsigned_ucast_eq unsigned_take_bit_eq take_bit_eq_mod)
  have B: "384 \<le> unat (priority_base pp)" "unat (priority_base pp) \<le> 3072"
    by (cases pp; simp)+
  have "unat prio = 4 * (384 * 2 ^ priority_class pp - prefix_len src - prefix_len dst) + generality src dst"
    using unat_priority [OF B, of "ucast m" "ucast m'" g g'] u le g
    unfolding prio_def priority_base_class by simp
  moreover have "calculate_priority pp src dst = Some (prio, src\<lparr>ts_netbits := nb\<rparr>, dst\<lparr>ts_netbits := nb'\<rparr>)"
    using s(1,4) d(1,4) by (simp add: calculate_priority_def Let_def prio_def g_def g'_def)
  ultimately show thesis
    using that s(5) d(5) le by simp
qed

lemma calculate_priority_again:
  assumes "calculate_priority pp src dst = Some (prio, src', dst')"
  shows "calculate_priority pp src' dst' = Some (prio, src', dst')"
proof -
  obtain ok net m where s: "to_subnet src = ((ok, Some net, m), src')"
    using assms by (auto simp: calculate_priority_def split: prod.splits bind_splits)
  obtain ok' net' m' where d: "to_subnet dst = ((ok', Some net', m'), dst')"
    using assms s by (auto simp: calculate_priority_def Let_def split: prod.splits bind_splits)
  show ?thesis
    using assms s d to_subnet_again [OF s] to_subnet_again [OF d] by (simp add: calculate_priority_def Let_def)
qed

lemma generality_le: "generality src dst \<le> 3"
  by (simp add: generality_def)

text \<open>
  C27: Policies are sorted by class first, then by how specific their selectors are: of two policies
  the one with the lower class has the lower priority value, in the same class the one with the longer
  prefixes in total, and for equal prefixes the one that is limited to a port or, failing that, to a
  protocol. No subtraction wraps around.
\<close>

theorem calculate_priority_order:
  assumes "wf_ts s" "wf_ts d" "wf_netbits s" "wf_netbits d" "wf_ts s'" "wf_ts d'" "wf_netbits s'" "wf_netbits d'"
  shows "\<exists>x y r r'. calculate_priority pp s d = Some (x, r) \<and> calculate_priority pp' s' d' = Some (y, r') \<and>
    (x < y \<longleftrightarrow> priority_class pp < priority_class pp' \<or>
      priority_class pp = priority_class pp' \<and>
        (prefix_len s' + prefix_len d' < prefix_len s + prefix_len d \<or>
         prefix_len s' + prefix_len d' = prefix_len s + prefix_len d \<and> generality s d < generality s' d'))"
proof -
  obtain x r where x: "calculate_priority pp s d = Some (x, r)"
    "unat x = 4 * (384 * 2 ^ priority_class pp - (prefix_len s + prefix_len d)) + generality s d"
    "prefix_len s + prefix_len d \<le> 256"
    using calculate_priority_value [OF assms(1-4), of pp] by (metis diff_diff_left)
  obtain y r' where y: "calculate_priority pp' s' d' = Some (y, r')"
    "unat y = 4 * (384 * 2 ^ priority_class pp' - (prefix_len s' + prefix_len d')) + generality s' d'"
    "prefix_len s' + prefix_len d' \<le> 256"
    using calculate_priority_value [OF assms(5-8), of pp'] by (metis diff_diff_left)
  have "x < y \<longleftrightarrow> priority_class pp < priority_class pp' \<or>
      priority_class pp = priority_class pp' \<and>
        (prefix_len s' + prefix_len d' < prefix_len s + prefix_len d \<or>
         prefix_len s' + prefix_len d' = prefix_len s + prefix_len d \<and> generality s d < generality s' d')"
    unfolding word_less_nat_alt x(2) y(2)
    using x(3) y(3) generality_le [of s d] generality_le [of s' d'] by (cases pp; cases pp'; simp; arith)
  then show ?thesis
    using x(1) y(1) by blast
qed

lemma wf_netbits_examples: "wf_netbits ts_10_8" "wf_netbits ts_10_1_tcp"
  by (simp_all add: wf_netbits_def TS_IP_LEN_def ts_10_8_def ts_10_1_tcp_def)

lemma prefix_len_examples: "prefix_len ts_10_8 = 8" "prefix_len ts_10_1_tcp = 16"
  by (simp_all add: prefix_len_def to_subnet_def ts_10_8_def ts_10_1_tcp_def Let_def)

theorem calculate_priority_order_witness:
  "\<exists>x y r r'. calculate_priority POLICY_PRIORITY_DEFAULT ts_10_1_tcp ts_10_8 = Some (x, r) \<and>
     calculate_priority POLICY_PRIORITY_DEFAULT ts_10_8 ts_10_8 = Some (y, r') \<and> x < y"
  using calculate_priority_order [OF ts_examples(2,1) wf_netbits_examples(2,1) ts_examples(1,1) wf_netbits_examples(1,1),
      of POLICY_PRIORITY_DEFAULT POLICY_PRIORITY_DEFAULT] by (simp add: prefix_len_examples)

section \<open>The manager\<close>

record policy_entry =
  pe_priority :: u32
  pe_policy :: addr

record policy_mgr =
  pm_policies :: "policy_entry store \<times> linked_list"
  pm_heap :: policy_heap

definition ipsec_policy_mgr_create :: "policy_entry store \<Rightarrow> policy_heap \<Rightarrow> policy_mgr" where
  "ipsec_policy_mgr_create h heap = \<lparr>pm_policies = (h, linked_list_create), pm_heap = heap\<rparr>"

text \<open>
  The three loops over the policies: enumerate until the condition holds, which may access freed
  memory. The result is the value found and the enumerator; \<open>fuel\<close> bounds the number of rounds.
\<close>

fun enumerate_until ::
  "nat \<Rightarrow> ('v \<Rightarrow> bool option) \<Rightarrow> 'v store \<times> linked_list \<Rightarrow> list_enumerator \<Rightarrow> ('v option \<times> list_enumerator) option" where
  "enumerate_until 0 cond st en = None"
| "enumerate_until (Suc fuel) cond st en = do {
     (current, en) \<leftarrow> enumerate_list st en;
     case current of
       None \<Rightarrow> Some (None, en)
     | Some v \<Rightarrow> do {b \<leftarrow> cond v; if b then Some (Some v, en) else enumerate_until fuel cond st en}}"

definition policy_entry_create :: "addr \<Rightarrow> ipsec_policy \<Rightarrow> (policy_entry \<times> ipsec_policy) option" where
  "policy_entry_create p policy = do {
     (priority, src_ts, dst_ts) \<leftarrow> calculate_priority (pol_priority policy) (pol_src_ts policy) (pol_dst_ts policy);
     Some (\<lparr>pe_priority = priority, pe_policy = p\<rparr>, policy\<lparr>pol_src_ts := src_ts, pol_dst_ts := dst_ts\<rparr>)}"

definition policy_entry_destroy :: "policy_entry \<Rightarrow> policy_heap \<Rightarrow> policy_heap option" where
  "policy_entry_destroy this heap = policy_destroy (pe_policy this) heap"

definition add_policy ::
  "nat \<Rightarrow> (policy_entry store \<Rightarrow> addr) \<Rightarrow> (policy_heap \<Rightarrow> addr) \<Rightarrow> host \<Rightarrow> host \<Rightarrow> traffic_selector \<Rightarrow> traffic_selector
    \<Rightarrow> policy_dir_t \<Rightarrow> policy_type_t \<Rightarrow> ipsec_sa_cfg \<Rightarrow> mark_t \<Rightarrow> policy_priority_t \<Rightarrow> policy_mgr
    \<Rightarrow> (status_t \<times> policy_mgr) option" where
  "add_policy fuel malloc pmalloc src dst src_ts dst_ts direction type sa mark priority this =
     (if type \<noteq> POLICY_IPSEC \<or> direction = POLICY_FWD then Some (SUCCESS, this)
      else do {
        policy \<leftarrow> ipsec_policy_create src dst src_ts dst_ts direction type sa mark priority;
        let p = pmalloc (pm_heap this);
        (entry, policy) \<leftarrow> policy_entry_create p policy;
        (_, enumerator) \<leftarrow> enumerate_until fuel (\<lambda>current. Some (pe_priority current \<ge> pe_priority entry))
          (pm_policies this) create_enumerator;
        policies \<leftarrow> insert_before (malloc (fst (pm_policies this))) enumerator entry (pm_policies this);
        Some (SUCCESS, this\<lparr>pm_policies := policies, pm_heap := (pm_heap this)(p \<mapsto> policy)\<rparr>)})"

definition del_policy ::
  "nat \<Rightarrow> traffic_selector \<Rightarrow> traffic_selector \<Rightarrow> policy_dir_t \<Rightarrow> policy_type_t \<Rightarrow> ipsec_sa_cfg \<Rightarrow> mark_t
    \<Rightarrow> policy_priority_t \<Rightarrow> policy_mgr \<Rightarrow> (status_t \<times> policy_mgr) option" where
  "del_policy fuel src_ts dst_ts direction type sa mark policy_priority this =
     (if type \<noteq> POLICY_IPSEC \<or> direction = POLICY_FWD then Some (SUCCESS, this)
      else do {
        (priority, _) \<leftarrow> calculate_priority policy_priority src_ts dst_ts;
        (found, enumerator) \<leftarrow> enumerate_until fuel
          (\<lambda>current. if pe_priority current = priority
             then map_option (policy_match src_ts dst_ts direction (cfg_reqid sa) mark policy_priority)
                    (pm_heap this (pe_policy current))
             else Some False)
          (pm_policies this) create_enumerator;
        case found of
          None \<Rightarrow> Some (FAILED, this)
        | Some entry \<Rightarrow> do {
            (_, policies) \<leftarrow> remove_at enumerator (pm_policies this);
            heap \<leftarrow> policy_entry_destroy entry (pm_heap this);
            Some (SUCCESS, this\<lparr>pm_policies := policies, pm_heap := heap\<rparr>)}})"

fun flush_policies :: "nat \<Rightarrow> policy_mgr \<Rightarrow> (status_t \<times> policy_mgr) option" where
  "flush_policies 0 this = None"
| "flush_policies (Suc fuel) this = do {
     (entry, policies) \<leftarrow> remove_last (pm_policies this);
     case entry of
       None \<Rightarrow> Some (SUCCESS, this\<lparr>pm_policies := policies\<rparr>)
     | Some entry \<Rightarrow> do {
         heap \<leftarrow> policy_entry_destroy entry (pm_heap this);
         flush_policies fuel (this\<lparr>pm_policies := policies, pm_heap := heap\<rparr>)}}"

definition policy_applies :: "ip_packet \<Rightarrow> bool \<Rightarrow> u32 \<Rightarrow> ipsec_policy \<Rightarrow> bool" where
  "policy_applies packet inb reqid policy \<longleftrightarrow>
     inb = (pol_direction policy = POLICY_IN) \<and> match_packet packet policy \<and>
     (reqid = 0 \<or> reqid = cfg_reqid (pol_sa policy))"

definition find_by_packet :: "nat \<Rightarrow> ip_packet \<Rightarrow> bool \<Rightarrow> u32 \<Rightarrow> policy_mgr \<Rightarrow> (addr option \<times> policy_mgr) option" where
  "find_by_packet fuel packet inb reqid this = do {
     (found, _) \<leftarrow> enumerate_until fuel
       (\<lambda>current. map_option (policy_applies packet inb reqid) (pm_heap this (pe_policy current)))
       (pm_policies this) create_enumerator;
     case found of
       None \<Rightarrow> Some (None, this)
     | Some entry \<Rightarrow> do {
         heap \<leftarrow> policy_get_ref (pe_policy entry) (pm_heap this);
         Some (Some (pe_policy entry), this\<lparr>pm_heap := heap\<rparr>)}}"

definition policy_mgr_destroy :: "nat \<Rightarrow> policy_mgr \<Rightarrow> (policy_entry store \<times> policy_heap) option" where
  "policy_mgr_destroy fuel this = do {
     (_, this) \<leftarrow> flush_policies fuel this;
     h \<leftarrow> destroy_list fuel (pm_policies this);
     Some (h, pm_heap this)}"

section \<open>Reference counts\<close>

text \<open>
  A policy is allocated as long as it is installed or some thread holds a reference, and counts
  both. \<open>held\<close> lists the references held outside the manager.
\<close>

definition refs :: "addr set \<Rightarrow> addr list \<Rightarrow> addr \<Rightarrow> nat" where
  "refs S held p = (if p \<in> S then 1 else 0) + count_list held p"

definition heap_ok :: "policy_heap \<Rightarrow> addr set \<Rightarrow> addr list \<Rightarrow> bool" where
  "heap_ok heap S held \<longleftrightarrow> (\<forall>p. case heap p of
       None \<Rightarrow> refs S held p = 0
     | Some pol \<Rightarrow> 0 < refs S held p \<and> unat (pol_refcount pol) = refs S held p)"

lemma refs_0 [simp]: "refs S held p = 0 \<longleftrightarrow> p \<notin> S \<and> p \<notin> set held"
  using count_list_0_iff [of held p] by (auto simp: refs_def)

lemma heap_ok_alloc:
  "heap_ok heap S held \<Longrightarrow> p \<in> S \<or> p \<in> set held \<Longrightarrow> \<exists>pol. heap p = Some pol"
  unfolding heap_ok_def by (drule spec [of _ p]) (cases "heap p"; auto)

lemma heap_okD:
  "heap_ok heap S held \<Longrightarrow> heap p = Some pol \<Longrightarrow> 0 < refs S held p \<and> unat (pol_refcount pol) = refs S held p"
  unfolding heap_ok_def by (drule spec [of _ p]) simp

lemma heap_ok_other:
  assumes "heap_ok heap S held" "\<And>q. q \<noteq> p \<Longrightarrow> heap' q = heap q \<and> refs S' held' q = refs S held q"
    and "case heap' p of None \<Rightarrow> refs S' held' p = 0
      | Some pol \<Rightarrow> 0 < refs S' held' p \<and> unat (pol_refcount pol) = refs S' held' p"
  shows "heap_ok heap' S' held'"
  unfolding heap_ok_def
proof
  fix q
  show "case heap' q of None \<Rightarrow> refs S' held' q = 0
      | Some pol \<Rightarrow> 0 < refs S' held' q \<and> unat (pol_refcount pol) = refs S' held' q"
  proof (cases "q = p")
    case True
    show ?thesis using assms(3) unfolding True .
  next
    case False
    show ?thesis
      using spec [OF assms(1) [unfolded heap_ok_def], of q] unfolding conjunct1 [OF assms(2) [OF False]]
        conjunct2 [OF assms(2) [OF False]] .
  qed
qed

text \<open>Policies keep everything but the count when references come and go.\<close>

definition recounted :: "ipsec_policy \<Rightarrow> ipsec_policy \<Rightarrow> bool" where
  "recounted pol pol' \<longleftrightarrow> (\<exists>r. pol' = pol\<lparr>pol_refcount := r\<rparr>)"

lemma recounted_refl [simp]: "recounted pol pol"
  unfolding recounted_def by (rule exI [of _ "pol_refcount pol"]) simp

lemma recounted_applies [simp]: "recounted pol pol' \<Longrightarrow> policy_applies packet inb reqid pol' = policy_applies packet inb reqid pol"
  by (auto simp: recounted_def policy_applies_def match_packet_def)

lemma policy_get_ref_ok:
  assumes "heap_ok heap S held" "p \<in> S" "length held < 4294967294"
  obtains pol where "heap p = Some pol"
    "policy_get_ref p heap = Some (heap(p \<mapsto> pol\<lparr>pol_refcount := pol_refcount pol + 1\<rparr>))"
    "heap_ok (heap(p \<mapsto> pol\<lparr>pol_refcount := pol_refcount pol + 1\<rparr>)) S (p # held)"
proof -
  obtain pol where pol: "heap p = Some pol"
    using heap_ok_alloc [OF assms(1)] assms(2) by blast
  have r: "unat (pol_refcount pol) = 1 + count_list held p"
    using heap_okD [OF assms(1) pol] assms(2) by (simp add: refs_def)
  then have "unat (pol_refcount pol + 1) = 2 + count_list held p"
    using assms(3) count_le_length [of held p] by (simp add: unat_word_ariths(1))
  then have "heap_ok (heap(p \<mapsto> pol\<lparr>pol_refcount := pol_refcount pol + 1\<rparr>)) S (p # held)"
    by (intro heap_ok_other [OF assms(1), of p]) (use assms(2) in \<open>simp_all add: refs_def\<close>)
  then show thesis
    using that [OF pol] pol by (simp add: policy_get_ref_def)
qed

lemma count_list_remove1:
  "count_list (remove1 x xs) y = (if x = y then count_list xs y - 1 else count_list xs y)"
proof (induction xs)
  case (Cons a xs)
  then show ?case
    using count_list_0_iff [of xs x] by auto
qed simp

lemma policy_destroy_ok:
  assumes "heap_ok heap S held" "p \<in> S \<or> p \<in> set held"
    and others: "\<And>q. q \<noteq> p \<Longrightarrow> refs S' held' q = refs S held q" and one: "refs S held p = Suc (refs S' held' p)"
  obtains pol heap' where "heap p = Some pol" "policy_destroy p heap = Some heap'" "heap_ok heap' S' held'"
    "\<forall>q. q \<noteq> p \<longrightarrow> heap' q = heap q" "0 < refs S' held' p \<longrightarrow> (\<exists>pol'. heap' p = Some pol' \<and> recounted pol pol')"
proof -
  obtain pol where pol: "heap p = Some pol"
    using heap_ok_alloc [OF assms(1,2)] by blast
  define rc where "rc = pol_refcount pol - 1"
  have rc1: "unat (pol_refcount pol) = Suc (refs S' held' p)"
    using heap_okD [OF assms(1) pol] one by simp
  then have "1 \<le> pol_refcount pol"
    by (simp add: word_le_nat_alt)
  then have n: "unat rc = refs S' held' p"
    using rc1 unat_sub [of 1 "pol_refcount pol"] by (simp add: rc_def)
  then have z: "rc = 0 \<longleftrightarrow> refs S' held' p = 0"
    using unat_eq_zero [of rc] by argo
  define heap' where "heap' = (if rc = 0 then heap(p := None) else heap(p \<mapsto> pol\<lparr>pol_refcount := rc\<rparr>))"
  have ok: "heap_ok heap' S' held'"
    by (rule heap_ok_other [OF assms(1), of p]) (use n z others in \<open>simp_all add: heap'_def del: refs_0\<close>)
  have eq: "policy_destroy p heap = Some heap'"
    using pol by (simp add: policy_destroy_def heap'_def Let_def rc_def)
  have rest: "\<forall>q. q \<noteq> p \<longrightarrow> heap' q = heap q"
    by (simp add: heap'_def)
  have same: "0 < refs S' held' p \<longrightarrow> (\<exists>pol'. heap' p = Some pol' \<and> recounted pol pol')"
    using z by (auto simp: heap'_def recounted_def simp del: refs_0)
  show thesis
    by (rule that [OF pol eq ok rest same])
qed

lemma dom_heap_changed:
  assumes "heap p = Some pol" "\<forall>q. q \<noteq> p \<longrightarrow> heap' q = heap q"
  shows "dom heap' \<subseteq> dom heap"
proof
  fix x assume "x \<in> dom heap'"
  then show "x \<in> dom heap"
    using assms by (cases "x = p") auto
qed

lemma heap_ok_new:
  assumes "heap_ok heap S held" "heap p = None" "pol_refcount pol = 1"
  shows "heap_ok (heap(p \<mapsto> pol)) (insert p S) held"
proof -
  have "refs S held p = 0"
    using assms(1,2) unfolding heap_ok_def by (drule_tac spec [of _ p]) simp
  then have "p \<notin> S" "count_list held p = 0"
    using count_list_0_iff [of held p] by simp_all
  then show ?thesis
    by (intro heap_ok_other [OF assms(1), of p]) (use assms(3) in \<open>simp_all add: refs_def\<close>)
qed

section \<open>The list of policies\<close>

lemma enumerate_until_represents:
  assumes "represents (h, l) (xs @ ys)" "en_current en = end_of None xs" "\<not> en_finished en" "length ys < fuel"
    and "\<forall>x \<in> set ys. cond (snd x) = Some (P (snd x))"
  shows "enumerate_until fuel cond (h, l) en =
    (case dropWhile (\<lambda>x. \<not> P (snd x)) ys of
       [] \<Rightarrow> Some (None, en\<lparr>en_current := None, en_finished := True\<rparr>)
     | (c, v) # zs \<Rightarrow> Some (Some v, en\<lparr>en_current := Some c\<rparr>))"
  using assms
proof (induction ys arbitrary: xs en fuel)
  case Nil
  then show ?case
    using enumerate_represents [OF Nil(1-3)] by (cases fuel) auto
next
  case (Cons y ys)
  obtain a v where y: "y = (a, v)" by (cases y)
  obtain n where fuel: "fuel = Suc n" "length ys < n"
    using Cons.prems(4) by (cases fuel) auto
  have e: "enumerate_list (h, l) en = Some (Some v, en\<lparr>en_current := Some a\<rparr>)"
    using enumerate_represents [OF Cons.prems(1-3)] y by simp
  have c: "cond v = Some (P v)"
    using Cons.prems(5) y by simp
  have "enumerate_until n cond (h, l) (en\<lparr>en_current := Some a\<rparr>) =
    (case dropWhile (\<lambda>x. \<not> P (snd x)) ys of
       [] \<Rightarrow> Some (None, en\<lparr>en_current := None, en_finished := True\<rparr>)
     | (c, v) # zs \<Rightarrow> Some (Some v, en\<lparr>en_current := Some c\<rparr>))"
    using Cons.IH [of "xs @ [(a, v)]" "en\<lparr>en_current := Some a\<rparr>" n, OF _ _ _ fuel(2)]
      Cons.prems(1,3,5) y by (simp split: list.split del: dropWhile_eq_Nil_conv)
  then show ?case
    using e c y fuel(1) by simp
qed

definition lists :: "policy_mgr \<Rightarrow> policy_entry list \<Rightarrow> bool" where
  "lists this es \<longleftrightarrow> (\<exists>xs. represents (pm_policies this) xs \<and> map snd xs = es) \<and> finite (dom (fst (pm_policies this)))"

definition entry_ok :: "policy_heap \<Rightarrow> policy_entry \<Rightarrow> bool" where
  "entry_ok heap e \<longleftrightarrow> (\<forall>pol. heap (pe_policy e) = Some pol \<longrightarrow>
     calculate_priority (pol_priority pol) (pol_src_ts pol) (pol_dst_ts pol) =
       Some (pe_priority e, pol_src_ts pol, pol_dst_ts pol))"

definition pm_ok :: "policy_mgr \<Rightarrow> policy_entry list \<Rightarrow> addr list \<Rightarrow> bool" where
  "pm_ok this es held \<longleftrightarrow> lists this es \<and> finite (dom (pm_heap this)) \<and> distinct (map pe_policy es) \<and>
     sorted (map pe_priority es) \<and> (\<forall>e \<in> set es. entry_ok (pm_heap this) e) \<and>
     heap_ok (pm_heap this) (pe_policy ` set es) held"

lemma lists_count: "lists this es \<Longrightarrow> ll_count (snd (pm_policies this)) = int (length es)"
  by (auto simp: lists_def represents_def)

lemma finite_dom_same_off:
  "finite (dom h) \<Longrightarrow> same_off S h h' \<Longrightarrow> finite S \<Longrightarrow> finite (dom h')"
  by (rule finite_subset [of _ "dom h \<union> S"]) (auto simp: same_off_def)

text \<open>Splitting the represented sequence where a search stops.\<close>

lemma lists_search:
  assumes "lists this es" "length es < fuel" "\<forall>e \<in> set es. cond e = Some (P e)"
  obtains (none) en where "\<forall>e \<in> set es. \<not> P e" "enumerate_until fuel cond (pm_policies this) create_enumerator = Some (None, en)"
      "en_current en = None" "en_finished en"
  | (found) xs c e ys en where "represents (pm_policies this) (xs @ (c, e) # ys)" "es = map snd xs @ e # map snd ys"
      "P e" "\<forall>x \<in> set (map snd xs). \<not> P x" "en_current en = Some c"
      "enumerate_until fuel cond (pm_policies this) create_enumerator = Some (Some e, en)"
proof -
  obtain xs where xs: "represents (pm_policies this) xs" "map snd xs = es"
    using assms(1) by (auto simp: lists_def)
  obtain h l where hl: "pm_policies this = (h, l)" by fastforce
  have cond: "\<forall>x \<in> set xs. cond (snd x) = Some (P (snd x))"
    using assms(3) xs(2) by force
  have len: "length xs < fuel"
    using assms(2) xs(2) by auto
  have r: "enumerate_until fuel cond (pm_policies this) create_enumerator =
    (case dropWhile (\<lambda>x. \<not> P (snd x)) xs of
       [] \<Rightarrow> Some (None, create_enumerator\<lparr>en_current := None, en_finished := True\<rparr>)
     | (c, v) # zs \<Rightarrow> Some (Some v, create_enumerator\<lparr>en_current := Some c\<rparr>))"
    using enumerate_until_represents [of h l "[]" xs create_enumerator fuel cond P] xs(1) len cond
    by (simp add: hl create_enumerator_def)
  show thesis
  proof (cases "dropWhile (\<lambda>x. \<not> P (snd x)) xs")
    case Nil
    then have "\<forall>e \<in> set es. \<not> P e"
      using xs(2) by auto
    then show thesis
      using none [of "create_enumerator\<lparr>en_current := None, en_finished := True\<rparr>"] r Nil by simp
  next
    case (Cons y ys)
    obtain c e where y: "y = (c, e)" by (cases y)
    define us where "us = takeWhile (\<lambda>x. \<not> P (snd x)) xs"
    have split: "xs = us @ (c, e) # ys"
      using takeWhile_dropWhile_id [of "\<lambda>x. \<not> P (snd x)" xs] Cons y by (simp add: us_def)
    have "P e"
      using hd_dropWhile [of "\<lambda>x. \<not> P (snd x)" xs] Cons y by simp
    moreover have "\<forall>x \<in> set (map snd us). \<not> P x"
      unfolding us_def by (auto dest: set_takeWhileD)
    moreover have "enumerate_until fuel cond (pm_policies this) create_enumerator =
        Some (Some e, create_enumerator\<lparr>en_current := Some c\<rparr>)"
      using r unfolding Cons y by simp
    ultimately show thesis
      using found [of us c e ys "create_enumerator\<lparr>en_current := Some c\<rparr>"] xs split by simp
  qed
qed

section \<open>What the operations do\<close>

lemma pm_okI:
  assumes "lists this es" "finite (dom (pm_heap this))" "distinct (map pe_policy es)" "sorted (map pe_priority es)"
    "\<And>e. e \<in> set es \<Longrightarrow> entry_ok (pm_heap this) e" "heap_ok (pm_heap this) (pe_policy ` set es) held"
  shows "pm_ok this es held"
  using assms by (simp add: pm_ok_def)

lemma entry_ok_recounted:
  assumes "entry_ok heap e" "\<And>pol'. heap' (pe_policy e) = Some pol' \<Longrightarrow> \<exists>pol. heap (pe_policy e) = Some pol \<and> recounted pol pol'"
  shows "entry_ok heap' e"
  unfolding entry_ok_def
proof (intro allI impI)
  fix pol'
  assume "heap' (pe_policy e) = Some pol'"
  then obtain pol r where "heap (pe_policy e) = Some pol" "pol' = pol\<lparr>pol_refcount := r\<rparr>"
    using assms(2) by (auto simp: recounted_def)
  then show "calculate_priority (pol_priority pol') (pol_src_ts pol') (pol_dst_ts pol') =
      Some (pe_priority e, pol_src_ts pol', pol_dst_ts pol')"
    using assms(1) by (simp add: entry_ok_def)
qed

definition applies :: "policy_mgr \<Rightarrow> ip_packet \<Rightarrow> bool \<Rightarrow> u32 \<Rightarrow> policy_entry \<Rightarrow> bool" where
  "applies this packet inb reqid e \<longleftrightarrow> policy_applies packet inb reqid (the (pm_heap this (pe_policy e)))"

lemma pm_ok_heap:
  assumes "pm_ok this es held" "e \<in> set es"
  obtains pol where "pm_heap this (pe_policy e) = Some pol"
  using assms heap_ok_alloc [of "pm_heap this" "pe_policy ` set es" held "pe_policy e"] by (auto simp: pm_ok_def)

lemma find_by_packet_ok:
  assumes ok: "pm_ok this es held" and fuel: "length es < fuel" and room: "length held < 4294967294"
  obtains (none) "find_by_packet fuel packet inb reqid this = Some (None, this)"
      "\<forall>e \<in> set es. \<not> applies this packet inb reqid e"
  | (found) us e vs this' where "find_by_packet fuel packet inb reqid this = Some (Some (pe_policy e), this')"
      "es = us @ e # vs" "applies this packet inb reqid e" "\<forall>x \<in> set us. \<not> applies this packet inb reqid x"
      "pm_ok this' es (pe_policy e # held)"
      "\<exists>pol pol'. pm_heap this (pe_policy e) = Some pol \<and> pm_heap this' (pe_policy e) = Some pol' \<and> recounted pol pol'"
proof -
  let ?cond = "\<lambda>current. map_option (policy_applies packet inb reqid) (pm_heap this (pe_policy current))"
  have cond: "\<forall>e \<in> set es. ?cond e = Some (applies this packet inb reqid e)"
  proof
    fix e assume "e \<in> set es"
    then obtain pol where "pm_heap this (pe_policy e) = Some pol"
      by (rule pm_ok_heap [OF ok])
    then show "?cond e = Some (applies this packet inb reqid e)"
      by (simp add: applies_def)
  qed
  have lists: "lists this es"
    using ok by (simp add: pm_ok_def)
  show thesis
  proof (cases rule: lists_search [OF lists fuel cond, case_names none found])
    case (none en)
    then show thesis
      using that(1) by (simp add: find_by_packet_def)
  next
    case (found xs c e ys en)
    have e: "pe_policy e \<in> pe_policy ` set es" and hk: "heap_ok (pm_heap this) (pe_policy ` set es) held"
      using found(2) ok by (simp_all add: pm_ok_def)
    obtain pol where pol: "pm_heap this (pe_policy e) = Some pol"
      "policy_get_ref (pe_policy e) (pm_heap this) = Some ((pm_heap this)(pe_policy e \<mapsto> pol\<lparr>pol_refcount := pol_refcount pol + 1\<rparr>))"
      "heap_ok ((pm_heap this)(pe_policy e \<mapsto> pol\<lparr>pol_refcount := pol_refcount pol + 1\<rparr>)) (pe_policy ` set es) (pe_policy e # held)"
      using policy_get_ref_ok [OF hk e room] .
    let ?m = "this\<lparr>pm_heap := (pm_heap this)(pe_policy e \<mapsto> pol\<lparr>pol_refcount := pol_refcount pol + 1\<rparr>)\<rparr>"
    have "pm_ok ?m es (pe_policy e # held)"
    proof (rule pm_okI)
      fix x assume "x \<in> set es"
      then have "entry_ok (pm_heap this) x"
        using ok by (simp add: pm_ok_def)
      then show "entry_ok (pm_heap ?m) x"
      proof (rule entry_ok_recounted)
        fix pol'
        assume "pm_heap ?m (pe_policy x) = Some pol'"
        then show "\<exists>pol. pm_heap this (pe_policy x) = Some pol \<and> recounted pol pol'"
          using pol(1) by (cases "pe_policy x = pe_policy e") (auto simp: recounted_def [of pol])
      qed
    qed (use ok pol(3) in \<open>simp_all add: pm_ok_def lists_def\<close>)
    moreover have "recounted pol (pol\<lparr>pol_refcount := pol_refcount pol + 1\<rparr>)"
      by (auto simp: recounted_def)
    ultimately show thesis
      using that(2) [of e ?m "map snd xs" "map snd ys"] found pol(1,2) by (simp add: find_by_packet_def)
  qed
qed

lemma release_ok:
  assumes ok: "pm_ok this es held" and p: "p \<in> set held"
  obtains heap where "policy_destroy p (pm_heap this) = Some heap" "pm_ok (this\<lparr>pm_heap := heap\<rparr>) es (remove1 p held)"
proof -
  have hk: "heap_ok (pm_heap this) (pe_policy ` set es) held"
    using ok by (simp add: pm_ok_def)
  have "count_list held p \<noteq> 0"
    using p by (simp add: count_list_0_iff)
  then have one: "refs (pe_policy ` set es) held p = Suc (refs (pe_policy ` set es) (remove1 p held) p)"
    by (simp add: refs_def count_list_remove1)
  have others: "refs (pe_policy ` set es) (remove1 p held) q = refs (pe_policy ` set es) held q" if "q \<noteq> p" for q
    using that by (simp add: refs_def count_list_remove1)
  obtain pol heap where d: "pm_heap this p = Some pol" "policy_destroy p (pm_heap this) = Some heap"
    "heap_ok heap (pe_policy ` set es) (remove1 p held)" "\<forall>q. q \<noteq> p \<longrightarrow> heap q = pm_heap this q"
    "0 < refs (pe_policy ` set es) (remove1 p held) p \<longrightarrow> (\<exists>pol'. heap p = Some pol' \<and> recounted pol pol')"
    using policy_destroy_ok [OF hk disjI2 [OF p] others one] .
  have "pm_ok (this\<lparr>pm_heap := heap\<rparr>) es (remove1 p held)"
  proof (rule pm_okI)
    fix e assume e: "e \<in> set es"
    show "entry_ok (pm_heap (this\<lparr>pm_heap := heap\<rparr>)) e"
    proof (cases "pe_policy e = p")
      case True
      have pos: "0 < refs (pe_policy ` set es) (remove1 p held) p"
        using e True by (auto simp: refs_def)
      have "entry_ok (pm_heap this) e"
        using ok e by (simp add: pm_ok_def)
      then show ?thesis
        by (rule entry_ok_recounted) (use d(1,5) pos True in auto)
    next
      case False
      then show ?thesis
        using d(4) ok e by (auto simp: pm_ok_def entry_ok_def)
    qed
  next
    have "dom heap \<subseteq> dom (pm_heap this)"
      using d(1,4) by (rule dom_heap_changed)
    then show "finite (dom (pm_heap (this\<lparr>pm_heap := heap\<rparr>)))"
      using ok finite_subset by (auto simp: pm_ok_def)
  qed (use ok d(3) in \<open>simp_all add: pm_ok_def lists_def\<close>)
  then show thesis
    using that d(2) by blast
qed

lemma policy_entry_destroy_ok:
  assumes ok: "pm_ok this (us @ e # vs) held" and lists: "lists (this\<lparr>pm_policies := policies\<rparr>) (us @ vs)"
  obtains heap where "policy_entry_destroy e (pm_heap this) = Some heap"
    "pm_ok (this\<lparr>pm_policies := policies, pm_heap := heap\<rparr>) (us @ vs) held"
proof -
  let ?S = "pe_policy ` set (us @ e # vs)" and ?S' = "pe_policy ` set (us @ vs)"
  have hk: "heap_ok (pm_heap this) ?S held" and notin: "pe_policy e \<notin> ?S'"
    using ok by (auto simp: pm_ok_def)
  have e: "pe_policy e \<in> ?S"
    by simp
  have one: "refs ?S held (pe_policy e) = Suc (refs ?S' held (pe_policy e))"
    using notin e unfolding refs_def by simp
  have others: "refs ?S' held q = refs ?S held q" if "q \<noteq> pe_policy e" for q
    using that by (simp add: refs_def)
  obtain pol heap where d: "pm_heap this (pe_policy e) = Some pol" "policy_destroy (pe_policy e) (pm_heap this) = Some heap"
    "heap_ok heap ?S' held" "\<forall>q. q \<noteq> pe_policy e \<longrightarrow> heap q = pm_heap this q"
    "0 < refs ?S' held (pe_policy e) \<longrightarrow> (\<exists>pol'. heap (pe_policy e) = Some pol' \<and> recounted pol pol')"
    using policy_destroy_ok [OF hk disjI1 [OF e] others one] .
  let ?m = "this\<lparr>pm_policies := policies, pm_heap := heap\<rparr>"
  have "pm_ok ?m (us @ vs) held"
  proof (rule pm_okI)
    fix x assume x: "x \<in> set (us @ vs)"
    have "pe_policy x \<noteq> pe_policy e"
      using notin imageI [OF x, of pe_policy] by metis
    moreover have "entry_ok (pm_heap this) x"
      using ok x by (auto simp: pm_ok_def)
    ultimately show "entry_ok (pm_heap ?m) x"
      using d(4) by (simp add: entry_ok_def)
  next
    have "dom heap \<subseteq> dom (pm_heap this)"
      using d(1,4) by (rule dom_heap_changed)
    then show "finite (dom (pm_heap ?m))"
      using ok finite_subset by (auto simp: pm_ok_def)
  next
    show "lists ?m (us @ vs)"
      using lists by (simp add: lists_def)
    show "distinct (map pe_policy (us @ vs))"
      using ok by (auto simp: pm_ok_def)
    show "sorted (map pe_priority (us @ vs))"
      using ok by (auto simp: pm_ok_def sorted_append)
  qed (use d(3) in simp)
  then show thesis
    using that d(2) by (simp add: policy_entry_destroy_def)
qed

definition deletes :: "policy_mgr \<Rightarrow> traffic_selector \<Rightarrow> traffic_selector \<Rightarrow> policy_dir_t \<Rightarrow> u32 \<Rightarrow> mark_t
    \<Rightarrow> policy_priority_t \<Rightarrow> u32 \<Rightarrow> policy_entry \<Rightarrow> bool" where
  "deletes this src_ts dst_ts direction reqid mark pp priority e \<longleftrightarrow> pe_priority e = priority \<and>
     policy_match src_ts dst_ts direction reqid mark pp (the (pm_heap this (pe_policy e)))"

lemma del_policy_ok:
  assumes ok: "pm_ok this es held" and fuel: "length es < fuel"
    and what: "type = POLICY_IPSEC" "direction \<noteq> POLICY_FWD" "calculate_priority pp src_ts dst_ts = Some (priority, r)"
  obtains (none) "del_policy fuel src_ts dst_ts direction type sa mark pp this = Some (FAILED, this)"
      "\<forall>e \<in> set es. \<not> deletes this src_ts dst_ts direction (cfg_reqid sa) mark pp priority e"
  | (found) us e vs this' where "del_policy fuel src_ts dst_ts direction type sa mark pp this = Some (SUCCESS, this')"
      "es = us @ e # vs" "deletes this src_ts dst_ts direction (cfg_reqid sa) mark pp priority e"
      "pm_ok this' (us @ vs) held"
proof -
  let ?P = "deletes this src_ts dst_ts direction (cfg_reqid sa) mark pp priority"
  let ?cond = "\<lambda>current. if pe_priority current = priority
             then map_option (policy_match src_ts dst_ts direction (cfg_reqid sa) mark pp)
                    (pm_heap this (pe_policy current))
             else Some False"
  have cond: "\<forall>e \<in> set es. ?cond e = Some (?P e)"
  proof
    fix e assume "e \<in> set es"
    then obtain pol where "pm_heap this (pe_policy e) = Some pol"
      by (rule pm_ok_heap [OF ok])
    then show "?cond e = Some (?P e)"
      by (simp add: deletes_def)
  qed
  have lists: "lists this es"
    using ok by (simp add: pm_ok_def)
  obtain q where r: "calculate_priority pp src_ts dst_ts = Some (priority, q)"
    using what(3) by blast
  show thesis
  proof (cases rule: lists_search [OF lists fuel cond, case_names none found])
    case (none en)
    then show thesis
      using that(1) what(1,2) r by (simp add: del_policy_def)
  next
    case (found xs c e ys en)
    obtain h l where hl: "pm_policies this = (h, l)" by fastforce
    obtain h' l' where rem: "remove_at en (h, l) = Some (en\<lparr>en_current := end_of None xs\<rparr>, h', l')"
      "represents (h', l') (xs @ ys)" "same_off (fst ` set (xs @ (c, e) # ys)) h h'"
      using remove_at_represents [of h l xs c e ys en] found(1,5) hl by auto
    have "finite (dom h')"
      by (rule finite_dom_same_off [OF _ rem(3)]) (use lists hl in \<open>simp_all add: lists_def\<close>)
    then have "lists (this\<lparr>pm_policies := (h', l')\<rparr>) (map snd xs @ map snd ys)"
      using rem(2) by (auto simp: lists_def)
    then obtain heap where d: "policy_entry_destroy e (pm_heap this) = Some heap"
      "pm_ok (this\<lparr>pm_policies := (h', l'), pm_heap := heap\<rparr>) (map snd xs @ map snd ys) held"
      by (rule policy_entry_destroy_ok [OF ok [unfolded found(2)]])
    show thesis
      using that(2) [OF _ found(2,3) d(2)] what(1,2) r found(6) rem(1) d(1) hl by (simp add: del_policy_def)
  qed
qed

lemma flush_policies_ok:
  assumes "pm_ok this es held" "length es < fuel"
  obtains this' where "flush_policies fuel this = Some (SUCCESS, this')" "pm_ok this' [] held"
  using assms
proof (induction es arbitrary: this fuel thesis rule: rev_induct)
  case Nil
  obtain h l where hl: "pm_policies this = (h, l)" by fastforce
  have "represents (h, l) []"
    using Nil.prems(2) hl by (auto simp: pm_ok_def lists_def)
  then have "remove_last (pm_policies this) = Some (None, pm_policies this)"
    by (simp add: remove_empty hl)
  then show ?case
    using Nil.prems by (cases fuel) auto
next
  case (snoc e es)
  obtain n where fuel: "fuel = Suc n" "length es < n"
    using snoc.prems(3) by (cases fuel) auto
  obtain h l where hl: "pm_policies this = (h, l)" by fastforce
  obtain ws where ws: "represents (h, l) ws" "map snd ws = es @ [e]" "finite (dom h)"
    using snoc.prems(2) hl by (auto simp: pm_ok_def lists_def)
  then obtain xs a where xs: "ws = xs @ [(a, e)]" "map snd xs = es"
    by (cases ws rule: rev_cases) auto
  obtain h' l' where rem: "remove_last (h, l) = Some (Some e, h', l')" "represents (h', l') xs"
    "same_off (fst ` set (xs @ [(a, e)])) h h'"
    using remove_last_represents [of h l xs a e] ws(1) xs(1) by blast
  have "finite (dom h')"
    by (rule finite_dom_same_off [OF ws(3) rem(3)]) simp
  then have "lists (this\<lparr>pm_policies := (h', l')\<rparr>) (es @ [])"
    using rem(2) xs(2) by (auto simp: lists_def)
  then obtain heap where d: "policy_entry_destroy e (pm_heap this) = Some heap"
    "pm_ok (this\<lparr>pm_policies := (h', l'), pm_heap := heap\<rparr>) (es @ []) held"
    by (rule policy_entry_destroy_ok [OF snoc.prems(2)])
  obtain this' where "flush_policies n (this\<lparr>pm_policies := (h', l'), pm_heap := heap\<rparr>) = Some (SUCCESS, this')"
    "pm_ok this' [] held"
    using snoc.IH [OF _ d(2) [simplified] fuel(2)] by blast
  then show ?case
    using snoc.prems(1) rem(1) d(1) hl fuel(1) by simp
qed

lemma ts_clone_wf:
  assumes "wf_ts ts" "wf_netbits ts"
  obtains c where "ts_clone ts = Some c" "wf_ts c" "wf_netbits c"
proof -
  have "ts_type ts = TS_IPV4_ADDR_RANGE \<or> ts_type ts = TS_IPV6_ADDR_RANGE"
    using assms(1) by (cases "ts_type ts") (simp_all add: wf_ts_def)
  then show thesis
    using assms that icmp_port_id [of "ts_protocol ts" "ts_from_port ts"] icmp_port_id [of "ts_protocol ts" "ts_to_port ts"]
    by (auto simp: ts_clone_def traffic_selector_create_def wf_ts_def wf_netbits_def TS_IP_LEN_def memcpy_at_def Let_def)
qed

text \<open>What is assumed of the allocation of policies: the address is not in use.\<close>

definition fresh_pmalloc :: "(policy_heap \<Rightarrow> addr) \<Rightarrow> bool" where
  "fresh_pmalloc pmalloc \<longleftrightarrow> (\<forall>heap. finite (dom heap) \<longrightarrow> heap (pmalloc heap) = None)"

lemma sorted_insert:
  assumes "sorted (map f (us @ vs))" "\<forall>x \<in> set us. f x < f e" "\<forall>x \<in> set vs. f e \<le> f x"
  shows "sorted (map f (us @ e # vs))"
  using assms by (auto simp: sorted_append intro: less_imp_le)

lemma insert_policy_ok:
  assumes lists: "lists this es" and sorted: "sorted (map pe_priority es)" and fuel: "length es < fuel" and m: "fresh_malloc malloc"
  obtains us vs policies en found where "es = us @ vs"
    "enumerate_until fuel (\<lambda>current. Some (pe_priority current \<ge> pe_priority e)) (pm_policies this) create_enumerator = Some (found, en)"
    "insert_before (malloc (fst (pm_policies this))) en e (pm_policies this) = Some policies"
    "lists (this\<lparr>pm_policies := policies\<rparr>) (us @ e # vs)"
    "\<forall>x \<in> set us. pe_priority x < pe_priority e" "\<forall>x \<in> set vs. pe_priority e \<le> pe_priority x"
proof -
  obtain h l where hl: "pm_policies this = (h, l)" by fastforce
  have fin: "finite (dom h)"
    using lists hl by (simp add: lists_def)
  then have a: "h (malloc h) = None"
    using m by (simp add: fresh_malloc_def)
  have cond: "\<forall>x \<in> set es. (\<lambda>current. Some (pe_priority current \<ge> pe_priority e)) x = Some (pe_priority x \<ge> pe_priority e)"
    by simp
  show thesis
  proof (cases rule: lists_search [OF lists fuel cond, case_names none found])
    case (none en)
    obtain xs where xs: "represents (h, l) xs" "map snd xs = es"
      using lists hl by (auto simp: lists_def)
    obtain h' l' where i: "insert_last (malloc h) e (h, l) = Some (h', l')" "represents (h', l') (xs @ [(malloc h, e)])"
      "same_off (insert (malloc h) (fst ` set xs)) h h'"
      using insert_last_represents [OF xs(1) a, of e] by blast
    have "finite (dom h')"
      by (rule finite_dom_same_off [OF fin i(3)]) simp
    then have "lists (this\<lparr>pm_policies := (h', l')\<rparr>) (es @ e # [])"
      using i(2) xs(2) by (auto simp: lists_def)
    moreover have "insert_before (malloc h) en e (h, l) = Some (h', l')"
      using i(1) none(3,4) by (simp add: insert_before_def)
    ultimately show thesis
      using that [of es "[]" None en "(h', l')"] none(1,2) hl by (simp add: not_le)
  next
    case (found xs c x ys en)
    obtain h' l' where i: "insert_before (malloc h) en e (h, l) = Some (h', l')"
      "represents (h', l') (xs @ (malloc h, e) # (c, x) # ys)"
      "same_off (insert (malloc h) (fst ` set (xs @ (c, x) # ys))) h h'"
      using insert_before_represents [of h l xs c x ys "malloc h" en e] found(1,5) a hl by auto
    have "finite (dom h')"
      by (rule finite_dom_same_off [OF fin i(3)]) simp
    then have "lists (this\<lparr>pm_policies := (h', l')\<rparr>) (map snd xs @ e # x # map snd ys)"
      using i(2) by (force simp: lists_def)
    moreover have "\<forall>v \<in> set (x # map snd ys). pe_priority e \<le> pe_priority v"
      using found(2,3) sorted by (auto simp: sorted_append)
    ultimately show thesis
      using that [of "map snd xs" "x # map snd ys" "Some x" en "(h', l')"] found(2,4,6) i(1) hl by (simp add: not_le)
  qed
qed

lemma add_policy_ok:
  assumes ok: "pm_ok this es held" and fuel: "length es < fuel" and m: "fresh_malloc malloc" "fresh_pmalloc pmalloc"
    and what: "type = POLICY_IPSEC" "direction \<noteq> POLICY_FWD"
    and wf: "wf_ts src_ts" "wf_ts dst_ts" "wf_netbits src_ts" "wf_netbits dst_ts"
  obtains this' us vs e where
    "add_policy fuel malloc pmalloc src dst src_ts dst_ts direction type sa mark priority this = Some (SUCCESS, this')"
    "es = us @ vs" "pm_ok this' (us @ e # vs) held"
    "\<forall>x \<in> set us. pe_priority x < pe_priority e" "\<forall>x \<in> set vs. pe_priority e \<le> pe_priority x"
proof -
  obtain s d where s: "ts_clone src_ts = Some s" "wf_ts s" "wf_netbits s" and d: "ts_clone dst_ts = Some d" "wf_ts d" "wf_netbits d"
    using ts_clone_wf [OF wf(1,3)] ts_clone_wf [OF wf(2,4)] by metis
  obtain prio nb nb' where c: "calculate_priority priority s d = Some (prio, s\<lparr>ts_netbits := nb\<rparr>, d\<lparr>ts_netbits := nb'\<rparr>)"
    using calculate_priority_value [OF s(2) d(2) s(3) d(3)] by metis
  obtain pol where pol: "ipsec_policy_create src dst src_ts dst_ts direction type sa mark priority = Some pol"
    "pol_src_ts pol = s" "pol_dst_ts pol = d" "pol_priority pol = priority" "pol_refcount pol = 1"
    using s(1) d(1) by (simp add: ipsec_policy_create_def)
  let ?p = "pmalloc (pm_heap this)"
  let ?e = "\<lparr>pe_priority = prio, pe_policy = ?p\<rparr>"
  let ?pol = "pol\<lparr>pol_src_ts := s\<lparr>ts_netbits := nb\<rparr>, pol_dst_ts := d\<lparr>ts_netbits := nb'\<rparr>\<rparr>"
  have new: "pm_heap this ?p = None"
    using m(2) ok by (simp add: fresh_pmalloc_def pm_ok_def)
  obtain us vs policies en found where i: "es = us @ vs"
    "enumerate_until fuel (\<lambda>current. Some (pe_priority current \<ge> pe_priority ?e)) (pm_policies this) create_enumerator = Some (found, en)"
    "insert_before (malloc (fst (pm_policies this))) en ?e (pm_policies this) = Some policies"
    "lists (this\<lparr>pm_policies := policies\<rparr>) (us @ ?e # vs)"
    "\<forall>x \<in> set us. pe_priority x < pe_priority ?e" "\<forall>x \<in> set vs. pe_priority ?e \<le> pe_priority x"
    using insert_policy_ok [OF _ _ fuel m(1), of this ?e] ok unfolding pm_ok_def by metis
  let ?m = "this\<lparr>pm_policies := policies, pm_heap := (pm_heap this)(?p \<mapsto> ?pol)\<rparr>"
  have notin: "?p \<notin> pe_policy ` set es"
    using new heap_ok_alloc [of "pm_heap this" "pe_policy ` set es" held ?p] ok by (auto simp: pm_ok_def)
  have "pm_ok ?m (us @ ?e # vs) held"
  proof (rule pm_okI)
    fix x assume x: "x \<in> set (us @ ?e # vs)"
    show "entry_ok (pm_heap ?m) x"
    proof (cases "x = ?e")
      case True
      then show ?thesis
        using calculate_priority_again [OF c] pol(4) by (simp add: entry_ok_def)
    next
      case False
      then have "x \<in> set es"
        using x i(1) by auto
      moreover from this have "pe_policy x \<noteq> ?p"
        using notin imageI [of x "set es" pe_policy] by metis
      ultimately show ?thesis
        using ok by (simp add: pm_ok_def entry_ok_def)
    qed
  next
    show "lists ?m (us @ ?e # vs)"
      using i(4) by (simp add: lists_def)
    show "sorted (map pe_priority (us @ ?e # vs))"
      using ok i by (intro sorted_insert) (simp_all add: pm_ok_def)
    show "distinct (map pe_policy (us @ ?e # vs))"
      using ok i(1) notin by (auto simp: pm_ok_def)
    have "insert ?p (pe_policy ` set es) = pe_policy ` set (us @ ?e # vs)"
      using i(1) by auto
    then show "heap_ok (pm_heap ?m) (pe_policy ` set (us @ ?e # vs)) held"
      using heap_ok_new [of "pm_heap this" "pe_policy ` set es" held ?p ?pol] ok new pol(5) by (simp add: pm_ok_def)
  qed (use ok in \<open>simp add: pm_ok_def\<close>)
  moreover have "add_policy fuel malloc pmalloc src dst src_ts dst_ts direction type sa mark priority this = Some (SUCCESS, ?m)"
    using what pol c i(2,3) by (simp add: add_policy_def policy_entry_create_def Let_def)
  ultimately show thesis
    using that i(1,5,6) by blast
qed

section \<open>The manager over time\<close>

text \<open>
  The state: the manager and the references threads hold. Policies are installed with well-formed
  selectors; a packet lookup hands out a reference, which its thread gives back some time later,
  whatever happens to the policy in between. No more than \<open>2\<^sup>3\<^sup>2 - 2\<close> references are held at once.
\<close>

inductive pm_step :: "(policy_entry store \<Rightarrow> addr) \<Rightarrow> (policy_heap \<Rightarrow> addr) \<Rightarrow> policy_mgr \<times> addr list \<Rightarrow> policy_mgr \<times> addr list \<Rightarrow> bool"
  for malloc pmalloc where
  add: "ll_count (snd (pm_policies m)) < int fuel \<Longrightarrow> wf_ts src_ts \<Longrightarrow> wf_ts dst_ts \<Longrightarrow> wf_netbits src_ts \<Longrightarrow> wf_netbits dst_ts \<Longrightarrow>
    add_policy fuel malloc pmalloc src dst src_ts dst_ts direction type sa mark priority m = Some (status, m') \<Longrightarrow>
    pm_step malloc pmalloc (m, held) (m', held)"
| del: "ll_count (snd (pm_policies m)) < int fuel \<Longrightarrow>
    del_policy fuel src_ts dst_ts direction type sa mark priority m = Some (status, m') \<Longrightarrow>
    pm_step malloc pmalloc (m, held) (m', held)"
| flush: "ll_count (snd (pm_policies m)) < int fuel \<Longrightarrow> flush_policies fuel m = Some (status, m') \<Longrightarrow>
    pm_step malloc pmalloc (m, held) (m', held)"
| find: "ll_count (snd (pm_policies m)) < int fuel \<Longrightarrow> length held < 4294967294 \<Longrightarrow>
    find_by_packet fuel packet inb reqid m = Some (r, m') \<Longrightarrow>
    pm_step malloc pmalloc (m, held) (m', case r of None \<Rightarrow> held | Some p \<Rightarrow> p # held)"
| release: "p \<in> set held \<Longrightarrow> policy_destroy p (pm_heap m) = Some heap \<Longrightarrow>
    pm_step malloc pmalloc (m, held) (m\<lparr>pm_heap := heap\<rparr>, remove1 p held)"

definition pm_start :: "policy_mgr \<times> addr list" where
  "pm_start = (ipsec_policy_mgr_create Map.empty Map.empty, [])"

lemma pm_ok_start: "pm_ok (fst pm_start) [] (snd pm_start)"
  by (simp add: pm_start_def ipsec_policy_mgr_create_def pm_ok_def lists_def heap_ok_def)

lemma pm_ok_fuel: "pm_ok m es held \<Longrightarrow> ll_count (snd (pm_policies m)) < int fuel \<longleftrightarrow> length es < fuel"
  using lists_count [of m es] by (simp add: pm_ok_def)

lemma pm_step_ok:
  assumes "pm_step malloc pmalloc s s'" "fresh_malloc malloc" "fresh_pmalloc pmalloc" "pm_ok (fst s) es (snd s)"
  shows "\<exists>es'. pm_ok (fst s') es' (snd s')"
  using assms(1)
proof cases
  case (add m fuel src_ts dst_ts src dst direction type sa mark priority status m' held)
  have ok: "pm_ok m es held" and fuel: "length es < fuel"
    using assms(4) add(1,3) pm_ok_fuel [of m es held fuel] by simp_all
  show ?thesis
  proof (cases "type = POLICY_IPSEC \<and> direction \<noteq> POLICY_FWD")
    case True
    then have what: "type = POLICY_IPSEC" "direction \<noteq> POLICY_FWD" by simp_all
    show ?thesis
      by (rule add_policy_ok [OF ok fuel assms(2,3) what add(4-7), of src dst sa mark priority]) (use add in auto)
  next
    case False
    then show ?thesis
      using add ok by (auto simp: add_policy_def)
  qed
next
  case (del m fuel src_ts dst_ts direction type sa mark priority status m' held)
  have ok: "pm_ok m es held" and fuel: "length es < fuel"
    using assms(4) del(1,3) pm_ok_fuel [of m es held fuel] by simp_all
  show ?thesis
  proof (cases "type = POLICY_IPSEC \<and> direction \<noteq> POLICY_FWD")
    case True
    then have what: "type = POLICY_IPSEC" "direction \<noteq> POLICY_FWD" by simp_all
    obtain prio r where c: "calculate_priority priority src_ts dst_ts = Some (prio, r)"
      using del(4) True by (auto simp: del_policy_def split: bind_splits)
    show ?thesis
      by (rule del_policy_ok [OF ok fuel what c, of sa mark]) (use del ok in auto)
  next
    case False
    then show ?thesis
      using del ok by (auto simp: del_policy_def)
  qed
next
  case (flush m fuel status m' held)
  have ok: "pm_ok m es held" and fuel: "length es < fuel"
    using assms(4) flush(1,3) pm_ok_fuel [of m es held fuel] by simp_all
  show ?thesis
    by (rule flush_policies_ok [OF ok fuel]) (use flush in auto)
next
  case (find m fuel held packet inb reqid r m')
  have ok: "pm_ok m es held" and fuel: "length es < fuel"
    using assms(4) find(1,3) pm_ok_fuel [of m es held fuel] by simp_all
  show ?thesis
    by (rule find_by_packet_ok [OF ok fuel find(4), of packet inb reqid]) (use find ok in auto)
next
  case (release p held m heap)
  have ok: "pm_ok m es held"
    using assms(4) release(1) by simp
  show ?thesis
    by (rule release_ok [OF ok release(3)]) (use release in auto)
qed

lemma pm_reachable_ok:
  assumes "(pm_step malloc pmalloc)\<^sup>*\<^sup>* pm_start s" "fresh_malloc malloc" "fresh_pmalloc pmalloc"
  shows "\<exists>es. pm_ok (fst s) es (snd s)"
  using assms
proof (induction rule: rtranclp_induct)
  case base
  then show ?case using pm_ok_start by blast
next
  case (step s s')
  then show ?case using pm_step_ok by blast
qed

lemma no_refs_empty:
  assumes "pm_ok m [] []"
  shows "pm_heap m = Map.empty"
proof
  fix p
  show "pm_heap m p = None"
    using assms heap_okD [of "pm_heap m" "{}" "[]" p] by (cases "pm_heap m p") (auto simp: pm_ok_def refs_def)
qed

text \<open>An example: one policy for 10.0.0.0/8, looked up for a packet and flushed while the reference is held.\<close>

definition least_pmalloc :: "policy_heap \<Rightarrow> addr" where
  "least_pmalloc heap = (if dom heap = {} then 0 else Suc (Max (dom heap)))"

lemma least_pmalloc_fresh: "fresh_pmalloc least_pmalloc"
  unfolding fresh_pmalloc_def
proof (intro allI impI)
  fix heap :: policy_heap
  assume "finite (dom heap)"
  then have "dom heap \<noteq> {} \<Longrightarrow> Suc (Max (dom heap)) \<notin> dom heap"
    using Max_ge Suc_n_not_le_n by blast
  then show "heap (least_pmalloc heap) = None"
    by (auto simp: least_pmalloc_def)
qed

definition ten_host :: "u8 \<Rightarrow> host" where
  "ten_host b = \<lparr>sa_family = AF_INET, sin_addr = [10, 0, 0, b], sin_port = 0\<rparr>"

definition demo_cfg :: ipsec_sa_cfg where
  "demo_cfg = \<lparr>cfg_mode = MODE_TUNNEL, cfg_reqid = 7, cfg_policy_count = 1, cfg_esp = (True, 1), cfg_ah = (False, 0), cfg_ipcomp = (0, 0)\<rparr>"

definition demo_mark :: mark_t where
  "demo_mark = \<lparr>mark_value = 0, mark_mask = 0\<rparr>"

definition demo_policy :: "policy_dir_t \<Rightarrow> ipsec_policy" where
  "demo_policy dir = \<lparr>pol_src = ten_host 1, pol_dst = ten_host 2, pol_src_ts = ts_10_8, pol_dst_ts = ts_10_8,
     pol_protocol = 0, pol_direction = dir, pol_type = POLICY_IPSEC, pol_sa = demo_cfg, pol_mark = demo_mark,
     pol_priority = POLICY_PRIORITY_DEFAULT, pol_refcount = 1\<rparr>"

definition demo_policies :: "policy_dir_t \<Rightarrow> policy_mgr" where
  "demo_policies dir =
     \<lparr>pm_policies = ([0 \<mapsto> \<lparr>el_value = \<lparr>pe_priority = 3011, pe_policy = 0\<rparr>, el_previous = None, el_next = None\<rparr>],
        \<lparr>ll_count = 1, ll_first = Some 0, ll_last = Some 0\<rparr>),
      pm_heap = [0 \<mapsto> demo_policy dir]\<rparr>"

definition demo_ip_packet :: ip_packet where
  "demo_ip_packet = \<lparr>ip_src = ten_host 3, ip_dst = ten_host 4, ip_packet = [], ip_payload = [], ip_version = 4, ip_next_header = 6\<rparr>"

lemma demo_add_policy:
  assumes "dir \<noteq> POLICY_FWD"
  shows "add_policy 1 least_malloc least_pmalloc (ten_host 1) (ten_host 2) ts_10_8 ts_10_8 dir POLICY_IPSEC demo_cfg demo_mark
      POLICY_PRIORITY_DEFAULT (fst pm_start) = Some (SUCCESS, demo_policies dir)"
proof -
  have zeros: "replicate 12 0 = [0, 0, 0, 0, 0, 0, 0, 0, 0, 0, 0, 0 :: u8]"
    by (simp add: numeral_eq_Suc)
  have clone: "ts_clone ts_10_8 = Some ts_10_8"
    by (simp add: ts_clone_def ts_10_8_def traffic_selector_create_def icmp_port_def TS_IP_LEN_def memcpy_at_def Let_def zeros)
  have prio: "calculate_priority POLICY_PRIORITY_DEFAULT ts_10_8 ts_10_8 = Some (3011, ts_10_8, ts_10_8)"
    by (simp add: calculate_priority_def to_subnet_def ts_10_8_def Let_def TS_IP_LEN_def subnet_bytes_def
        host_create_from_chunk_def get_port_def)
  have any: "ts_protocol ts_10_8 = 0"
    by (simp add: ts_10_8_def)
  show ?thesis
    using assms
    by (simp add: add_policy_def ipsec_policy_create_def clone prio policy_entry_create_def pm_start_def
        ipsec_policy_mgr_create_def demo_policies_def demo_policy_def Let_def least_pmalloc_def least_malloc_def
        enumerate_list_def create_enumerator_def linked_list_create_def insert_before_def insert_last_def
        element_create_def any)
qed

lemma demo_policies_reachable:
  assumes "dir \<noteq> POLICY_FWD"
  shows "(pm_step least_malloc least_pmalloc)\<^sup>*\<^sup>* pm_start (demo_policies dir, [])"
proof -
  have "pm_start = (fst pm_start, [])"
    by (simp add: pm_start_def)
  moreover have "ll_count (snd (pm_policies (fst pm_start))) < int 1"
    by (simp add: pm_start_def ipsec_policy_mgr_create_def linked_list_create_def)
  ultimately show ?thesis
    using pm_step.add [OF _ ts_examples(1,1) wf_netbits_examples(1,1) demo_add_policy [OF assms], of "[]"]
    by (metis r_into_rtranclp)
qed

definition demo_policies_used :: "policy_dir_t \<Rightarrow> policy_mgr" where
  "demo_policies_used dir = (demo_policies dir)\<lparr>pm_heap := [0 \<mapsto> (demo_policy dir)\<lparr>pol_refcount := 2\<rparr>]\<rparr>"

lemma demo_match: "match_packet demo_ip_packet (demo_policy dir)"
  by (simp add: match_packet_def demo_ip_packet_def demo_policy_def ts_includes_def host_matches_type_def ts_10_8_def
      ten_host_def get_family_def get_address_def match_port_def)

lemma demo_find:
  "find_by_packet 2 demo_ip_packet True 7 (demo_policies POLICY_IN) = Some (Some 0, demo_policies_used POLICY_IN)"
  using demo_match [of POLICY_IN]
  by (simp add: find_by_packet_def numeral_2_eq_2 demo_policies_def demo_policies_used_def enumerate_list_def create_enumerator_def
      policy_applies_def policy_get_ref_def demo_policy_def demo_cfg_def)

lemma demo_used_reachable: "(pm_step least_malloc least_pmalloc)\<^sup>*\<^sup>* pm_start (demo_policies_used POLICY_IN, [0])"
proof -
  have "pm_step least_malloc least_pmalloc (demo_policies POLICY_IN, []) (demo_policies_used POLICY_IN, [0])"
    using pm_step.find [OF _ _ demo_find, of "[]"] by (simp add: demo_policies_def)
  then show ?thesis
    using demo_policies_reachable [of POLICY_IN] by (meson policy_dir_t.distinct(3) rtranclp.rtrancl_into_rtrancl)
qed



text \<open>
  C12: A lookup by packet returns an installed policy of the wanted direction that matches the packet
  and the request id, and no other such policy has a lower priority value; when it returns nothing there is none.
\<close>

theorem find_by_packet_best:
  assumes "(pm_step malloc pmalloc)\<^sup>*\<^sup>* pm_start (m, held)" "fresh_malloc malloc" "fresh_pmalloc pmalloc"
    and "ll_count (snd (pm_policies m)) < int fuel" "length held < 4294967294"
  shows "\<exists>es r m'. lists m es \<and> find_by_packet fuel packet inb reqid m = Some (r, m') \<and>
    (case r of
       None \<Rightarrow> \<forall>e \<in> set es. \<not> applies m packet inb reqid e
     | Some p \<Rightarrow> \<exists>e \<in> set es. pe_policy e = p \<and> applies m packet inb reqid e \<and>
         (\<forall>x \<in> set es. applies m packet inb reqid x \<longrightarrow> pe_priority e \<le> pe_priority x))"
proof -
  obtain es where ok: "pm_ok m es held"
    using pm_reachable_ok [OF assms(1-3)] by auto
  then have fuel: "length es < fuel" and lists: "lists m es"
    using assms(4) pm_ok_fuel by (blast, simp add: pm_ok_def)
  show ?thesis
  proof (cases rule: find_by_packet_ok [OF ok fuel assms(5), of packet inb reqid, case_names none found])
    case none
    then show ?thesis
      using lists by auto
  next
    case (found us e vs m')
    have "pe_priority e \<le> pe_priority x" if "x \<in> set es" "applies m packet inb reqid x" for x
      using that found(2,4) ok by (auto simp: pm_ok_def sorted_append)
    then show ?thesis
      using found(1-3) lists by (intro exI [of _ es] exI [of _ "Some (pe_policy e)"] exI [of _ m']) auto
  qed
qed

theorem find_by_packet_best_witness:
  "\<exists>es r m'. lists (demo_policies POLICY_IN) es \<and>
     find_by_packet 2 demo_ip_packet True 7 (demo_policies POLICY_IN) = Some (r, m') \<and> r = Some 0 \<and>
     (\<exists>e \<in> set es. pe_policy e = 0 \<and> applies (demo_policies POLICY_IN) demo_ip_packet True 7 e)"
proof -
  have fuel: "ll_count (snd (pm_policies (demo_policies POLICY_IN))) < int 2"
    by (simp add: demo_policies_def)
  show ?thesis
    using find_by_packet_best [OF demo_policies_reachable [of POLICY_IN] least_malloc_fresh least_pmalloc_fresh fuel,
        of demo_ip_packet True 7] demo_find by auto
qed

end
