(* ===== verification/Ipsec_Processor.thy ===== *)
theory Ipsec_Processor
  imports Esp_Channel Ipsec_Sa_Mgr Ipsec_Policy_Mgr
begin

text \<open>
  \<open>libipsec/ipsec_processor.c\<close>: the two jobs that move packets between the network and the TUN
  device, over the SA manager, the policy manager and the two queues. The callbacks made and the
  events raised are part of the result. A job stops where it waits for a packet or for an SA another
  thread holds; what it does when it goes on is a function of its own. An access to freed memory or
  through \<open>NULL\<close> is the result \<open>None\<close>.
\<close>

section \<open>State\<close>

text \<open>A registered callback with its data.\<close>

record packet_cb =
  cb_fn :: "addr option"
  cb_data :: addr

record ('a, 'r) ipsec_processor =
  ipr_sas :: "('a, 'r) sa_mgr"
  ipr_policies :: policy_mgr
  inbound_queue :: "esp_packet list"
  outbound_queue :: "ip_packet list"
  inbound_cb :: packet_cb
  outbound_cb :: packet_cb

datatype effect = Delivered addr addr "ip_packet option" | Sent addr addr esp_packet | Raised ipsec_event

definition no_cb :: packet_cb where
  "no_cb = \<lparr>cb_fn = None, cb_data = 0\<rparr>"

definition ipsec_processor_create :: "('a, 'r) sa_mgr \<Rightarrow> policy_mgr \<Rightarrow> ('a, 'r) ipsec_processor" where
  "ipsec_processor_create sas policies =
     \<lparr>ipr_sas = sas, ipr_policies = policies, inbound_queue = [], outbound_queue = [], inbound_cb = no_cb, outbound_cb = no_cb\<rparr>"

text \<open>The queues are blocking queues: packets are inserted first and removed last.\<close>

definition queue_inbound :: "esp_packet \<Rightarrow> ('a, 'r) ipsec_processor \<Rightarrow> ('a, 'r) ipsec_processor" where
  "queue_inbound packet this = this\<lparr>inbound_queue := packet # inbound_queue this\<rparr>"

definition queue_outbound :: "ip_packet \<Rightarrow> ('a, 'r) ipsec_processor \<Rightarrow> ('a, 'r) ipsec_processor" where
  "queue_outbound packet this = this\<lparr>outbound_queue := packet # outbound_queue this\<rparr>"

definition register_inbound :: "addr \<Rightarrow> addr \<Rightarrow> ('a, 'r) ipsec_processor \<Rightarrow> ('a, 'r) ipsec_processor" where
  "register_inbound cb data this = this\<lparr>inbound_cb := \<lparr>cb_fn = Some cb, cb_data = data\<rparr>\<rparr>"

definition unregister_inbound :: "addr \<Rightarrow> ('a, 'r) ipsec_processor \<Rightarrow> ('a, 'r) ipsec_processor" where
  "unregister_inbound cb this =
     (if cb_fn (inbound_cb this) = Some cb then this\<lparr>inbound_cb := (inbound_cb this)\<lparr>cb_fn := None\<rparr>\<rparr> else this)"

definition register_outbound :: "addr \<Rightarrow> addr \<Rightarrow> ('a, 'r) ipsec_processor \<Rightarrow> ('a, 'r) ipsec_processor" where
  "register_outbound cb data this = this\<lparr>outbound_cb := \<lparr>cb_fn = Some cb, cb_data = data\<rparr>\<rparr>"

definition unregister_outbound :: "addr \<Rightarrow> ('a, 'r) ipsec_processor \<Rightarrow> ('a, 'r) ipsec_processor" where
  "unregister_outbound cb this =
     (if cb_fn (outbound_cb this) = Some cb then this\<lparr>outbound_cb := (outbound_cb this)\<lparr>cb_fn := None\<rparr>\<rparr> else this)"

section \<open>Inbound packets\<close>

definition deliver_inbound :: "esp_packet \<Rightarrow> ('a, 'r) ipsec_processor \<Rightarrow> effect list" where
  "deliver_inbound packet this =
     (case cb_fn (inbound_cb this) of
        Some cb \<Rightarrow> [Delivered cb (cb_data (inbound_cb this)) (fst (extract_payload packet))]
      | None \<Rightarrow> [])"

text \<open>The end of the job: find the policy for the decrypted packet, deliver it or drop it.\<close>

definition inbound_policy ::
  "nat \<Rightarrow> esp_packet \<Rightarrow> ip_packet \<Rightarrow> u32 \<Rightarrow> ('a, 'r) ipsec_processor \<Rightarrow> (effect list \<times> ('a, 'r) ipsec_processor) option" where
  "inbound_policy fuel packet ip reqid this =
     (if ep_next_header packet = IPPROTO_IPIP \<or> ep_next_header packet = IPPROTO_IPV6
      then do {
        (policy, policies) \<leftarrow> find_by_packet fuel ip True reqid (ipr_policies this);
        case policy of
          None \<Rightarrow> Some ([], this\<lparr>ipr_policies := policies\<rparr>)
        | Some p \<Rightarrow> do {
            heap \<leftarrow> policy_destroy p (pm_heap policies);
            Some (deliver_inbound packet this, this\<lparr>ipr_policies := policies\<lparr>pm_heap := heap\<rparr>\<rparr>)}}
      else Some ([], this))"

text \<open>The part of the job that holds the SA, of which \<open>sa\<close> is the address; \<open>w\<close> is the thread \<open>signal\<close> wakes.\<close>

definition inbound_sa ::
  "('a, 'q) aead_t \<Rightarrow> nat \<Rightarrow> int \<Rightarrow> tid \<Rightarrow> esp_packet \<Rightarrow> addr \<Rightarrow> ('a, 'r) ipsec_processor
    \<Rightarrow> (effect list \<times> ('a, 'r) ipsec_processor) option" where
  "inbound_sa A fuel now w packet sa this = do {
     s \<leftarrow> sa_of sa (ipr_sas this);
     if \<not> sa_inbound s then Some ([], this\<lparr>ipr_sas := checkin w sa (ipr_sas this)\<rparr>)
     else do {
       (status, packet, ctx) \<leftarrow> esp_decrypt A packet (sa_esp_context s);
       let s = s\<lparr>sa_esp_context := ctx\<rparr>;
       if status \<noteq> SUCCESS
       then Some ([], this\<lparr>ipr_sas := checkin w sa (set_sa sa s (ipr_sas this))\<rparr>)
       else do {
         ip \<leftarrow> ep_payload packet;
         let (events, s) = update_usestats now (of_nat (length (ip_packet ip))) s;
         let this = this\<lparr>ipr_sas := checkin w sa (set_sa sa s (ipr_sas this))\<rparr>;
         (effects, this) \<leftarrow> inbound_policy fuel packet ip (sa_reqid s) this;
         Some (map Raised events @ effects, this)}}}"

text \<open>What the job does once \<open>checkout_by_spi\<close> has returned, or waits.\<close>

definition inbound_checked_out ::
  "('a, 'q) aead_t \<Rightarrow> nat \<Rightarrow> int \<Rightarrow> tid \<Rightarrow> esp_packet \<Rightarrow> addr option outcome \<times> ('a, 'r) sa_mgr \<Rightarrow> ('a, 'r) ipsec_processor
    \<Rightarrow> (effect list outcome \<times> ('a, 'r) ipsec_processor) option" where
  "inbound_checked_out A fuel now w packet r this =
     (case r of
        (Waits, sas) \<Rightarrow> Some (Waits, this\<lparr>ipr_sas := sas\<rparr>)
      | (Returns None, sas) \<Rightarrow> Some (Returns [], this\<lparr>ipr_sas := sas\<rparr>)
      | (Returns (Some sa), sas) \<Rightarrow>
          map_option (apfst Returns) (inbound_sa A fuel now w packet sa (this\<lparr>ipr_sas := sas\<rparr>)))"

text \<open>
  The destination of a packet may be \<open>NULL\<close>; it is dereferenced when an SA with the SPI of the packet
  is looked at.
\<close>

definition process_inbound ::
  "('a, 'q) aead_t \<Rightarrow> nat \<Rightarrow> int \<Rightarrow> tid \<Rightarrow> tid \<Rightarrow> ('a, 'r) ipsec_processor
    \<Rightarrow> (effect list outcome \<times> ('a, 'r) ipsec_processor) option" where
  "process_inbound A fuel now t w this =
     (if inbound_queue this = [] then Some (Waits, this)
      else
        (let packet = last (inbound_queue this); this = this\<lparr>inbound_queue := butlast (inbound_queue this)\<rparr>
         in case parse_header packet of
              None \<Rightarrow> Some (Returns [], this)
            | Some spi \<Rightarrow>
                (case pkt_destination (ep_packet packet) of
                   None \<Rightarrow> if find_entry (\<lambda>e. sa_spi (ent_sa e) = spi) (ipr_sas this) = None
                            then Some (Returns [], this) else None
                 | Some dst \<Rightarrow> inbound_checked_out A fuel now w packet (checkout_by_spi t w spi dst (ipr_sas this)) this)))"

text \<open>The job goes on when its thread is woken for the entry \<open>p\<close>.\<close>

definition process_inbound_resume ::
  "('a, 'q) aead_t \<Rightarrow> nat \<Rightarrow> int \<Rightarrow> tid \<Rightarrow> tid \<Rightarrow> esp_packet \<Rightarrow> addr \<Rightarrow> ('a, 'r) ipsec_processor
    \<Rightarrow> (effect list outcome \<times> ('a, 'r) ipsec_processor) option" where
  "process_inbound_resume A fuel now t w packet p this =
     inbound_checked_out A fuel now w packet
       (wait_resume t w p None (\<lambda>entry. (Some (ent_sa_ptr entry), entry)) (ipr_sas this)) this"

section \<open>Outbound packets\<close>

definition send_outbound :: "esp_packet \<Rightarrow> ('a, 'r) ipsec_processor \<Rightarrow> effect list" where
  "send_outbound packet this =
     (case cb_fn (outbound_cb this) of
        Some cb \<Rightarrow> [Sent cb (cb_data (outbound_cb this)) packet]
      | None \<Rightarrow> [])"

definition release_policy :: "addr \<Rightarrow> ('a, 'r) ipsec_processor \<Rightarrow> ('a, 'r) ipsec_processor option" where
  "release_policy p this = do {
     heap \<leftarrow> policy_destroy p (pm_heap (ipr_policies this));
     Some (this\<lparr>ipr_policies := (ipr_policies this)\<lparr>pm_heap := heap\<rparr>\<rparr>)}"

definition outbound_sa ::
  "('a, 'q) aead_t \<Rightarrow> 'q rng_t \<Rightarrow> (nat \<Rightarrow> u8) \<Rightarrow> int \<Rightarrow> tid \<Rightarrow> ip_packet \<Rightarrow> addr \<Rightarrow> addr \<Rightarrow> ('a, 'r) ipsec_processor
    \<Rightarrow> (effect list \<times> ('a, 'r) ipsec_processor) option" where
  "outbound_sa A R uninit now w packet policy sa this = do {
     s \<leftarrow> sa_of sa (ipr_sas this);
     let esp_packet = esp_packet_create_from_payload (sa_src s) (sa_dst s) (Some packet);
     let (status, esp_packet, ctx) = esp_encrypt A R uninit esp_packet (sa_esp_context s) (sa_spi s);
     let s = s\<lparr>sa_esp_context := ctx\<rparr>;
     if status \<noteq> SUCCESS
     then do {
       this \<leftarrow> release_policy policy (this\<lparr>ipr_sas := checkin w sa (set_sa sa s (ipr_sas this))\<rparr>);
       Some ([], this)}
     else do {
       let (events, s) = update_usestats now (of_nat (length (ip_packet packet))) s;
       this \<leftarrow> release_policy policy (this\<lparr>ipr_sas := checkin w sa (set_sa sa s (ipr_sas this))\<rparr>);
       Some (map Raised events @ send_outbound esp_packet this, this)}}"

definition outbound_checked_out ::
  "('a, 'q) aead_t \<Rightarrow> 'q rng_t \<Rightarrow> (nat \<Rightarrow> u8) \<Rightarrow> int \<Rightarrow> tid \<Rightarrow> ip_packet \<Rightarrow> addr
    \<Rightarrow> addr option outcome \<times> ('a, 'r) sa_mgr \<Rightarrow> ('a, 'r) ipsec_processor
    \<Rightarrow> (effect list outcome \<times> ('a, 'r) ipsec_processor) option" where
  "outbound_checked_out A R uninit now w packet policy r this =
     (case r of
        (Waits, sas) \<Rightarrow> Some (Waits, this\<lparr>ipr_sas := sas\<rparr>)
      | (Returns None, sas) \<Rightarrow> map_option (Pair (Returns [])) (release_policy policy (this\<lparr>ipr_sas := sas\<rparr>))
      | (Returns (Some sa), sas) \<Rightarrow>
          map_option (apfst Returns) (outbound_sa A R uninit now w packet policy sa (this\<lparr>ipr_sas := sas\<rparr>)))"

definition process_outbound ::
  "('a, 'q) aead_t \<Rightarrow> 'q rng_t \<Rightarrow> (nat \<Rightarrow> u8) \<Rightarrow> nat \<Rightarrow> int \<Rightarrow> tid \<Rightarrow> tid \<Rightarrow> ('a, 'r) ipsec_processor
    \<Rightarrow> (effect list outcome \<times> ('a, 'r) ipsec_processor) option" where
  "process_outbound A R uninit fuel now t w this =
     (if outbound_queue this = [] then Some (Waits, this)
      else do {
        let packet = last (outbound_queue this);
        let this = this\<lparr>outbound_queue := butlast (outbound_queue this)\<rparr>;
        (policy, policies) \<leftarrow> find_by_packet fuel packet False 0 (ipr_policies this);
        let this = this\<lparr>ipr_policies := policies\<rparr>;
        case policy of
          None \<Rightarrow> Some (Returns [], this)
        | Some p \<Rightarrow> do {
            pol \<leftarrow> pm_heap policies p;
            outbound_checked_out A R uninit now w packet p
              (checkout_by_reqid t w (cfg_reqid (pol_sa pol)) False (ipr_sas this)) this}})"

definition process_outbound_resume ::
  "('a, 'q) aead_t \<Rightarrow> 'q rng_t \<Rightarrow> (nat \<Rightarrow> u8) \<Rightarrow> int \<Rightarrow> tid \<Rightarrow> tid \<Rightarrow> ip_packet \<Rightarrow> addr \<Rightarrow> addr \<Rightarrow> ('a, 'r) ipsec_processor
    \<Rightarrow> (effect list outcome \<times> ('a, 'r) ipsec_processor) option" where
  "process_outbound_resume A R uninit now t w packet policy p this =
     outbound_checked_out A R uninit now w packet policy
       (wait_resume t w p None (\<lambda>entry. (Some (ent_sa_ptr entry), entry)) (ipr_sas this)) this"

section \<open>What is delivered\<close>

lemma find_entry_sa_ptr:
  assumes "mgr_wf m" "e \<in> set (mgr_sas m)"
  shows "find_entry (\<lambda>e'. ent_sa_ptr e' = ent_sa_ptr e) m = Some e"
proof -
  obtain e' where e': "find_entry (\<lambda>e'. ent_sa_ptr e' = ent_sa_ptr e) m = Some e'"
    using assms(2) by (metis (mono_tags, lifting) find_None_iff find_entry_def not_None_eq)
  moreover have "e' = e"
    using find_entry_SomeD [OF e'] assms unfolding mgr_wf_def by (metis distinct_map inj_onD)
  ultimately show ?thesis by simp
qed

text \<open>A thread that gets an SA gets the one of an entry that matches, as it is.\<close>

lemma checkout_entry_returns:
  assumes wf: "mgr_wf m" and c: "checkout_entry t w P m = (Returns (Some sp), m')"
  obtains e where "e \<in> set (mgr_sas m)" "P e" "sp = ent_sa_ptr e" "sa_of sp m' = Some (ent_sa e)"
proof -
  obtain e y where e: "find_entry P m = Some e" "wait_for_entry t w (ent_sync e) = (Some True, y)"
    "sp = ent_sa_ptr e" "m' = change_entry (ent_ptr e) (\<lambda>_. e\<lparr>ent_sync := y\<rparr>) m"
    using c by (auto simp: checkout_entry_def after_wait_def split: option.splits prod.splits bool.splits)
  note in_m = find_entry_SomeD [OF e(1)]
  have ch: "e' = e" if "e' \<in> set (mgr_sas m)" "ent_ptr e' = ent_ptr e" for e'
    using that in_m mgr_wf_ptr [OF wf] by blast
  have "mgr_wf m'"
    unfolding e(4) using ch wf in_m by (intro change_entry_wf) (auto simp: mgr_wf_def)
  moreover have "e\<lparr>ent_sync := y\<rparr> \<in> set (mgr_sas m')"
    unfolding e(4) using in_m by (auto simp: change_entry_def)
  ultimately have "find_entry (\<lambda>e'. ent_sa_ptr e' = ent_sa_ptr e) m' = Some (e\<lparr>ent_sync := y\<rparr>)"
    using find_entry_sa_ptr [of m' "e\<lparr>ent_sync := y\<rparr>"] by simp
  then show thesis
    using that [of e] in_m e(3) by (simp add: sa_of_def)
qed

lemma inbound_policy_delivers:
  assumes ok: "pm_ok (ipr_policies this) es held" "length es < fuel" "length held < 4294967294"
    and r: "inbound_policy fuel packet ip reqid this = Some (effects, this')" "Delivered cb d p \<in> set effects"
  shows "p = ep_payload packet \<and> cb_fn (inbound_cb this) = Some cb \<and> d = cb_data (inbound_cb this) \<and>
    (\<exists>e \<in> set es. applies (ipr_policies this) ip True reqid e)"
proof -
  obtain q policies where q: "find_by_packet fuel ip True reqid (ipr_policies this) = Some (Some q, policies)"
    "effects = deliver_inbound packet this"
    using r by (auto simp: inbound_policy_def split: if_splits option.splits bind_splits)
  have "\<exists>e \<in> set es. applies (ipr_policies this) ip True reqid e"
    by (rule find_by_packet_ok [OF ok, of ip True reqid]) (use q(1) in auto)
  then show ?thesis
    using r(2) unfolding q(2) by (auto simp: deliver_inbound_def extract_payload_def split: option.splits)
qed

lemma inbound_sa_delivers:
  assumes sa: "sa_of sa (ipr_sas this) = Some s"
    and ok: "pm_ok (ipr_policies this) es held" "length es < fuel" "length held < 4294967294"
    and r: "inbound_sa A fuel now w packet sa this = Some (effects, this')" "Delivered cb d ip \<in> set effects"
  shows "\<exists>packet' ctx p. sa_inbound s \<and> esp_decrypt A packet (sa_esp_context s) = Some (SUCCESS, packet', ctx) \<and>
    ep_payload packet' = Some p \<and> ip = Some p \<and> cb_fn (inbound_cb this) = Some cb \<and> d = cb_data (inbound_cb this) \<and>
    (\<exists>e \<in> set es. applies (ipr_policies this) p True (sa_reqid s) e)"
proof -
  obtain packet' ctx p events s' this1 effects' where i: "sa_inbound s"
    "esp_decrypt A packet (sa_esp_context s) = Some (SUCCESS, packet', ctx)" "ep_payload packet' = Some p"
    "update_usestats now (of_nat (length (ip_packet p))) (s\<lparr>sa_esp_context := ctx\<rparr>) = (events, s')"
    "this1 = this\<lparr>ipr_sas := checkin w sa (set_sa sa s' (ipr_sas this))\<rparr>"
    "inbound_policy fuel packet' p (sa_reqid s') this1 = Some (effects', this')"
    "effects = map Raised events @ effects'"
    using sa r by (auto simp: inbound_sa_def Let_def split: if_splits bind_splits prod.splits)
  have "sa_reqid s' = sa_reqid s"
    using i(4) by (auto simp: update_usestats_def sa_expire_def Let_def split: if_splits)
  moreover have "Delivered cb d ip \<in> set effects'"
    using r(2) i(7) by auto
  ultimately show ?thesis
    using inbound_policy_delivers [of this1 es held fuel packet' p "sa_reqid s'" effects' this' cb d ip] ok i by auto
qed

lemma inbound_checked_out_delivers:
  assumes "inbound_checked_out A fuel now w packet r this = Some (Returns effects, this')" "effects \<noteq> []"
  obtains sa sas where "r = (Returns (Some sa), sas)" "inbound_sa A fuel now w packet sa (this\<lparr>ipr_sas := sas\<rparr>) = Some (effects, this')"
  using assms by (auto simp: inbound_checked_out_def split: prod.splits outcome.splits option.splits)

lemma mgr_reachable_wf: "(mgr_step A C S R F)\<^sup>*\<^sup>* ipsec_sa_mgr_create m \<Longrightarrow> mgr_wf m"
proof (induction rule: rtranclp_induct)
  case base
  then show ?case by (simp add: mgr_wf_def ipsec_sa_mgr_create_def)
next
  case (step m m')
  then show ?case using mgr_step_wf by blast
qed

end
