(* ===== verification/Ipsec_Tunnel.thy ===== *)
theory Ipsec_Tunnel
  imports Ipsec_Processor
begin

text \<open>
  What the processor, the managers and the ESP channel do together: the jobs on the branches
  where an SA and a policy are found, for any AEAD that keeps its contract, and what may be said of a
  packet that is delivered.
\<close>

section \<open>From one end to the other\<close>

lemma dseg_unique:
  "dseg h p s xs None \<Longrightarrow> dseg h p s ys None \<Longrightarrow> xs = ys"
proof (induction xs arbitrary: p s ys)
  case Nil
  then show ?case by (cases ys) auto
next
  case (Cons x xs)
  obtain a v where x: "x = (a, v)" by (cases x)
  obtain y zs where ys: "ys = y # zs"
    using Cons.prems x by (cases ys) auto
  obtain b w where y: "y = (b, w)" by (cases y)
  show ?case
    using Cons.prems Cons.IH unfolding x ys y by (auto split: option.splits)
qed

lemma lists_unique: "lists m es \<Longrightarrow> lists m es' \<Longrightarrow> es = es'"
  using dseg_unique unfolding lists_def represents_def by metis

text \<open>Whether some policy applies to a packet, and all that do belong to the SAs with a request id.\<close>

definition policy_for :: "policy_mgr \<Rightarrow> ip_packet \<Rightarrow> bool \<Rightarrow> u32 \<Rightarrow> u32 \<Rightarrow> bool" where
  "policy_for m packet inb reqid r \<longleftrightarrow> (\<exists>es. lists m es \<and> (\<exists>e \<in> set es. applies m packet inb reqid e) \<and>
     (\<forall>e \<in> set es. applies m packet inb reqid e \<longrightarrow> cfg_reqid (pol_sa (the (pm_heap m (pe_policy e)))) = r))"

lemma policy_for_found:
  assumes ok: "pm_ok m es held" "length es < fuel" "length held < 4294967294" and p: "policy_for m packet inb reqid r"
  obtains q m' pol heap where "find_by_packet fuel packet inb reqid m = Some (Some q, m')"
    "pm_heap m' q = Some pol" "cfg_reqid (pol_sa pol) = r" "policy_destroy q (pm_heap m') = Some heap"
proof -
  have lists: "lists m es"
    using ok(1) by (simp add: pm_ok_def)
  have es: "\<exists>e \<in> set es. applies m packet inb reqid e"
    "\<forall>e \<in> set es. applies m packet inb reqid e \<longrightarrow> cfg_reqid (pol_sa (the (pm_heap m (pe_policy e)))) = r"
    using p lists_unique [OF lists] unfolding policy_for_def by blast+
  show thesis
  proof (cases rule: find_by_packet_ok [OF ok, of packet inb reqid, case_names none found])
    case none
    then show thesis using es(1) by blast
  next
    case (found us e vs m')
    obtain pol pol' where pol: "pm_heap m (pe_policy e) = Some pol" "pm_heap m' (pe_policy e) = Some pol'" "recounted pol pol'"
      using found(6) by blast
    have "cfg_reqid (pol_sa pol') = r"
      using es(2) found(2,3) pol by (auto simp: recounted_def)
    moreover obtain heap where "policy_destroy (pe_policy e) (pm_heap m') = Some heap"
      by (rule release_ok [OF found(5), of "pe_policy e"]) simp_all
    ultimately show thesis
      using that found(1) pol(2) by blast
  qed
qed

lemma checkout_entry_free:
  assumes wf: "mgr_wf m" and e: "find_entry P m = Some e" "entry_free e"
  obtains m' where "checkout_entry t w P m = (Returns (Some (ent_sa_ptr e)), m')" "sa_of (ent_sa_ptr e) m' = Some (ent_sa e)"
proof -
  obtain m' where c: "checkout_entry t w P m = (Returns (Some (ent_sa_ptr e)), m')"
    using e by (auto simp: checkout_entry_def after_wait_def wait_for_entry_def entry_free_def)
  obtain e' where e': "e' \<in> set (mgr_sas m)" "ent_sa_ptr e = ent_sa_ptr e'" "sa_of (ent_sa_ptr e) m' = Some (ent_sa e')"
    by (rule checkout_entry_returns [OF wf c])
  have "e' = e"
    using e'(1,2) find_entry_SomeD [OF e(1)] wf unfolding mgr_wf_def by (metis distinct_map inj_onD)
  then show thesis
    using that [OF c] e'(3) by simp
qed

definition arrived :: "esp_packet \<Rightarrow> esp_packet" where
  "arrived packet = esp_packet_create_from_packet
     (packet_create_from_data (pkt_source (ep_packet packet)) (pkt_destination (ep_packet packet)) (get_data (ep_packet packet)))"

lemma arrived_fields [simp]:
  "get_data (ep_packet (arrived packet)) = get_data (ep_packet packet)"
  "pkt_destination (ep_packet (arrived packet)) = pkt_destination (ep_packet packet)"
  by (simp_all add: arrived_def esp_packet_create_from_packet_def esp_packet_create_internal_def packet_create_from_data_def get_data_def)

text \<open>The two jobs on the branch where nothing fails.\<close>

lemma outbound_sa_sends:
  assumes "sa_of sa (ipr_sas this) = Some s"
    and "esp_encrypt A R uninit (esp_packet_create_from_payload (sa_src s) (sa_dst s) (Some packet)) (sa_esp_context s) (sa_spi s)
      = (SUCCESS, esp, ctx)"
    and "policy_destroy p (pm_heap (ipr_policies this)) = Some heap"
    and "cb_fn (outbound_cb this) = Some cb"
  obtains events this' where
    "outbound_sa A R uninit now w packet p sa this = Some (map Raised events @ [Sent cb (cb_data (outbound_cb this)) esp], this')"
proof (cases "update_usestats now (of_nat (length (ip_packet packet))) (s\<lparr>sa_esp_context := ctx\<rparr>)")
  case (Pair events s')
  then show thesis
    using that assms by (simp add: outbound_sa_def release_policy_def send_outbound_def)
qed

lemma process_outbound_sends:
  assumes "outbound_queue this \<noteq> []" "last (outbound_queue this) = packet"
    and "find_by_packet fuel packet False 0 (ipr_policies this) = Some (Some p, policies)"
    and "pm_heap policies p = Some pol"
    and "checkout_by_reqid t w (cfg_reqid (pol_sa pol)) False (ipr_sas this) = (Returns (Some sa), sas)"
    and "outbound_sa A R uninit now w packet p sa
      (this\<lparr>outbound_queue := butlast (outbound_queue this), ipr_policies := policies, ipr_sas := sas\<rparr>) = Some (effects, this')"
  shows "process_outbound A R uninit fuel now t w this = Some (Returns effects, this')"
  using assms by (simp add: process_outbound_def outbound_checked_out_def)

lemma update_usestats_reqid: "update_usestats now bytes s = (events, s') \<Longrightarrow> sa_reqid s' = sa_reqid s"
  by (auto simp: update_usestats_def sa_expire_def Let_def split: if_splits)

lemma inbound_sa_delivers_payload:
  assumes "sa_of sa (ipr_sas this) = Some s" "sa_inbound s"
    and "esp_decrypt A packet (sa_esp_context s) = Some (SUCCESS, packet', ctx)" "ep_payload packet' = Some ip"
    and "ep_next_header packet' = IPPROTO_IPIP \<or> ep_next_header packet' = IPPROTO_IPV6"
    and "find_by_packet fuel ip True (sa_reqid s) (ipr_policies this) = Some (Some p, policies)"
    and "policy_destroy p (pm_heap policies) = Some heap"
    and "cb_fn (inbound_cb this) = Some cb"
  obtains events this' where
    "inbound_sa A fuel now w packet sa this = Some (map Raised events @ [Delivered cb (cb_data (inbound_cb this)) (Some ip)], this')"
proof (cases "update_usestats now (of_nat (length (ip_packet ip))) (s\<lparr>sa_esp_context := ctx\<rparr>)")
  case (Pair events s')
  then have "sa_reqid s' = sa_reqid s"
    using update_usestats_reqid by fastforce
  then show thesis
    using that assms Pair by (simp add: inbound_sa_def inbound_policy_def deliver_inbound_def extract_payload_def)
qed

lemma process_inbound_delivers:
  assumes "inbound_queue this \<noteq> []" "last (inbound_queue this) = packet"
    and "parse_header packet = Some spi" "pkt_destination (ep_packet packet) = Some dst"
    and "checkout_by_spi t w spi dst (ipr_sas this) = (Returns (Some sa), sas)"
    and "inbound_sa A fuel now w packet sa (this\<lparr>inbound_queue := butlast (inbound_queue this), ipr_sas := sas\<rparr>) = Some (effects, this')"
  shows "process_inbound A fuel now t w this = Some (Returns effects, this')"
  using assms by (simp add: process_inbound_def inbound_checked_out_def)

context esp_channel
begin

lemma outbound_seals:
  assumes ok: "pm_ok (ipr_policies this) es held" "length es < fuel" "length held < 4294967294"
    and wf: "mgr_wf (ipr_sas this)"
    and q: "outbound_queue this \<noteq> []" "last (outbound_queue this) = ip" "fits ip"
    and pol: "policy_for (ipr_policies this) ip False 0 reqid"
    and e: "find_entry (\<lambda>e. match_by_reqid reqid False (ent_sa e)) (ipr_sas this) = Some e" "entry_free e"
    and s: "sender (sa_esp_context (ent_sa e)) k" "last_seqno (sa_esp_context (ent_sa e)) \<noteq> - 1"
    and cb: "cb_fn (outbound_cb this) = Some cb"
  obtains packet events this' where
    "process_outbound A R uninit fuel now t w this = Some (Returns (map Raised events @ [Sent cb (cb_data (outbound_cb this)) packet]), this')"
    "sealed k (sa_spi (ent_sa e)) (last_seqno (sa_esp_context (ent_sa e)) + 1) ip
       (if ip_version ip = 4 then IPPROTO_IPIP else IPPROTO_IPV6) (get_data (ep_packet packet))"
    "pkt_destination (ep_packet packet) = Some (sa_dst (ent_sa e))"
proof -
  let ?sa = "ent_sa e"
  obtain p m' pol' heap where f: "find_by_packet fuel ip False 0 (ipr_policies this) = Some (Some p, m')"
    "pm_heap m' p = Some pol'" "cfg_reqid (pol_sa pol') = reqid" "policy_destroy p (pm_heap m') = Some heap"
    using policy_for_found [OF ok pol] .
  obtain sas where c: "checkout_entry t w (\<lambda>e. match_by_reqid reqid False (ent_sa e)) (ipr_sas this) = (Returns (Some (ent_sa_ptr e)), sas)"
    "sa_of (ent_sa_ptr e) sas = Some ?sa"
    using checkout_entry_free [OF wf e] .
  let ?esp = "esp_packet_create_from_payload (sa_src ?sa) (sa_dst ?sa) (Some ip)"
  have p: "ep_payload ?esp = Some ip" "ep_next_header ?esp = (if ip_version ip = 4 then IPPROTO_IPIP else IPPROTO_IPV6)"
    "pkt_destination (ep_packet ?esp) = Some (sa_dst ?sa)"
    by (simp_all add: esp_packet_create_from_payload_def esp_packet_create_internal_def packet_create_from_data_def Let_def)
  obtain data ctx where enc: "esp_encrypt A R uninit ?esp (sa_esp_context ?sa) (sa_spi ?sa) =
      (SUCCESS, ?esp\<lparr>ep_packet := set_data (ep_packet ?esp) data\<rparr>, ctx)"
    "sealed k (sa_spi ?sa) (last_seqno (sa_esp_context ?sa) + 1) ip (ep_next_header ?esp) data"
    by (rule encrypt_seals [OF s p(1) q(3), of uninit "sa_spi ?sa"])
  let ?out = "?esp\<lparr>ep_packet := set_data (ep_packet ?esp) data\<rparr>"
  let ?p = "this\<lparr>outbound_queue := butlast (outbound_queue this), ipr_policies := m', ipr_sas := sas\<rparr>"
  obtain events this' where o: "outbound_sa A R uninit now w ip p (ent_sa_ptr e) ?p
      = Some (map Raised events @ [Sent cb (cb_data (outbound_cb ?p)) ?out], this')"
    by (rule outbound_sa_sends [of "ent_sa_ptr e" ?p ?sa A R uninit ip ?out ctx p heap cb now w])
      (use c(2) enc(1) f(4) cb in simp_all)
  have "process_outbound A R uninit fuel now t w this
      = Some (Returns (map Raised events @ [Sent cb (cb_data (outbound_cb ?p)) ?out]), this')"
    by (rule process_outbound_sends [OF q(1,2) f(1,2) _ o]) (use f(3) c(1) in \<open>simp add: checkout_by_reqid_def\<close>)
  then show thesis
    using that [of events ?out this'] enc(2) p(2,3) by (simp add: set_data_def get_data_def)
qed

lemma inbound_opens:
  assumes ok: "pm_ok (ipr_policies this) es held" "length es < fuel" "length held < 4294967294"
    and wf: "mgr_wf (ipr_sas this)" and q: "inbound_queue this \<noteq> []" "last (inbound_queue this) = packet"
    and data: "sealed k spi q ip nh (get_data (ep_packet packet))" "fits ip" "nh = IPPROTO_IPIP \<or> nh = IPPROTO_IPV6"
      "pkt_destination (ep_packet packet) = Some dst"
    and e: "find_entry (\<lambda>e. match_by_spi_dst spi dst (ent_sa e)) (ipr_sas this) = Some e" "entry_free e" "sa_inbound (ent_sa e)"
    and k: "keyed (aead (sa_esp_context (ent_sa e))) k" "verify_seqno (sa_esp_context (ent_sa e)) q"
    and pol: "policy_for (ipr_policies this) ip True (sa_reqid (ent_sa e)) r"
    and cb: "cb_fn (inbound_cb this) = Some cb"
  obtains events this' where
    "process_inbound A fuel now t w this = Some (Returns (map Raised events @ [Delivered cb (cb_data (inbound_cb this)) (Some ip)]), this')"
proof -
  let ?sa = "ent_sa e"
  obtain p m' pol' heap where f: "find_by_packet fuel ip True (sa_reqid ?sa) (ipr_policies this) = Some (Some p, m')"
    "policy_destroy p (pm_heap m') = Some heap"
    using policy_for_found [OF ok pol] .
  obtain sas where c: "checkout_entry t w (\<lambda>e. match_by_spi_dst spi dst (ent_sa e)) (ipr_sas this) = (Returns (Some (ent_sa_ptr e)), sas)"
    "sa_of (ent_sa_ptr e) sas = Some ?sa"
    using checkout_entry_free [OF wf e(1,2)] .
  have spi: "parse_header packet = Some spi"
    using data(1) parse_header_wire by (auto simp: sealed_def)
  obtain a where d: "esp_decrypt A packet (sa_esp_context ?sa) =
      Some (SUCCESS, packet\<lparr>ep_payload := Some ip, ep_next_header := nh\<rparr>, (set_authenticated_seqno (sa_esp_context ?sa) q)\<lparr>aead := a\<rparr>)"
    by (rule decrypt_opens [OF k(1) data(2,1)]) (simp add: k(2))
  let ?p = "this\<lparr>inbound_queue := butlast (inbound_queue this), ipr_sas := sas\<rparr>"
  let ?packet = "packet\<lparr>ep_payload := Some ip, ep_next_header := nh\<rparr>"
  let ?ctx = "(set_authenticated_seqno (sa_esp_context ?sa) q)\<lparr>aead := a\<rparr>"
  obtain events this' where o: "inbound_sa A fuel now w packet (ent_sa_ptr e) ?p
      = Some (map Raised events @ [Delivered cb (cb_data (inbound_cb ?p)) (Some ip)], this')"
    by (rule inbound_sa_delivers_payload [of "ent_sa_ptr e" ?p ?sa A packet ?packet ?ctx ip fuel p m' heap cb now w])
      (use c(2) e(3) d data(3) f cb in simp_all)
  have "process_inbound A fuel now t w this
      = Some (Returns (map Raised events @ [Delivered cb (cb_data (inbound_cb ?p)) (Some ip)]), this')"
    by (rule process_inbound_delivers [OF q spi data(4) _ o]) (use c(1) in \<open>simp add: checkout_by_spi_def\<close>)
  then show thesis
    using that by simp
qed

lemma encrypt_all_sender:
  assumes "sender ctx k" and "unat (last_seqno ctx) + length es < 2 ^ 32"
    and "\<forall>e \<in> set es. \<exists>p. ep_payload e = Some p \<and> fits p" and "encrypt_all A R uninit spi ctx es = (ds, ctx')"
  shows "sender ctx' k \<and> unat (last_seqno ctx') = unat (last_seqno ctx) + length es"
  using assms
proof (induction es arbitrary: ctx ds)
  case Nil
  then show ?case by simp
next
  case (Cons e es)
  obtain p where p: "ep_payload e = Some p" "fits p" using Cons.prems(3) by auto
  have n: "last_seqno ctx \<noteq> - 1"
    using Cons.prems(2) by (auto simp: unsigned_minus_1_eq_mask mask_eq_exp_minus_1)
  obtain data ctx1 where e:
      "esp_encrypt A R uninit e ctx spi = (SUCCESS, e\<lparr>ep_packet := set_data (ep_packet e) data\<rparr>, ctx1)"
      "sender ctx1 k" "last_seqno ctx1 = last_seqno ctx + 1"
    by (rule encrypt_seals [OF Cons.prems(1) n p, of uninit spi])
  have "last_seqno ctx + 1 \<noteq> 0"
    using n by (metis add.commute add_eq_0_iff2 minus_equation_iff)
  then have u: "unat (last_seqno ctx1) = unat (last_seqno ctx) + 1"
    using e(3) unatSuc [of "last_seqno ctx"] by (simp add: add.commute)
  obtain ds1 where "encrypt_all A R uninit spi ctx1 es = (ds1, ctx')"
    using Cons.prems(4) e(1) by (auto simp: apfst_def map_prod_def split: prod.splits)
  then show ?case
    using Cons.IH [OF e(2)] Cons.prems(2,3) u by auto
qed

end

text \<open>The contexts a sender can be in: created, then used for any earlier packets, with a sequence number left.\<close>

definition sender_state where
  "sender_state u C S R rngs key ia ik sent ctx \<longleftrightarrow>
     (\<exists>out uninit spi ds r slt. esp_context_create (chapoly_methods portable_drv u) C S R (chapoly_factory R rngs)
        ENCR_CHACHA20_POLY1305 key ia ik False = Some out
      \<and> rngs RNG_STRONG = Some r \<and> fst (get_bytes R r 8) = Some slt \<and> length slt = 8
      \<and> (\<forall>e \<in> set sent. \<exists>p. ep_payload e = Some p \<and> tunnelable p) \<and> length sent < 2 ^ 32 - 1
      \<and> encrypt_all (chapoly_aeads u (wrapper_methods C S)) R uninit spi out sent = (ds, ctx))"

lemma sender_state_ready:
  assumes "sender_state u C S R rngs key ia ik sent ctx"
  shows "chapoly_channel.sender u (wrapper_methods C S) ctx (chapoly_key key)" "last_seqno ctx = of_nat (length sent)"
    "last_seqno ctx \<noteq> - 1"
proof -
  obtain out uninit spi ds r slt where o: "esp_context_create (chapoly_methods portable_drv u) C S R (chapoly_factory R rngs)
        ENCR_CHACHA20_POLY1305 key ia ik False = Some out"
      "rngs RNG_STRONG = Some r" "fst (get_bytes R r 8) = Some slt" "length slt = 8"
      "\<forall>e \<in> set sent. \<exists>p. ep_payload e = Some p \<and> tunnelable p" "length sent < 2 ^ 32 - 1"
      "encrypt_all (chapoly_aeads u (wrapper_methods C S)) R uninit spi out sent = (ds, ctx)"
    using assms unfolding sender_state_def by metis
  note out = chapoly_sender [OF o(1-4)]
  have "chapoly_channel.sender u (wrapper_methods C S) ctx (chapoly_key key) \<and>
      unat (last_seqno ctx) = unat (last_seqno out) + length sent"
    by (rule chapoly_channel.encrypt_all_sender [OF out(1) _ _ o(7)]) (use out(2) o(5,6) tunnelable_fits in fastforce)+
  then have u: "chapoly_channel.sender u (wrapper_methods C S) ctx (chapoly_key key)" "unat (last_seqno ctx) = length sent"
    using out(2) by simp_all
  show "chapoly_channel.sender u (wrapper_methods C S) ctx (chapoly_key key)"
    by (rule u(1))
  show "last_seqno ctx = of_nat (length sent)"
    by (simp add: u(2) [symmetric])
  show "last_seqno ctx \<noteq> - 1"
    using u(2) o(6) by (auto simp: unsigned_minus_1_eq_mask mask_eq_exp_minus_1)
qed

text \<open>A processor whose two managers have been used through their operations only.\<close>

definition in_service where
  "in_service B C S R F malloc pmalloc fuel this \<longleftrightarrow> (mgr_step B C S R F)\<^sup>*\<^sup>* ipsec_sa_mgr_create (ipr_sas this) \<and>
     (\<exists>held. (pm_step malloc pmalloc)\<^sup>*\<^sup>* pm_start (ipr_policies this, held) \<and> length held < 4294967294) \<and>
     fresh_malloc malloc \<and> fresh_pmalloc pmalloc \<and> ll_count (snd (pm_policies (ipr_policies this))) < int fuel"

lemma in_service_ok:
  assumes "in_service B C S R F malloc pmalloc fuel this"
  obtains es held where "mgr_wf (ipr_sas this)" "pm_ok (ipr_policies this) es held" "length es < fuel" "length held < 4294967294"
proof -
  obtain held where h: "(pm_step malloc pmalloc)\<^sup>*\<^sup>* pm_start (ipr_policies this, held)" "length held < 4294967294"
    "fresh_malloc malloc" "fresh_pmalloc pmalloc"
    using assms by (auto simp: in_service_def)
  obtain es where ok: "pm_ok (ipr_policies this) es held"
    using pm_reachable_ok [OF h(1,3,4)] by auto
  have "mgr_wf (ipr_sas this)" "length es < fuel"
    using assms mgr_reachable_wf pm_ok_fuel [OF ok] by (auto simp: in_service_def)
  then show thesis
    using that ok h(2) by blast
qed

section \<open>A pair of processors\<close>

definition demo_params :: "bool \<Rightarrow> sa_params" where
  "demo_params inb = demo_sa_params\<lparr>sp_inbound := inb\<rparr>"

abbreviation demo_aeads ::
  "(((chapoly_drv_portable, unit) chapoly_aead, (unit, unit, unit) private_aead) aead_obj, unit) aead_t" where
  "demo_aeads \<equiv> chapoly_aeads [] (wrapper_methods no_crypter no_signer)"

definition demo_sas ::
  "bool \<Rightarrow> (((chapoly_drv_portable, unit) chapoly_aead, (unit, unit, unit) private_aead) aead_obj, unit) sa_mgr" where
  "demo_sas inb = snd (add_sa (chapoly_methods portable_drv []) no_crypter no_signer constant_rng
     (chapoly_factory constant_rng (\<lambda>q. Some ())) 100 200 (demo_params inb) inb ipsec_sa_mgr_create)"

lemma demo_policies_count: "ll_count (snd (pm_policies (demo_policies dir))) = 1"
  by (simp add: demo_policies_def)

lemma demo_sas_entry:
  obtains sa where "demo_sa_create (demo_params inb) = Some sa" "mgr_sas (demo_sas inb) = [create_entry 100 200 sa]"
    "in_service (chapoly_methods portable_drv []) no_crypter no_signer constant_rng (chapoly_factory constant_rng (\<lambda>q. Some ()))
       least_malloc least_pmalloc 2 (ipsec_processor_create (demo_sas inb) (demo_policies (if inb then POLICY_IN else POLICY_OUT)))"
proof -
  obtain c where "demo_context (replicate 36 1) inb = Some c"
    by (rule demo_context_created [of "replicate 36 1" inb]) simp
  then obtain sa where sa: "demo_sa_create (demo_params inb) = Some sa"
    by (simp add: demo_sa_create_def demo_params_def demo_sa_params_def ipsec_sa_create_def demo_context_def)
  then have add: "add_sa (chapoly_methods portable_drv []) no_crypter no_signer constant_rng
       (chapoly_factory constant_rng (\<lambda>q. Some ())) 100 200 (demo_params inb) inb ipsec_sa_mgr_create =
       ((SUCCESS, schedule_expiration (create_entry 100 200 sa)), demo_sas inb)" "mgr_sas (demo_sas inb) = [create_entry 100 200 sa]"
    by (auto simp: demo_sas_def add_sa_def demo_sa_create_def ipsec_sa_mgr_create_def find_entry_def Let_def)
  have "mgr_step (chapoly_methods portable_drv []) no_crypter no_signer constant_rng
      (chapoly_factory constant_rng (\<lambda>q. Some ())) ipsec_sa_mgr_create (demo_sas inb)"
    using add(1) by (rule mgr_step.add) (simp_all add: ipsec_sa_mgr_create_def)
  then have "(mgr_step (chapoly_methods portable_drv []) no_crypter no_signer constant_rng
      (chapoly_factory constant_rng (\<lambda>q. Some ())))\<^sup>*\<^sup>* ipsec_sa_mgr_create (demo_sas inb)"
    by (rule r_into_rtranclp)
  moreover have "(pm_step least_malloc least_pmalloc)\<^sup>*\<^sup>* pm_start (demo_policies (if inb then POLICY_IN else POLICY_OUT), [])"
    by (rule demo_policies_reachable) simp
  ultimately show thesis
    by (intro that [OF sa add(2)], unfold in_service_def, intro conjI exI [of _ "[]"])
      (simp_all add: ipsec_processor_create_def least_malloc_fresh least_pmalloc_fresh demo_policies_count del: if_split)
qed

lemma demo_policy_for:
  assumes "dir = (if inb then POLICY_IN else POLICY_OUT)" "reqid = 0 \<or> reqid = 7"
  shows "policy_for (demo_policies dir) demo_packet inb reqid 7"
proof -
  let ?e = "\<lparr>pe_priority = 3011, pe_policy = 0\<rparr>"
  have "lists (demo_policies dir) [?e]"
    unfolding lists_def represents_def by (auto simp: demo_policies_def intro: exI [of _ "[(0, ?e)]"])
  moreover have "match_packet demo_packet (demo_policy dir)"
    by (simp add: match_packet_def demo_packet_def demo_policy_def ts_includes_def host_matches_type_def ts_10_8_def
        get_family_def get_address_def match_port_def)
  then have "applies (demo_policies dir) demo_packet inb reqid ?e"
    using assms by (auto simp: applies_def policy_applies_def demo_policies_def demo_policy_def demo_cfg_def)
  ultimately show ?thesis
    unfolding policy_for_def by (auto simp: demo_policies_def demo_policy_def demo_cfg_def intro: exI [of _ "[?e]"])
qed

lemma demo_entry_found:
  assumes "mgr_sas m = [create_entry 100 200 sa]" "demo_sa_create (demo_params inb) = Some sa"
  shows "find_entry (\<lambda>e. match_by_spi_dst 0x1234 (sp_dst demo_sa_params) (ent_sa e)) m = Some (create_entry 100 200 sa)"
    "find_entry (\<lambda>e. match_by_reqid 7 inb (ent_sa e)) m = Some (create_entry 100 200 sa)"
    "entry_free (create_entry 100 200 sa)" "sa_inbound sa = inb" "sa_reqid sa = 7" "sa_spi sa = 0x1234" "sa_dst sa = sp_dst demo_sa_params"
    "esp_context_create (chapoly_methods portable_drv []) no_crypter no_signer constant_rng (chapoly_factory constant_rng (\<lambda>q. Some ()))
       ENCR_CHACHA20_POLY1305 (replicate 36 1) 0 [] inb = Some (sa_esp_context sa)"
  using ipsec_sa_create_fresh [OF assms(2) [unfolded demo_sa_create_def]] assms(1)
  by (simp_all add: find_entry_def create_entry_def entry_free_def create_sync_def match_by_spi_dst_def match_by_reqid_def
      demo_params_def demo_sa_params_def ip_equals_def get_family_def memeq_def)

text \<open>Two processors for the SA and the policy: one with a packet to send, one that receives.\<close>

definition demo_sending where
  "demo_sending = register_outbound 3 4 (queue_outbound demo_packet (ipsec_processor_create (demo_sas False) (demo_policies POLICY_OUT)))"

definition demo_receiving where
  "demo_receiving = register_inbound 5 6 (ipsec_processor_create (demo_sas True) (demo_policies POLICY_IN))"

lemma demo_fields:
  "ipr_sas demo_sending = demo_sas False" "ipr_policies demo_sending = demo_policies POLICY_OUT"
  "outbound_queue demo_sending = [demo_packet]" "outbound_cb demo_sending = \<lparr>cb_fn = Some 3, cb_data = 4\<rparr>"
  "ipr_sas (queue_inbound packet demo_receiving) = demo_sas True" "ipr_policies (queue_inbound packet demo_receiving) = demo_policies POLICY_IN"
  "inbound_queue (queue_inbound packet demo_receiving) = [packet]" "inbound_cb (queue_inbound packet demo_receiving) = \<lparr>cb_fn = Some 5, cb_data = 6\<rparr>"
  by (simp_all add: demo_sending_def demo_receiving_def register_outbound_def register_inbound_def queue_outbound_def queue_inbound_def
      ipsec_processor_create_def no_cb_def)

lemma demo_receiving_fields:
  "ipr_sas demo_receiving = demo_sas True" "ipr_policies demo_receiving = demo_policies POLICY_IN"
  "inbound_queue demo_receiving = []" "inbound_cb demo_receiving = \<lparr>cb_fn = Some 5, cb_data = 6\<rparr>"
  by (simp_all add: demo_receiving_def register_inbound_def ipsec_processor_create_def no_cb_def)

lemma in_service_cong:
  "in_service B C S R F malloc pmalloc fuel this \<Longrightarrow> ipr_sas this' = ipr_sas this \<Longrightarrow> ipr_policies this' = ipr_policies this \<Longrightarrow>
     in_service B C S R F malloc pmalloc fuel this'"
  by (simp add: in_service_def)

lemma demo_in_service:
  "in_service (chapoly_methods portable_drv []) no_crypter no_signer constant_rng (chapoly_factory constant_rng (\<lambda>q. Some ()))
     least_malloc least_pmalloc 2 demo_sending"
  "in_service (chapoly_methods portable_drv []) no_crypter no_signer constant_rng (chapoly_factory constant_rng (\<lambda>q. Some ()))
     least_malloc least_pmalloc 2 (queue_inbound packet demo_receiving)"
  "in_service (chapoly_methods portable_drv []) no_crypter no_signer constant_rng (chapoly_factory constant_rng (\<lambda>q. Some ()))
     least_malloc least_pmalloc 2 demo_receiving"
  by (rule demo_sas_entry [of False], erule in_service_cong, simp_all add: demo_fields ipsec_processor_create_def)
    (rule demo_sas_entry [of True], erule in_service_cong,
      simp_all add: demo_fields demo_receiving_fields ipsec_processor_create_def)+

definition demo_esp :: esp_packet where
  "demo_esp = esp_packet_create_from_packet (packet_create_from_data None (Some (sp_dst demo_sa_params))
     (esp_wire (chacha20_poly1305_seal (chapoly_key (replicate 36 1))) 0x1234 1 (replicate 8 0)
       (esp_plain (ip_packet demo_packet) (esp_padding_len (length (ip_packet demo_packet) + 2) 8 1) 4)))"

lemma demo_esp_sealed:
  "chapoly_channel.sealed (chapoly_key (replicate 36 1)) 0x1234 1 demo_packet 4 (get_data (ep_packet demo_esp))"
  "pkt_destination (ep_packet demo_esp) = Some (sp_dst demo_sa_params)"
  unfolding chapoly_channel.sealed_def demo_esp_def esp_packet_create_from_packet_def esp_packet_create_internal_def
    packet_create_from_data_def get_data_def
  by (rule exI [of _ "replicate 8 0"]) simp_all

lemma demo_delivers:
  obtains events this' where
    "process_inbound demo_aeads 2 0 1 2 (queue_inbound demo_esp demo_receiving) =
       Some (Returns (map Raised events @ [Delivered 5 6 (Some demo_packet)]), this')"
proof -
  obtain sa where sa: "demo_sa_create (demo_params True) = Some sa" "mgr_sas (demo_sas True) = [create_entry 100 200 sa]"
    using demo_sas_entry [of True] by blast
  note e = demo_entry_found [OF sa(2,1)]
  have "receiver_state [] no_crypter no_signer constant_rng (\<lambda>q. Some ()) (replicate 36 1) 0 [] [] (sa_esp_context sa)"
    using e(8) by (simp add: receiver_state_def)
  note k = receiver_keyed [OF this]
  have v: "verify_seqno (sa_esp_context sa) 1"
    using created_fields(1,3) [OF e(8)] by (simp add: verify_seqno_def)
  obtain es held where ok: "mgr_wf (demo_sas True)" "pm_ok (demo_policies POLICY_IN) es held" "length es < 2" "length held < 4294967294"
    using in_service_ok [OF demo_in_service(2), of demo_esp] unfolding demo_fields .
  show thesis
    by (rule chapoly_channel.inbound_opens [where this = "queue_inbound demo_esp demo_receiving" and packet = demo_esp and
          k = "chapoly_key (replicate 36 1)" and spi = "0x1234" and q = 1 and ip = demo_packet and nh = 4 and
          dst = "sp_dst demo_sa_params" and e = "create_entry 100 200 sa" and r = 7 and cb = 5 and es = es and held = held])
      (unfold demo_fields, use ok demo_esp_sealed tunnelable_fits [OF demo_tunnelable] e k v that in
        \<open>simp_all add: create_entry_def demo_policy_for\<close>)
qed



end
