(* ===== verification/Spec2Isabelle.thy ===== *)
theory Spec2Isabelle
  imports Ipsec_Tunnel
begin

text \<open>
  A verification library for the user-space IPsec stack of Confirmed-Android, a strongSwan
  derivative. All paths are below \<open>src/src/\<close>.

  \<^bold>\<open>The program.\<close> The app has no access to the IPsec stack of the kernel, so it carries its own,
  \<open>libipsec\<close>. IP packets read from a TUN device enter a queue; the outbound job of the processor
  takes one, finds the policy that matches it, checks out the outbound SA with the request id of this
  policy, encapsulates the packet with the ESP context of the SA and hands the result to a callback
  that sends it. ESP packets from the network take the way back: the inbound job parses the SPI, checks out
  the SA, decrypts, and delivers the packet if a policy for inbound traffic matches it. SAs and
  policies are installed and removed by the IKE daemon while packets flow, expire by use and by
  time, and are shared by threads. Below lie parts of \<open>libstrongswan\<close>: byte buffers, lists, queues and
  the ChaCha20-Poly1305 AEAD with its drivers.

  \<^bold>\<open>The theories and the code.\<close>
  \<^item> \<open>Prelude\<close>: C integers, \<open>chunk_t\<close>, \<open>status_t\<close>, byte order (\<open>utils/utils/byteorder.h\<close>), memory primitives.
  \<^item> \<open>Bio\<close>: \<open>bio/bio_reader.c\<close>, \<open>bio/bio_writer.c\<close>. \<open>Chunk\<close>: \<open>utils/chunk.c\<close>, codecs and checksum.
  \<^item> \<open>Chapoly_Drv\<close>: \<open>plugins/chapoly/chapoly_drv_portable.c\<close>, statement by statement; \<open>Chacha20\<close> and \<open>Poly1305\<close>
    relate it to the primitives; \<open>Chapoly_Aead\<close>: \<open>chapoly_aead.c\<close> and \<open>chapoly_drv.c\<close>.
  \<^item> \<open>Iv_Gen\<close>: \<open>crypto/iv/*.c\<close>. \<open>Aead\<close>: \<open>crypto/aead.c\<close> with counter mode and the MAC signer.
  \<^item> \<open>Host\<close>, \<open>Packet\<close>: \<open>networking/host.c\<close>, \<open>networking/packet.c\<close>. \<open>Ip_Packet\<close>: \<open>libipsec/ip_packet.c\<close>.
  \<^item> \<open>Esp_Context\<close>, \<open>Esp_Packet\<close>: \<open>libipsec/esp_context.c\<close>, \<open>libipsec/esp_packet.c\<close>; \<open>Esp_Channel\<close> composes two contexts.
  \<^item> \<open>Linked_List\<close>, \<open>Blocking_Queue\<close>: \<open>collections/linked_list.c\<close> on a store of elements, \<open>collections/blocking_queue.c\<close>;
    \<open>Threads\<close>: condition variables (\<open>threading/mutex.c\<close>).
  \<^item> \<open>Ipsec_Sa\<close>: \<open>libipsec/ipsec_sa.c\<close> and \<open>ipsec_event_relay.c\<close>. \<open>Sa_Entry\<close> and \<open>Ipsec_Sa_Mgr\<close>: \<open>libipsec/ipsec_sa_mgr.c\<close>,
    the locking of an entry and the manager.
  \<^item> \<open>Traffic_Selector\<close>: \<open>selectors/traffic_selector.c\<close>. \<open>Ipsec_Policy\<close>, \<open>Ipsec_Policy_Mgr\<close>: \<open>libipsec/ipsec_policy.c\<close>,
    \<open>libipsec/ipsec_policy_mgr.c\<close>.
  \<^item> \<open>Ipsec_Processor\<close>: \<open>libipsec/ipsec_processor.c\<close>; \<open>Ipsec_Tunnel\<close> and this theory: all of it together.

  \<^bold>\<open>How the code is modelled.\<close> A private struct is a record with its members, a method a
  function from the object to its result and the object afterwards; enumerations are datatypes; integers
  keep their width. A failure is an option or a \<open>status_t\<close>. Where the code follows pointers (list elements,
  shared policies) memory is a map from addresses, and an access to \<open>NULL\<close> or to freed memory is the result
  \<open>None\<close>, so that a theorem with a result \<open>Some\<close> says that there is no such access. Interfaces whose
  implementation is chosen at run time (AEAD, crypter, signer, random numbers, driver) are records of
  functions on an abstract state; what is relied on is a locale: \<open>field_codec\<close>, \<open>replay_protection\<close>,
  \<open>chapoly_driver\<close>, \<open>aead_contract\<close>, \<open>esp_channel\<close> and \<open>deque\<close>, each interpreted on the model's own
  definitions. \<open>malloc\<close> and random numbers are parameters, as is memory not written yet. Code under a
  mutex is one step; a function that waits is cut there, with a second function for what it does when it
  is woken, and which thread a signal wakes is arbitrary.

  \<^bold>\<open>What is shown.\<close>
  \<^item> The whole: C1 (a packet that enters at one end comes out unchanged at the other), C2 (nothing is
    delivered that was not decrypted with an installed SA and allowed by a policy).
  \<^item> ESP: C3, C4, C28, C38 (exactly-once delivery under loss, repetition and reordering; authenticity; forged
    packets change nothing; the one access through \<open>NULL\<close>), C9, C10, C29 (the window is exactly the abstract one).
  \<^item> Cryptography: C5 to C8 and C30 (the optimised code computes ChaCha20, Poly1305 and the AEAD; decryption
    succeeds exactly on what encryption makes; IVs do not repeat).
  \<^item> Policies: C11, C12, C25 to C27. SAs: C13 to C20, C39.
  \<^item> Data structures and codecs: C21 to C24, C31 to C37, C40.

  \<^bold>\<open>Bounds and fuel.\<close> Recursion is structural or has a termination proof. The enumerations of a linked list
  follow pointers and may not end on a damaged list, so they take fuel; the lemmas give the result
  for every fuel above the length of the list, which every reachable state has. \<open>get_spi\<close> draws random
  numbers until one is free and takes fuel for the draws. Sizes are natural numbers; where 32 bits
  matter (packet lengths, sequence numbers, reference counts) a bound is stated in the theorem.

  \<^bold>\<open>Not modelled.\<close> Logging and printing; parsing of address strings; the implementations behind the
  run-time interfaces other than ChaCha20-Poly1305, counter mode and the MAC signer, among them the
  SSSE3 driver, which is written in intrinsics; threads, sockets, TUN devices and timers, which are
  system calls; cancellation of threads; the IKE daemon, which is a user of the two managers and is
  covered by taking their operations in any order; certificates, TLS, EAP, the command line tools and the
  Java application, which take no part in the data path.
\<close>

section \<open>From one TUN device to the other\<close>



end
